(* ===== verification/Matching_Prelude.thy ===== *)
theory Matching_Prelude
  imports Main "HOL-Library.Word" "HOL-Library.AList"
begin

text \<open>
  Shared vocabulary of the development: the fixed-width integers of the C++ sources, the
  outcome of a call (a value, an exception, \<open>std::terminate\<close> or undefined behaviour), the
  collections of simplification rules the component theories feed, and generic lemmas on
  words, association lists and sorted lists.
\<close>

unbundle bit_operations_syntax

section \<open>Machine integers\<close>

type_synonym u8 = "8 word"
type_synonym u16 = "16 word"
type_synonym u32 = "32 word"
type_synonym u64 = "64 word"

text \<open>\<open>std::byte\<close> is an octet, and \<open>std::size_t\<close> has 64 bits on the supported targets.\<close>

type_synonym byte = "8 word"
type_synonym size_t = "64 word"

abbreviation u64_max :: u64 where
  "u64_max \<equiv> - 1"

abbreviation u32_max :: u32 where
  "u32_max \<equiv> - 1"

section \<open>Outcomes of a call\<close>

text \<open>
  \<open>Throws\<close> is an exception that leaves the call (an allocation failure), \<open>Terminates\<close> is
  \<open>std::terminate\<close> or a failed \<open>assert\<close>, and \<open>Undefined\<close> is undefined behaviour of the
  language (a dangling iterator, an element of an empty list, an index out of range).
\<close>

datatype 'a outcome = Done 'a | Throws | Terminates | Undefined

definition safe_outcome :: "'a outcome \<Rightarrow> bool" where
  "safe_outcome r \<longleftrightarrow> r \<noteq> Terminates \<and> r \<noteq> Undefined"

section \<open>Rule collections\<close>

named_theorems word_nat "bounds and wrap-around facts that move words to natural numbers"
named_theorems side_rules "facts about one side of the book"
named_theorems codec_simps "byte-level facts of the codecs"

section \<open>Words\<close>

lemma unat_u64_max [word_nat]: "unat u64_max = 2 ^ 64 - 1"
  by (simp add: unsigned_minus_1_eq_mask mask_eq_exp_minus_1)

lemma unat_less_u64 [word_nat]: "unat (x :: u64) < 2 ^ 64"
  using unsigned_less [of x] by simp

lemma unat_sub_le [word_nat]: "(y :: 'a::len word) \<le> x \<Longrightarrow> unat (x - y) = unat x - unat y"
  by (simp add: unat_sub)

lemma unat_add_bounded [word_nat]:
  "unat (x :: u64) + unat y < 2 ^ 64 \<Longrightarrow> unat (x + y) = unat x + unat y"
  by (simp add: unat_word_ariths)

lemma unat_Suc_word [word_nat]: "(x :: u64) \<noteq> u64_max \<Longrightarrow> unat (x + 1) = Suc (unat x)"
  by (metis add.commute add_eq_0_iff unatSuc)

lemma unat_min [word_nat]: "unat (min x y) = min (unat x) (unat (y :: 'a::len word))"
  by (simp add: min_def word_le_nat_alt)

section \<open>Association lists\<close>

lemma map_of_delete: "map_of (AList.delete k m) = (map_of m)(k := None)"
  by (rule delete_conv')

lemma distinct_keys_delete: "distinct (map fst m) \<Longrightarrow> distinct (map fst (AList.delete k m))"
  by (rule distinct_delete)

lemma keys_delete: "fst ` set (AList.delete k m) = fst ` set m - {k}"
  by (auto simp: AList.delete_eq)

lemma length_delete_absent: "k \<notin> fst ` set m \<Longrightarrow> AList.delete k m = m"
  by (rule delete_id) 

lemma length_delete_present:
  "distinct (map fst m) \<Longrightarrow> k \<in> fst ` set m \<Longrightarrow> Suc (length (AList.delete k m)) = length m"
proof (induction m)
  case (Cons kv m)
  then show ?case
    by (cases "fst kv = k") (auto simp: length_delete_absent)
qed simp

end
