(* ===== verification/Market_Types.thy ===== *)
theory Market_Types
  imports Matching_Prelude
begin

text \<open>
  The value types of \<^verbatim>\<open>include/matching/types.hpp\<close>, \<^verbatim>\<open>order.hpp\<close> and \<^verbatim>\<open>trade.hpp\<close>. The strong
  types \<open>OrderId\<close>, \<open>TradeId\<close>, \<open>Price\<close> and \<open>Quantity\<close> wrap a \<open>std::uint64_t\<close> and are ordered by
  a defaulted \<open>operator<=>\<close>, that is by the wrapped value; each is an instance of \<open>linorder\<close>.
\<close>

section \<open>Sides\<close>

text \<open>
  \<open>enum class Side : std::uint8_t\<close> has a fixed underlying type, and the codecs cast every raw
  octet to it, so a \<open>Side\<close> is its octet: \<open>Buy\<close> and \<open>Sell\<close> are the two named values, and the
  other 254 reach \<open>OrderBook::submit\<close>, which rejects them.
\<close>

type_synonym Side = u8

abbreviation (input) Buy :: Side where
  "Buy \<equiv> 0"

abbreviation (input) Sell :: Side where
  "Sell \<equiv> 1"

section \<open>Strong unsigned types\<close>

datatype OrderId = OrderId (order_id_value: u64)

datatype TradeId = TradeId (trade_id_value: u64)

datatype Price = Price (ticks: u64)

datatype Quantity = Quantity (units: u64)

instantiation OrderId :: linorder
begin

definition less_eq_OrderId :: "OrderId \<Rightarrow> OrderId \<Rightarrow> bool" where
  "less_eq_OrderId a b \<longleftrightarrow> order_id_value a \<le> order_id_value b"

definition less_OrderId :: "OrderId \<Rightarrow> OrderId \<Rightarrow> bool" where
  "less_OrderId a b \<longleftrightarrow> order_id_value a < order_id_value b"

instance
  by standard (auto simp: less_eq_OrderId_def less_OrderId_def intro: OrderId.expand)

end

instantiation TradeId :: linorder
begin

definition less_eq_TradeId :: "TradeId \<Rightarrow> TradeId \<Rightarrow> bool" where
  "less_eq_TradeId a b \<longleftrightarrow> trade_id_value a \<le> trade_id_value b"

definition less_TradeId :: "TradeId \<Rightarrow> TradeId \<Rightarrow> bool" where
  "less_TradeId a b \<longleftrightarrow> trade_id_value a < trade_id_value b"

instance
  by standard (auto simp: less_eq_TradeId_def less_TradeId_def intro: TradeId.expand)

end

instantiation Price :: linorder
begin

definition less_eq_Price :: "Price \<Rightarrow> Price \<Rightarrow> bool" where
  "less_eq_Price a b \<longleftrightarrow> ticks a \<le> ticks b"

definition less_Price :: "Price \<Rightarrow> Price \<Rightarrow> bool" where
  "less_Price a b \<longleftrightarrow> ticks a < ticks b"

instance
  by standard (auto simp: less_eq_Price_def less_Price_def intro: Price.expand)

end

instantiation Quantity :: linorder
begin

definition less_eq_Quantity :: "Quantity \<Rightarrow> Quantity \<Rightarrow> bool" where
  "less_eq_Quantity a b \<longleftrightarrow> units a \<le> units b"

definition less_Quantity :: "Quantity \<Rightarrow> Quantity \<Rightarrow> bool" where
  "less_Quantity a b \<longleftrightarrow> units a < units b"

instance
  by standard (auto simp: less_eq_Quantity_def less_Quantity_def intro: Quantity.expand)

end

lemmas strong_order_defs =
  less_eq_OrderId_def less_OrderId_def less_eq_TradeId_def less_TradeId_def
  less_eq_Price_def less_Price_def less_eq_Quantity_def less_Quantity_def

text \<open>The number of units as a natural number: what conservation statements add up.\<close>

abbreviation qnat :: "Quantity \<Rightarrow> nat" where
  "qnat q \<equiv> unat (units q)"

lemma qnat_eq_iff: "qnat a = qnat b \<longleftrightarrow> a = b"
  by (metis Quantity.expand word_unat_eq_iff)

section \<open>Orders and trades\<close>

record NewLimitOrder =
  nlo_id :: OrderId
  nlo_side :: Side
  nlo_price :: Price
  nlo_quantity :: Quantity

record OrderView =
  ov_id :: OrderId
  ov_side :: Side
  ov_price :: Price
  ov_original :: Quantity
  ov_remaining :: Quantity

record Trade =
  tr_id :: TradeId
  tr_maker :: OrderId
  tr_taker :: OrderId
  tr_price :: Price
  tr_quantity :: Quantity

end
