(* ===== verification/Order_Book.thy ===== *)
theory Order_Book
  imports Market_Types
begin

text \<open>
  The model of \<^verbatim>\<open>include/matching/order_book.hpp\<close> and \<^verbatim>\<open>src/order_book.cpp\<close>: results, the state of
  \<open>OrderBook::Impl\<close> and every operation of it, in the order of the source.

  The two \<open>std::map\<close>s of price levels are association lists in iteration order; the comparator
  (\<open>std::greater\<close> for bids, \<open>std::less\<close> for asks) is the argument \<open>precedes\<close> of the operations that
  are templates over \<open>Levels\<close>. A \<open>std::list\<close> iterator is the address of a list node: nodes carry
  their address, \<open>push_back\<close> takes a fresh one from \<open>next_node\<close>, and dereferencing looks the
  address up among the live nodes, so a dangling iterator is visible as \<open>Undefined\<close>.
  Allocation failures are an argument: \<open>faults site\<close> says that the allocation at that site throws.
  Assertions are modelled as enabled, so a failed one is \<open>Terminates\<close>.
\<close>

section \<open>Results\<close>

datatype SubmissionStatus = Accepted | Rejected

datatype RejectionReason =
    InvalidOrderId | InvalidSide | InvalidPrice | InvalidQuantity | DuplicateOrderId
  | QuantityOverflow | SequenceExhausted | TradeIdExhausted

record SubmitResult =
  sr_status :: SubmissionStatus
  sr_reason :: "RejectionReason option"
  sr_executed :: Quantity
  sr_resting :: Quantity
  sr_trades :: "Trade list"

definition accepted :: "SubmitResult \<Rightarrow> bool" where
  "accepted r \<longleftrightarrow> sr_status r = Accepted"

datatype CancelStatus = Cancelled | NotFound

record CancelResult =
  cr_status :: CancelStatus
  cr_cancelled :: Quantity

record Quote =
  q_price :: Price
  q_quantity :: Quantity

record PriceLevelView =
  plv_price :: Price
  plv_total :: Quantity
  plv_count :: size_t

section \<open>Helpers of the anonymous namespace\<close>

definition is_valid_side :: "Side \<Rightarrow> bool" where
  "is_valid_side s \<longleftrightarrow> s = Buy \<or> s = Sell"

definition would_overflow :: "Quantity \<Rightarrow> Quantity \<Rightarrow> bool" where
  "would_overflow current addition \<longleftrightarrow> units current > u64_max - units addition"

definition rejected :: "RejectionReason \<Rightarrow> SubmitResult" where
  "rejected reason =
     \<lparr>sr_status = Rejected, sr_reason = Some reason, sr_executed = Quantity 0,
      sr_resting = Quantity 0, sr_trades = []\<rparr>"

section \<open>State\<close>

record RestingOrder =
  ro_id :: OrderId
  ro_side :: Side
  ro_price :: Price
  ro_original :: Quantity
  ro_remaining :: Quantity
  ro_seq :: u64

text \<open>A node of a \<open>std::list<RestingOrder>\<close>: its address and the element it holds.\<close>

datatype ListNode = ListNode (node_addr: nat) (node_order: RestingOrder)

record PriceLevel =
  lvl_orders :: "ListNode list"
  lvl_total :: Quantity

type_synonym Levels = "(Price \<times> PriceLevel) list"

record OrderLocator =
  loc_side :: Side
  loc_price :: Price
  loc_order :: nat

type_synonym ActiveOrders = "(OrderId \<times> OrderLocator) list"

record MatchPlan =
  mp_remaining :: Quantity
  mp_trade_count :: size_t

record OrderBook =
  bids :: Levels
  asks :: Levels
  active_orders :: ActiveOrders
  seen_order_ids :: "OrderId set"
  next_arrival_sequence :: u64
  next_trade_id :: u64
  next_node :: nat

definition empty_level :: PriceLevel where
  "empty_level = \<lparr>lvl_orders = [], lvl_total = Quantity 0\<rparr>"

definition new_order_book :: OrderBook where
  "new_order_book =
     \<lparr>bids = [], asks = [], active_orders = [], seen_order_ids = {},
      next_arrival_sequence = 1, next_trade_id = 1, next_node = 0\<rparr>"

section \<open>The standard containers\<close>

text \<open>\<open>std::map::try_emplace\<close>: the key keeps its element if present, and \<open>True\<close> is \<open>inserted\<close>.\<close>

fun try_emplace :: "('k \<Rightarrow> 'k \<Rightarrow> bool) \<Rightarrow> 'k \<Rightarrow> 'v \<Rightarrow> ('k \<times> 'v) list \<Rightarrow> ('k \<times> 'v) list \<times> bool" where
  "try_emplace precedes k v [] = ([(k, v)], True)"
| "try_emplace precedes k v ((k', v') # m) =
     (if precedes k k' then ((k, v) # (k', v') # m, True)
      else if k = k' then ((k', v') # m, False)
      else let (m', ins) = try_emplace precedes k v m in ((k', v') # m', ins))"

text \<open>A write through the iterator of key \<open>k\<close>, and \<open>std::map::erase\<close> of it.\<close>

definition map_modify :: "'k \<Rightarrow> ('v \<Rightarrow> 'v) \<Rightarrow> ('k \<times> 'v) list \<Rightarrow> ('k \<times> 'v) list" where
  "map_modify k f m = map (\<lambda>(k', v). (k', if k' = k then f v else v)) m"

definition map_erase :: "'k \<Rightarrow> ('k \<times> 'v) list \<Rightarrow> ('k \<times> 'v) list" where
  "map_erase k m = filter (\<lambda>(k', v). k' \<noteq> k) m"

text \<open>\<open>std::unordered_map::emplace\<close> does nothing when the key is present.\<close>

definition emplace :: "'k \<Rightarrow> 'v \<Rightarrow> ('k \<times> 'v) list \<Rightarrow> ('k \<times> 'v) list" where
  "emplace k v m = (if k \<in> fst ` set m then m else (k, v) # m)"

definition level_nodes :: "Levels \<Rightarrow> ListNode list" where
  "level_nodes levels = concat (map (\<lambda>(p, l). lvl_orders l) levels)"

definition deref :: "nat \<Rightarrow> ListNode list \<Rightarrow> RestingOrder option" where
  "deref a nodes = map_option node_order (find (\<lambda>n. node_addr n = a) nodes)"

definition list_erase :: "nat \<Rightarrow> ListNode list \<Rightarrow> ListNode list" where
  "list_erase a nodes = filter (\<lambda>n. node_addr n \<noteq> a) nodes"

section \<open>Allocation sites\<close>

datatype alloc_site = TradesReserve | SeenInsert | LevelEmplace | OrderPushBack | ActiveEmplace

type_synonym faults = "alloc_site \<Rightarrow> bool"

abbreviation no_faults :: faults where
  "no_faults \<equiv> \<lambda>_. False"

section \<open>OrderBook::Impl\<close>

definition insert_resting_order ::
  "faults \<Rightarrow> (Price \<Rightarrow> Price \<Rightarrow> bool) \<Rightarrow> Levels \<Rightarrow> ActiveOrders \<Rightarrow> nat \<Rightarrow> NewLimitOrder \<Rightarrow> Quantity \<Rightarrow> u64 \<Rightarrow>
     (Levels \<times> ActiveOrders \<times> nat) \<times> unit outcome" where
  "insert_resting_order faults precedes levels active addr incoming resting arrival =
     (if faults LevelEmplace then ((levels, active, addr), Throws)
      else
        let p = nlo_price incoming;
            (levels1, inserted_level) = try_emplace precedes p empty_level levels
        in if faults OrderPushBack
           then ((if inserted_level then map_erase p levels1 else levels1, active, addr), Throws)
           else
             let node = ListNode addr
                   \<lparr>ro_id = nlo_id incoming, ro_side = nlo_side incoming, ro_price = p,
                    ro_original = nlo_quantity incoming, ro_remaining = resting,
                    ro_seq = arrival\<rparr>;
                 levels2 = map_modify p (\<lambda>l. l\<lparr>lvl_orders := lvl_orders l @ [node]\<rparr>) levels1
             in if faults ActiveEmplace
                then let levels3 = map_modify p (\<lambda>l. l\<lparr>lvl_orders := butlast (lvl_orders l)\<rparr>) levels2
                     in ((if inserted_level then map_erase p levels3 else levels3, active, Suc addr), Throws)
                else
                  let active' = emplace (nlo_id incoming)
                        \<lparr>loc_side = nlo_side incoming, loc_price = p, loc_order = addr\<rparr> active;
                      levels3 = map_modify p
                        (\<lambda>l. l\<lparr>lvl_total := Quantity (units (lvl_total l) + units resting)\<rparr>) levels2
                  in ((levels3, active', Suc addr), Done ()))"

text \<open>
  \<open>preview_match\<close>: the inner loop over one level's orders, then the outer loop. The flag of the
  inner result is the early \<open>return\<close> when the trade count reaches the maximum of \<open>std::size_t\<close>.
\<close>

fun preview_orders :: "ListNode list \<Rightarrow> Quantity \<Rightarrow> size_t \<Rightarrow> bool \<times> Quantity \<times> size_t" where
  "preview_orders [] remaining trade_count = (False, remaining, trade_count)"
| "preview_orders (n # ns) remaining trade_count =
     (if trade_count = u64_max then (True, remaining, trade_count)
      else
        let executed = min (units remaining) (units (ro_remaining (node_order n)));
            remaining' = Quantity (units remaining - executed);
            trade_count' = trade_count + 1
        in if units remaining' = 0 then (False, remaining', trade_count')
           else preview_orders ns remaining' trade_count')"

fun preview_levels ::
  "(Price \<Rightarrow> Price \<Rightarrow> bool) \<Rightarrow> Price \<Rightarrow> Levels \<Rightarrow> Quantity \<Rightarrow> size_t \<Rightarrow> MatchPlan" where
  "preview_levels crosses incoming_price [] remaining trade_count =
     \<lparr>mp_remaining = remaining, mp_trade_count = trade_count\<rparr>"
| "preview_levels crosses incoming_price ((p, l) # levels) remaining trade_count =
     (if units remaining > 0 \<and> crosses p incoming_price
      then (case preview_orders (lvl_orders l) remaining trade_count of
              (True, r, c) \<Rightarrow> \<lparr>mp_remaining = r, mp_trade_count = c\<rparr>
            | (False, r, c) \<Rightarrow> preview_levels crosses incoming_price levels r c)
      else \<lparr>mp_remaining = remaining, mp_trade_count = trade_count\<rparr>)"

definition preview_match ::
  "(Price \<Rightarrow> Price \<Rightarrow> bool) \<Rightarrow> Levels \<Rightarrow> Price \<Rightarrow> Quantity \<Rightarrow> MatchPlan" where
  "preview_match crosses levels incoming_price incoming_quantity =
     preview_levels crosses incoming_price levels incoming_quantity 0"

text \<open>The loop counter of \<open>can_issue_trade_ids\<close> counts down the iterations that are left.\<close>

fun issue_loop :: "nat \<Rightarrow> u64 \<Rightarrow> bool" where
  "issue_loop 0 prospective = True"
| "issue_loop (Suc n) prospective =
     (if prospective = 0 then False else issue_loop n (prospective + 1))"

definition can_issue_trade_ids :: "u64 \<Rightarrow> size_t \<Rightarrow> bool" where
  "can_issue_trade_ids next_id trade_count = issue_loop (unat trade_count) next_id"

record MatchState =
  ms_levels :: Levels
  ms_active :: ActiveOrders
  ms_next_trade_id :: u64
  ms_remaining :: Quantity
  ms_trades :: "Trade list"

text \<open>
  One iteration of the \<open>while\<close> loop of \<open>match\<close>, after its condition held for the first level.
\<close>

definition match_step :: "NewLimitOrder \<Rightarrow> Price \<Rightarrow> PriceLevel \<Rightarrow> Levels \<Rightarrow> MatchState \<Rightarrow> MatchState outcome" where
  "match_step incoming p level rest st =
     (case lvl_orders level of
        [] \<Rightarrow> Undefined
      | maker_node # others \<Rightarrow>
          let maker = node_order maker_node;
              executed = min (units (ms_remaining st)) (units (ro_remaining maker))
          in if executed = 0 \<or> units (lvl_total level) < executed \<or> ms_next_trade_id st = 0
             then Terminates
             else
               let trade = \<lparr>tr_id = TradeId (ms_next_trade_id st), tr_maker = ro_id maker,
                            tr_taker = nlo_id incoming, tr_price = ro_price maker,
                            tr_quantity = Quantity executed\<rparr>;
                   maker' = maker\<lparr>ro_remaining := Quantity (units (ro_remaining maker) - executed)\<rparr>;
                   total' = Quantity (units (lvl_total level) - executed);
                   st' = st\<lparr>ms_trades := ms_trades st @ [trade],
                            ms_next_trade_id := ms_next_trade_id st + 1,
                            ms_remaining := Quantity (units (ms_remaining st) - executed)\<rparr>
               in if units (ro_remaining maker') = 0
                  then if ro_id maker' \<notin> fst ` set (ms_active st) then Terminates
                       else Done (st'\<lparr>ms_active := AList.delete (ro_id maker') (ms_active st),
                                      ms_levels := (if others = [] then rest
                                        else (p, level\<lparr>lvl_orders := others, lvl_total := total'\<rparr>) # rest)\<rparr>)
                  else Done (st'\<lparr>ms_levels :=
                               (p, level\<lparr>lvl_orders := ListNode (node_addr maker_node) maker' # others,
                                         lvl_total := total'\<rparr>) # rest\<rparr>))"


text \<open>Every completed iteration executes a positive quantity, so the loop of \<open>match\<close> ends.\<close>

lemma match_step_remaining:
  assumes "match_step incoming p level rest st = Done st'"
  shows "\<exists>m. m \<noteq> 0 \<and> m \<le> units (ms_remaining st) \<and>
             ms_remaining st' = Quantity (units (ms_remaining st) - m)"
proof (cases "lvl_orders level")
  case Nil
  with assms show ?thesis by (simp add: match_step_def)
next
  case (Cons n ns)
  let ?m = "min (units (ms_remaining st)) (units (ro_remaining (node_order n)))"
  from assms Cons have "?m \<noteq> 0 \<and> ms_remaining st' = Quantity (units (ms_remaining st) - ?m)"
    by (auto simp: match_step_def Let_def split: if_splits)
  then show ?thesis by (intro exI [of _ ?m]) simp
qed

lemma match_step_remaining_less:
  assumes "match_step incoming p level rest st = Done st'"
  shows "unat (units (ms_remaining st')) < unat (units (ms_remaining st))"
proof -
  from match_step_remaining [OF assms] obtain m where
    m: "m \<noteq> 0" "m \<le> units (ms_remaining st)"
      "ms_remaining st' = Quantity (units (ms_remaining st) - m)"
    by blast
  then have "0 < unat m" and "unat m \<le> unat (units (ms_remaining st))"
    by (simp_all add: unat_gt_0 word_le_nat_alt)
  with m show ?thesis by (simp add: unat_sub_le)
qed

function match_loop ::
  "(Price \<Rightarrow> Price \<Rightarrow> bool) \<Rightarrow> NewLimitOrder \<Rightarrow> MatchState \<Rightarrow> MatchState outcome" where
  "match_loop crosses incoming st =
     (case ms_levels st of
        [] \<Rightarrow> Done st
      | (p, level) # rest \<Rightarrow>
          if units (ms_remaining st) > 0 \<and> crosses p (nlo_price incoming)
          then (case match_step incoming p level rest st of
                  Done st' \<Rightarrow> match_loop crosses incoming st'
                | Throws \<Rightarrow> Throws | Terminates \<Rightarrow> Terminates | Undefined \<Rightarrow> Undefined)
          else Done st)"
  by pat_completeness auto
termination
  by (relation "measure (\<lambda>(crosses, incoming, st). unat (units (ms_remaining st)))")
     (auto dest: match_step_remaining_less)

declare match_loop.simps [simp del]

text \<open>\<open>cancel_resting_order\<close>; \<open>live\<close> are the nodes of both sides, which the locator may point into.\<close>

definition cancel_resting_order ::
  "Levels \<Rightarrow> ListNode list \<Rightarrow> OrderLocator \<Rightarrow> OrderId \<Rightarrow> (Levels \<times> Quantity) outcome" where
  "cancel_resting_order levels live locator oid =
     (case map_of levels (loc_price locator) of
        None \<Rightarrow> Terminates
      | Some level \<Rightarrow>
          (case deref (loc_order locator) live of
             None \<Rightarrow> Undefined
           | Some order \<Rightarrow>
               if ro_id order \<noteq> oid \<or> units (ro_remaining order) = 0 \<or>
                  units (lvl_total level) < units (ro_remaining order)
               then Terminates
               else if loc_order locator \<notin> node_addr ` set (lvl_orders level) then Undefined
               else
                 let cancelled = ro_remaining order;
                     orders' = list_erase (loc_order locator) (lvl_orders level);
                     level' = level\<lparr>lvl_total := Quantity (units (lvl_total level) - units cancelled),
                                     lvl_orders := orders'\<rparr>
                 in Done (if orders' = [] then map_erase (loc_price locator) levels
                          else map_modify (loc_price locator) (\<lambda>_. level') levels,
                          cancelled)))"

text \<open>\<open>depth_from\<close> stops when \<open>max_levels\<close> views have been produced.\<close>

definition depth_from :: "Levels \<Rightarrow> size_t \<Rightarrow> PriceLevelView list" where
  "depth_from levels max_levels =
     map (\<lambda>(p, l). \<lparr>plv_price = p, plv_total = lvl_total l, plv_count = of_nat (length (lvl_orders l))\<rparr>)
       (take (unat max_levels) levels)"

text \<open>
  \<open>invariants_hold\<close>: \<open>None\<close> is the \<open>return false\<close> of the lambda \<open>check_side\<close>; the accumulator holds
  \<open>counted_orders\<close> and \<open>orders_in_book\<close>.
\<close>

type_synonym check_acc = "nat \<times> OrderId set"

fun check_orders ::
  "OrderBook \<Rightarrow> Side \<Rightarrow> Price \<Rightarrow> ListNode list \<Rightarrow> Quantity \<Rightarrow> u64 \<Rightarrow> check_acc \<Rightarrow> (Quantity \<times> check_acc) option" where
  "check_orders b side price [] aggregate previous acc = Some (aggregate, acc)"
| "check_orders b side price (n # ns) aggregate previous (counted, in_book) =
     (let order = node_order n in
      if ro_side order \<noteq> side \<or> ro_price order \<noteq> price \<or>
         units (ro_remaining order) = 0 \<or> units (ro_original order) = 0 \<or>
         units (ro_remaining order) > units (ro_original order) \<or>
         ro_seq order = 0 \<or> (previous \<noteq> 0 \<and> ro_seq order \<le> previous) \<or>
         would_overflow aggregate (ro_remaining order)
      then None
      else
        case map_of (active_orders b) (ro_id order) of
          None \<Rightarrow> None
        | Some locator \<Rightarrow>
            if loc_side locator \<noteq> side \<or> loc_price locator \<noteq> price \<or>
               loc_order locator \<noteq> node_addr n \<or>
               ro_id order \<notin> seen_order_ids b \<or> ro_id order \<in> in_book
            then None
            else check_orders b side price ns
                   (Quantity (units aggregate + units (ro_remaining order))) (ro_seq order)
                   (Suc counted, insert (ro_id order) in_book))"

fun check_side :: "OrderBook \<Rightarrow> Side \<Rightarrow> Price option \<Rightarrow> Levels \<Rightarrow> check_acc \<Rightarrow> check_acc option" where
  "check_side b side previous [] acc = Some acc"
| "check_side b side previous ((price, level) # levels) acc =
     (if lvl_orders level = [] then None
      else if (case previous of None \<Rightarrow> False
               | Some pp \<Rightarrow> (side = Buy \<and> pp \<le> price) \<or> (side = Sell \<and> pp \<ge> price))
      then None
      else
        case check_orders b side price (lvl_orders level) (Quantity 0) 0 acc of
          None \<Rightarrow> None
        | Some (aggregate, acc') \<Rightarrow>
            if aggregate \<noteq> lvl_total level then None
            else check_side b side (Some price) levels acc')"

definition invariants_hold :: "OrderBook \<Rightarrow> bool" where
  "invariants_hold b \<longleftrightarrow>
     \<not> (bids b \<noteq> [] \<and> asks b \<noteq> [] \<and> fst (hd (bids b)) \<ge> fst (hd (asks b))) \<and>
     (case check_side b Buy None (bids b) (0, {}) of
        None \<Rightarrow> False
      | Some acc \<Rightarrow>
          (case check_side b Sell None (asks b) acc of
             None \<Rightarrow> False
           | Some (counted, in_book) \<Rightarrow> counted = length (active_orders b)))"

definition order_ids_at :: "Levels \<Rightarrow> Price \<Rightarrow> OrderId list" where
  "order_ids_at levels price =
     (case map_of levels price of
        None \<Rightarrow> []
      | Some level \<Rightarrow> map (\<lambda>n. ro_id (node_order n)) (lvl_orders level))"

section \<open>OrderBook\<close>

text \<open>
  The \<open>order.side == Side::Buy ? ... : ...\<close> branches of \<open>submit\<close>: which map an order is matched
  against, which one it rests in, the crossing lambda and the comparator of its own map.
\<close>

definition opposite_levels :: "Side \<Rightarrow> OrderBook \<Rightarrow> Levels" where
  "opposite_levels s b = (if s = Buy then asks b else bids b)"

definition own_levels :: "Side \<Rightarrow> OrderBook \<Rightarrow> Levels" where
  "own_levels s b = (if s = Buy then bids b else asks b)"

definition set_opposite_levels :: "Side \<Rightarrow> Levels \<Rightarrow> OrderBook \<Rightarrow> OrderBook" where
  "set_opposite_levels s l b = (if s = Buy then b\<lparr>asks := l\<rparr> else b\<lparr>bids := l\<rparr>)"

definition set_own_levels :: "Side \<Rightarrow> Levels \<Rightarrow> OrderBook \<Rightarrow> OrderBook" where
  "set_own_levels s l b = (if s = Buy then b\<lparr>bids := l\<rparr> else b\<lparr>asks := l\<rparr>)"

definition price_crosses :: "Side \<Rightarrow> Price \<Rightarrow> Price \<Rightarrow> bool" where
  "price_crosses s = (if s = Buy then (\<lambda>ask_price incoming_price. ask_price \<le> incoming_price)
                      else (\<lambda>bid_price incoming_price. bid_price \<ge> incoming_price))"

definition own_precedes :: "Side \<Rightarrow> Price \<Rightarrow> Price \<Rightarrow> bool" where
  "own_precedes s = (if s = Buy then (\<lambda>a b. a > b) else (\<lambda>a b. a < b))"

text \<open>The part of \<open>submit\<close> after the checks: everything from \<open>trades.reserve\<close> on.\<close>

definition execute_submission ::
  "faults \<Rightarrow> OrderBook \<Rightarrow> NewLimitOrder \<Rightarrow> MatchPlan \<Rightarrow> OrderBook \<times> SubmitResult outcome" where
  "execute_submission faults b order plan =
     (if faults TradesReserve then (b, Throws)
      else if faults SeenInsert then (b, Throws)
      else
        let side = nlo_side order;
            b1 = b\<lparr>seen_order_ids := insert (nlo_id order) (seen_order_ids b)\<rparr>
        in case match_loop (price_crosses side) order
                  \<lparr>ms_levels = opposite_levels side b1, ms_active = active_orders b1,
                   ms_next_trade_id = next_trade_id b1, ms_remaining = nlo_quantity order,
                   ms_trades = []\<rparr> of
             Throws \<Rightarrow> (b1, Throws)
           | Terminates \<Rightarrow> (b1, Terminates)
           | Undefined \<Rightarrow> (b1, Undefined)
           | Done st \<Rightarrow>
               let b2 = (set_opposite_levels side (ms_levels st) b1)
                          \<lparr>active_orders := ms_active st, next_trade_id := ms_next_trade_id st\<rparr>;
                   remaining = ms_remaining st;
                   result = \<lparr>sr_status = Accepted, sr_reason = None,
                             sr_executed = Quantity (units (nlo_quantity order) - units (mp_remaining plan)),
                             sr_resting = mp_remaining plan, sr_trades = ms_trades st\<rparr>
               in if remaining \<noteq> mp_remaining plan \<or> length (ms_trades st) \<noteq> unat (mp_trade_count plan)
                  then (b2, Terminates)
                  else if units remaining > 0
                  then
                    (case insert_resting_order faults (own_precedes side) (own_levels side b2)
                            (active_orders b2) (next_node b2) order remaining
                            (next_arrival_sequence b2) of
                       ((levels, active, addr), ins) \<Rightarrow>
                         let b3 = (set_own_levels side levels b2)\<lparr>active_orders := active, next_node := addr\<rparr>
                         in (case ins of
                               Done u \<Rightarrow>
                                 let b4 = b3\<lparr>next_arrival_sequence := next_arrival_sequence b3 + 1\<rparr>
                                 in if invariants_hold b4 then (b4, Done result) else (b4, Terminates)
                             | Throws \<Rightarrow> (b3, Throws)
                             | Terminates \<Rightarrow> (b3, Terminates)
                             | Undefined \<Rightarrow> (b3, Undefined)))
                  else if invariants_hold b2 then (b2, Done result) else (b2, Terminates))"

definition overflows_at_level :: "Levels \<Rightarrow> Price \<Rightarrow> Quantity \<Rightarrow> bool" where
  "overflows_at_level levels price remaining =
     (case map_of levels price of
        None \<Rightarrow> False
      | Some level \<Rightarrow> would_overflow (lvl_total level) remaining)"

definition submit :: "faults \<Rightarrow> OrderBook \<Rightarrow> NewLimitOrder \<Rightarrow> OrderBook \<times> SubmitResult outcome" where
  "submit faults b order =
     (if order_id_value (nlo_id order) = 0 then (b, Done (rejected InvalidOrderId))
      else if \<not> is_valid_side (nlo_side order) then (b, Done (rejected InvalidSide))
      else if ticks (nlo_price order) = 0 then (b, Done (rejected InvalidPrice))
      else if units (nlo_quantity order) = 0 then (b, Done (rejected InvalidQuantity))
      else if nlo_id order \<in> seen_order_ids b then (b, Done (rejected DuplicateOrderId))
      else
        let side = nlo_side order;
            plan = preview_match (price_crosses side) (opposite_levels side b)
                     (nlo_price order) (nlo_quantity order)
        in if \<not> can_issue_trade_ids (next_trade_id b) (mp_trade_count plan)
           then (b, Done (rejected TradeIdExhausted))
           else if units (mp_remaining plan) > 0 \<and> next_arrival_sequence b = 0
           then (b, Done (rejected SequenceExhausted))
           else if units (mp_remaining plan) > 0 \<and>
                   overflows_at_level (own_levels side b) (nlo_price order) (mp_remaining plan)
           then (b, Done (rejected QuantityOverflow))
           else execute_submission faults b order plan)"

definition live_nodes :: "OrderBook \<Rightarrow> ListNode list" where
  "live_nodes b = level_nodes (bids b) @ level_nodes (asks b)"

definition cancel :: "OrderBook \<Rightarrow> OrderId \<Rightarrow> OrderBook \<times> CancelResult outcome" where
  "cancel b oid =
     (case map_of (active_orders b) oid of
        None \<Rightarrow> (b, Done \<lparr>cr_status = NotFound, cr_cancelled = Quantity 0\<rparr>)
      | Some locator \<Rightarrow>
          (case cancel_resting_order (own_levels (loc_side locator) b) (live_nodes b) locator oid of
             Throws \<Rightarrow> (b, Throws)
           | Terminates \<Rightarrow> (b, Terminates)
           | Undefined \<Rightarrow> (b, Undefined)
           | Done (levels, cancelled) \<Rightarrow>
               let b' = (set_own_levels (loc_side locator) levels b)
                          \<lparr>active_orders := AList.delete oid (active_orders b)\<rparr>
               in if invariants_hold b'
                  then (b', Done \<lparr>cr_status = Cancelled, cr_cancelled = cancelled\<rparr>)
                  else (b', Terminates)))"

definition best_bid :: "OrderBook \<Rightarrow> Quote option" where
  "best_bid b = (case bids b of [] \<Rightarrow> None
                 | (p, l) # _ \<Rightarrow> Some \<lparr>q_price = p, q_quantity = lvl_total l\<rparr>)"

definition best_ask :: "OrderBook \<Rightarrow> Quote option" where
  "best_ask b = (case asks b of [] \<Rightarrow> None
                 | (p, l) # _ \<Rightarrow> Some \<lparr>q_price = p, q_quantity = lvl_total l\<rparr>)"

definition view_of :: "RestingOrder \<Rightarrow> OrderView" where
  "view_of o' = \<lparr>ov_id = ro_id o', ov_side = ro_side o', ov_price = ro_price o',
                 ov_original = ro_original o', ov_remaining = ro_remaining o'\<rparr>"

definition find_order :: "OrderBook \<Rightarrow> OrderId \<Rightarrow> OrderView option outcome" where
  "find_order b oid =
     (case map_of (active_orders b) oid of
        None \<Rightarrow> Done None
      | Some locator \<Rightarrow>
          (case deref (loc_order locator) (live_nodes b) of
             None \<Rightarrow> Undefined
           | Some order \<Rightarrow> Done (Some (view_of order))))"

definition depth :: "OrderBook \<Rightarrow> Side \<Rightarrow> size_t \<Rightarrow> PriceLevelView list" where
  "depth b side max_levels =
     (if max_levels = 0 \<or> \<not> is_valid_side side then []
      else if side = Buy then depth_from (bids b) max_levels
      else depth_from (asks b) max_levels)"

definition active_order_count :: "OrderBook \<Rightarrow> nat" where
  "active_order_count b = length (active_orders b)"

definition order_ids_at_for_testing :: "OrderBook \<Rightarrow> Side \<Rightarrow> Price \<Rightarrow> OrderId list" where
  "order_ids_at_for_testing b side price =
     (if side = Buy then order_ids_at (bids b) price
      else if side = Sell then order_ids_at (asks b) price
      else [])"

definition set_next_trade_id_for_testing :: "OrderBook \<Rightarrow> TradeId \<Rightarrow> OrderBook" where
  "set_next_trade_id_for_testing b tid = b\<lparr>next_trade_id := trade_id_value tid\<rparr>"

end
