(* ===== verification/Order_Book_Sides.thy ===== *)
theory Order_Book_Sides
  imports Order_Book
begin

text \<open>
  One side of the book: the interface \<open>price_priority\<close> between the ordered map of price levels and
  the matching code that walks it, well-formedness of a side, and how the primitive updates of
  \<open>std::map\<close> and \<open>std::list\<close> act on a well-formed side. The interface is interpreted for the asks
  (\<open>std::less\<close>, crossing when \<open>ask <= limit\<close>) and for the bids (\<open>std::greater\<close>, \<open>bid >= limit\<close>).
\<close>

section \<open>Association lists with distinct keys\<close>

lemma map_of_split:
  assumes "map_of m k = Some v"
  shows "\<exists>xs ys. m = xs @ (k, v) # ys \<and> k \<notin> fst ` set xs"
  using assms
proof (induction m)
  case (Cons kv m)
  obtain k' v' where kv: "kv = (k', v')" by (cases kv)
  show ?case
  proof (cases "k' = k")
    case True
    with Cons.prems kv have "kv # m = [] @ (k, v) # m" by simp
    then show ?thesis by fastforce
  next
    case False
    with Cons kv obtain xs ys where "m = xs @ (k, v) # ys" "k \<notin> fst ` set xs" by auto
    with False kv have "kv # m = (kv # xs) @ (k, v) # ys" "k \<notin> fst ` set (kv # xs)" by auto
    then show ?thesis by blast
  qed
qed simp

lemma map_modify_split [simp]:
  "k \<notin> fst ` set xs \<Longrightarrow> k \<notin> fst ` set ys \<Longrightarrow>
   map_modify k f (xs @ (k, v) # ys) = xs @ (k, f v) # ys"
  by (force simp: map_modify_def intro!: map_idI)

lemma map_erase_absent: "k \<notin> fst ` set xs \<Longrightarrow> map_erase k xs = xs"
  by (induction xs) (auto simp: map_erase_def)

lemma map_erase_split [simp]:
  "k \<notin> fst ` set xs \<Longrightarrow> k \<notin> fst ` set ys \<Longrightarrow> map_erase k (xs @ (k, v) # ys) = xs @ ys"
  using map_erase_absent [of k xs] map_erase_absent [of k ys] by (simp add: map_erase_def)

lemma level_nodes_Nil [simp]: "level_nodes [] = []"
  by (simp add: level_nodes_def)

lemma level_nodes_Cons [simp]: "level_nodes ((p, l) # levels) = lvl_orders l @ level_nodes levels"
  by (simp add: level_nodes_def)

lemma level_nodes_append [simp]: "level_nodes (xs @ ys) = level_nodes xs @ level_nodes ys"
  by (simp add: level_nodes_def)

section \<open>Nodes\<close>

abbreviation nid :: "ListNode \<Rightarrow> OrderId" where
  "nid n \<equiv> ro_id (node_order n)"

abbreviation nprice :: "ListNode \<Rightarrow> Price" where
  "nprice n \<equiv> ro_price (node_order n)"

abbreviation nseq :: "ListNode \<Rightarrow> u64" where
  "nseq n \<equiv> ro_seq (node_order n)"

abbreviation nrem :: "ListNode \<Rightarrow> nat" where
  "nrem n \<equiv> qnat (ro_remaining (node_order n))"

section \<open>Well-formed sides\<close>

definition order_ok :: "Side \<Rightarrow> Price \<Rightarrow> RestingOrder \<Rightarrow> bool" where
  "order_ok s p r \<longleftrightarrow>
     ro_side r = s \<and> ro_price r = p \<and> units (ro_remaining r) \<noteq> 0 \<and>
     units (ro_remaining r) \<le> units (ro_original r) \<and> ro_seq r \<noteq> 0"

definition level_ok :: "Side \<Rightarrow> Price \<Rightarrow> PriceLevel \<Rightarrow> bool" where
  "level_ok s p l \<longleftrightarrow>
     lvl_orders l \<noteq> [] \<and> (\<forall>n \<in> set (lvl_orders l). order_ok s p (node_order n)) \<and>
     sorted_wrt (\<lambda>m n. nseq m < nseq n) (lvl_orders l) \<and>
     sum_list (map nrem (lvl_orders l)) = qnat (lvl_total l)"

definition side_ok :: "(Price \<Rightarrow> Price \<Rightarrow> bool) \<Rightarrow> Side \<Rightarrow> Levels \<Rightarrow> bool" where
  "side_ok precedes s levels \<longleftrightarrow>
     sorted_wrt precedes (map fst levels) \<and> (\<forall>(p, l) \<in> set levels. level_ok s p l)"

lemma side_ok_Nil [simp]: "side_ok precedes s []"
  by (simp add: side_ok_def)

lemma side_ok_Cons:
  "side_ok precedes s ((p, l) # levels) \<longleftrightarrow>
     level_ok s p l \<and> (\<forall>q \<in> fst ` set levels. precedes p q) \<and> side_ok precedes s levels"
  by (auto simp: side_ok_def)

lemma side_ok_append:
  "side_ok precedes s (xs @ ys) \<longleftrightarrow>
     side_ok precedes s xs \<and> side_ok precedes s ys \<and>
     (\<forall>p \<in> fst ` set xs. \<forall>q \<in> fst ` set ys. precedes p q)"
  by (auto simp: side_ok_def sorted_wrt_append)

lemmas side_ok_simps = side_ok_Cons side_ok_append

lemma level_okD:
  assumes "level_ok s p l" and "n \<in> set (lvl_orders l)"
  shows "ro_side (node_order n) = s" "nprice n = p" "0 < nrem n" "nseq n \<noteq> 0"
  using assms by (auto simp: level_ok_def order_ok_def unat_gt_0)

lemma side_ok_node:
  assumes "side_ok precedes s levels" and "n \<in> set (level_nodes levels)"
  shows "order_ok s (nprice n) (node_order n)" and "nprice n \<in> fst ` set levels"
proof -
  from assms(2) obtain p l where pl: "(p, l) \<in> set levels" "n \<in> set (lvl_orders l)"
    by (auto simp: level_nodes_def)
  with assms(1) have "level_ok s p l" by (auto simp: side_ok_def)
  with pl(2) have ok: "order_ok s p (node_order n)" by (simp add: level_ok_def)
  then have "nprice n = p" by (simp add: order_ok_def)
  with ok pl(1) show "order_ok s (nprice n) (node_order n)" "nprice n \<in> fst ` set levels"
    by force+
qed

lemma side_ok_node_rem: "side_ok precedes s levels \<Longrightarrow> n \<in> set (level_nodes levels) \<Longrightarrow> 0 < nrem n"
  by (drule (1) side_ok_node(1)) (simp add: order_ok_def unat_gt_0)

section \<open>The interface between price order and matching\<close>

locale price_priority =
  fixes precedes :: "Price \<Rightarrow> Price \<Rightarrow> bool"
    and crosses :: "Price \<Rightarrow> Price \<Rightarrow> bool"
  assumes precedes_irrefl: "\<not> precedes p p"
    and precedes_trans: "precedes p q \<Longrightarrow> precedes q r \<Longrightarrow> precedes p r"
    and precedes_total: "p \<noteq> q \<Longrightarrow> precedes p q \<or> precedes q p"
    and crosses_iff: "crosses p limit \<longleftrightarrow> \<not> precedes limit p"
begin

lemma keys_distinct: "sorted_wrt precedes ks \<Longrightarrow> distinct ks"
  by (induction ks) (auto simp: precedes_irrefl)

lemma side_key_unique:
  assumes "side_ok precedes s (xs @ (p, l) # ys)"
  shows "p \<notin> fst ` set xs" "p \<notin> fst ` set ys"
  using assms by (auto simp: side_ok_simps precedes_irrefl)

lemma side_split:
  assumes "side_ok precedes s levels" and "map_of levels p = Some l"
  obtains xs ys where "levels = xs @ (p, l) # ys" "p \<notin> fst ` set xs" "p \<notin> fst ` set ys"
proof -
  from map_of_split [OF assms(2)] obtain xs ys where L: "levels = xs @ (p, l) # ys" by blast
  with assms(1) side_key_unique [of s xs p l ys] show thesis by (auto intro: that)
qed

lemma try_emplace_present:
  assumes "sorted_wrt precedes (map fst m)" and "k \<in> fst ` set m"
  shows "try_emplace precedes k v m = (m, False)"
  using assms
proof (induction m)
  case (Cons kv m)
  obtain k' v' where kv: "kv = (k', v')" by (cases kv)
  show ?case
  proof (cases "k = k'")
    case True
    with kv show ?thesis by (simp add: precedes_irrefl)
  next
    case False
    with Cons.prems kv have "k \<in> fst ` set m" "precedes k' k" by auto
    then have "\<not> precedes k k'" using precedes_trans precedes_irrefl by blast
    with Cons False kv show ?thesis by simp
  qed
qed simp

lemma try_emplace_absent:
  assumes "sorted_wrt precedes (map fst m)" and "k \<notin> fst ` set m"
  shows "\<exists>xs ys. m = xs @ ys \<and> try_emplace precedes k v m = (xs @ (k, v) # ys, True) \<and>
           (\<forall>q \<in> fst ` set xs. precedes q k) \<and> (\<forall>q \<in> fst ` set ys. precedes k q)"
  using assms
proof (induction m)
  case Nil
  then show ?case by simp
next
  case (Cons kv m)
  obtain k' v' where kv: "kv = (k', v')" by (cases kv)
  show ?case
  proof (cases "precedes k k'")
    case True
    with Cons.prems kv have
      "kv # m = [] @ (kv # m)" "try_emplace precedes k v (kv # m) = ([] @ (k, v) # (kv # m), True)"
      "\<forall>q \<in> fst ` set (kv # m). precedes k q"
      by (auto dest: precedes_trans)
    then show ?thesis by (intro exI [of _ "[]"] exI [of _ "kv # m"]) simp
  next
    case False
    from Cons.prems kv have neq: "k \<noteq> k'" by auto
    with False have before: "precedes k' k" using precedes_total by blast
    from Cons obtain xs ys where
      "m = xs @ ys" "try_emplace precedes k v m = (xs @ (k, v) # ys, True)"
      "\<forall>q \<in> fst ` set xs. precedes q k" "\<forall>q \<in> fst ` set ys. precedes k q"
      by auto
    with False neq before kv show ?thesis
      by (intro exI [of _ "kv # xs"] exI [of _ ys]) auto
  qed
qed

text \<open>Crossing levels come first: the crossing nodes of a well-formed side are a prefix of it.\<close>

lemma crosses_antimono: "crosses q limit \<Longrightarrow> precedes p q \<Longrightarrow> crosses p limit"
  using crosses_iff precedes_trans by blast

lemma no_crossing_after:
  assumes "side_ok precedes s ((p, l) # levels)" and "\<not> crosses p limit"
    and "n \<in> set (level_nodes ((p, l) # levels))"
  shows "\<not> crosses (nprice n) limit"
proof -
  from side_ok_node(2) [OF assms(1,3)] assms(1) have "nprice n = p \<or> precedes p (nprice n)"
    by (auto simp: side_ok_Cons)
  with assms(2) show ?thesis using crosses_antimono by blast
qed

text \<open>A well-formed side is in price-time order.\<close>

lemma side_price_time:
  assumes "side_ok precedes s levels"
  shows "sorted_wrt (\<lambda>m n. precedes (nprice m) (nprice n) \<or> nprice m = nprice n \<and> nseq m < nseq n)
           (level_nodes levels)"
  using assms
proof (induction levels)
  case (Cons pl levels)
  obtain p l where pl: "pl = (p, l)" by (cases pl)
  with Cons.prems have ok: "level_ok s p l" "side_ok precedes s levels"
    and before: "\<forall>q \<in> fst ` set levels. precedes p q"
    by (simp_all add: side_ok_Cons)
  have within: "sorted_wrt (\<lambda>m n. precedes (nprice m) (nprice n) \<or> nprice m = nprice n \<and> nseq m < nseq n)
      (lvl_orders l)"
    using ok(1) by (auto simp: level_ok_def order_ok_def elim!: sorted_wrt_mono_rel [rotated])
  have across: "precedes (nprice m) (nprice n)"
    if "m \<in> set (lvl_orders l)" "n \<in> set (level_nodes levels)" for m n
    using level_okD(2) [OF ok(1) that(1)] side_ok_node(2) [OF ok(2) that(2)] before by auto
  show ?case
    using Cons.IH [OF ok(2)] within pl by (simp add: sorted_wrt_append across)
qed simp

end

section \<open>The two sides of the book\<close>

definition opposite_precedes :: "Side \<Rightarrow> Price \<Rightarrow> Price \<Rightarrow> bool" where
  "opposite_precedes s = (if s = Buy then (\<lambda>a b. a < b) else (\<lambda>a b. a > b))"

definition opposite_side :: "Side \<Rightarrow> Side" where
  "opposite_side s = (if s = Buy then Sell else Buy)"

interpretation opp: price_priority "opposite_precedes s" "price_crosses s" for s
  by unfold_locales (auto simp: opposite_precedes_def price_crosses_def split: if_splits)

interpretation own: price_priority "own_precedes s" "price_crosses (opposite_side s)" for s
  by unfold_locales (auto simp: own_precedes_def price_crosses_def opposite_side_def split: if_splits)

end
