(* ===== verification/Order_Book_Matching.thy ===== *)
theory Order_Book_Matching
  imports Order_Book_Sides
begin

text \<open>
  The matching loop against its specification. \<open>sweep\<close> is price-time priority in one line of
  recursion: walk the makers in priority order, fill each as far as the quantity goes. The lemmas
  show that \<open>match_loop\<close> computes it on the crossing prefix of the opposite side without ever
  reaching \<open>std::terminate\<close>, that \<open>preview_match\<close> predicts its remaining quantity and number of
  trades, and that the counting loop of \<open>can_issue_trade_ids\<close> is the overflow check it stands for.
\<close>

section \<open>The specification\<close>

definition reduce_node :: "nat \<Rightarrow> ListNode \<Rightarrow> ListNode" where
  "reduce_node x n = ListNode (node_addr n)
     ((node_order n)\<lparr>ro_remaining := Quantity (units (ro_remaining (node_order n)) - of_nat x)\<rparr>)"

fun sweep :: "nat \<Rightarrow> ListNode list \<Rightarrow> (ListNode \<times> nat) list \<times> ListNode list \<times> nat" where
  "sweep q [] = ([], [], q)"
| "sweep q (n # ns) =
     (if q = 0 then ([], n # ns, 0)
      else if q < nrem n then ([(n, q)], reduce_node q n # ns, 0)
      else case sweep (q - nrem n) ns of (fills, left, q') \<Rightarrow> ((n, nrem n) # fills, left, q'))"

definition sweep_fills :: "nat \<Rightarrow> ListNode list \<Rightarrow> (ListNode \<times> nat) list" where
  "sweep_fills q ns = fst (sweep q ns)"

definition sweep_left :: "nat \<Rightarrow> ListNode list \<Rightarrow> ListNode list" where
  "sweep_left q ns = fst (snd (sweep q ns))"

definition sweep_rest :: "nat \<Rightarrow> ListNode list \<Rightarrow> nat" where
  "sweep_rest q ns = snd (snd (sweep q ns))"

lemma sweep_Nil [simp]: "sweep_fills q [] = []" "sweep_left q [] = []" "sweep_rest q [] = q"
  by (simp_all add: sweep_fills_def sweep_left_def sweep_rest_def)

lemma sweep_zero [simp]: "sweep_fills 0 ns = []" "sweep_left 0 ns = ns" "sweep_rest 0 ns = 0"
  by (cases ns; simp add: sweep_fills_def sweep_left_def sweep_rest_def)+

lemma sweep_partial:
  assumes "0 < q" "q < nrem n"
  shows "sweep_fills q (n # ns) = [(n, q)]" "sweep_left q (n # ns) = reduce_node q n # ns"
    "sweep_rest q (n # ns) = 0"
  using assms by (simp_all add: sweep_fills_def sweep_left_def sweep_rest_def)

lemma sweep_full:
  assumes "0 < q" "nrem n \<le> q"
  shows "sweep_fills q (n # ns) = (n, nrem n) # sweep_fills (q - nrem n) ns"
    "sweep_left q (n # ns) = sweep_left (q - nrem n) ns"
    "sweep_rest q (n # ns) = sweep_rest (q - nrem n) ns"
  using assms by (simp_all add: sweep_fills_def sweep_left_def sweep_rest_def split: prod.splits)

lemmas sweep_simps = sweep_partial sweep_full

text \<open>Nothing is lost: executed plus unexecuted is what came in.\<close>

lemma sweep_conserves: "sum_list (map snd (sweep_fills q ns)) + sweep_rest q ns = q"
proof (induction ns arbitrary: q)
  case (Cons n ns)
  show ?case using Cons [of "q - nrem n"]
    by (cases "q = 0"; cases "q < nrem n") (simp_all add: sweep_simps)
qed simp

lemma sweep_fills_makers:
  "\<exists>k \<le> length ns. map fst (sweep_fills q ns) = take k ns"
proof (induction ns arbitrary: q)
  case (Cons n ns)
  show ?case
  proof (cases "q = 0 \<or> q < nrem n")
    case True
    then show ?thesis by (cases "q = 0") (auto simp: sweep_simps intro: exI [of _ 0] exI [of _ 1])
  next
    case False
    from Cons [of "q - nrem n"] obtain k where
      "k \<le> length ns" "map fst (sweep_fills (q - nrem n) ns) = take k ns" by blast
    with False show ?thesis by (intro exI [of _ "Suc k"]) (simp add: sweep_simps)
  qed
qed simp

lemma length_sweep_fills: "length (sweep_fills q ns) \<le> length ns"
  using sweep_fills_makers [of ns q] by (metis length_map length_take min.cobounded1)

lemma sweep_fill_bounds:
  "\<forall>n \<in> set ns. 0 < nrem n \<Longrightarrow> (n, x) \<in> set (sweep_fills q ns) \<Longrightarrow> n \<in> set ns \<and> 0 < x \<and> x \<le> nrem n"
proof (induction ns arbitrary: q)
  case (Cons m ns)
  then show ?case
    by (cases "q = 0"; cases "q < nrem m") (auto simp: sweep_simps)
qed simp

text \<open>Strict priority: every maker but the last one that traded has been filled completely.\<close>

lemma sweep_fills_priority:
  "i < length (sweep_fills q ns) - 1 \<Longrightarrow> snd (sweep_fills q ns ! i) = nrem (fst (sweep_fills q ns ! i))"
proof (induction ns arbitrary: q i)
  case (Cons n ns)
  show ?case
  proof (cases "q = 0 \<or> q < nrem n")
    case True
    with Cons.prems show ?thesis by (cases "q = 0") (simp_all add: sweep_simps)
  next
    case False
    with Cons show ?thesis by (cases i) (auto simp: sweep_simps)
  qed
qed simp

lemma sweep_rest_positive:
  "0 < sweep_rest q ns \<Longrightarrow> sweep_left q ns = [] \<and> sweep_fills q ns = map (\<lambda>n. (n, nrem n)) ns"
proof (induction ns arbitrary: q)
  case (Cons n ns)
  then show ?case by (cases "q = 0"; cases "q < nrem n") (auto simp: sweep_simps)
qed simp

lemma sweep_append:
  "sweep_fills q (xs @ ys) = sweep_fills q xs @ sweep_fills (sweep_rest q xs) ys"
  "sweep_rest q (xs @ ys) = sweep_rest (sweep_rest q xs) ys"
proof (induction xs arbitrary: q)
  case (Cons n xs)
  {
    case 1
    show ?case using Cons by (cases "q = 0"; cases "q < nrem n") (simp_all add: sweep_simps)
  next
    case 2
    show ?case using Cons by (cases "q = 0"; cases "q < nrem n") (simp_all add: sweep_simps)
  }
qed simp_all

section \<open>Trade ids\<close>

lemma issue_loop_iff: "issue_loop n t \<longleftrightarrow> n = 0 \<or> (t \<noteq> 0 \<and> unat t + n \<le> 2 ^ 64)"
proof (induction n arbitrary: t)
  case (Suc n)
  show ?case
  proof (cases "t = u64_max")
    case True
    then show ?thesis using Suc [of "t + 1"] by (cases n) (auto simp: unat_u64_max)
  next
    case False
    have "t + 1 \<noteq> 0" using False by (metis add_eq_0_iff2)
    with Suc [of "t + 1"] False show ?thesis
      using unat_less_u64 [of t] by (auto simp: unat_Suc_word)
  qed
qed simp

lemma issue_loop_mono: "issue_loop n t \<Longrightarrow> m \<le> n \<Longrightarrow> issue_loop m t"
  by (auto simp: issue_loop_iff)


section \<open>One iteration\<close>

text \<open>
  The three ways an iteration changes a well-formed side: the first maker is reduced, is removed,
  or is removed together with its level.
\<close>

lemma nrem_reduce: "x \<le> nrem n \<Longrightarrow> nrem (reduce_node x n) = nrem n - x"
  using unat_less_u64 [of "units (ro_remaining (node_order n))"]
  by (simp add: reduce_node_def unat_sub_le word_le_nat_alt unat_of_nat)

lemma reduce_node_simps [simp]:
  "node_addr (reduce_node x n) = node_addr n" "nid (reduce_node x n) = nid n"
  "nprice (reduce_node x n) = nprice n" "nseq (reduce_node x n) = nseq n"
  "ro_side (node_order (reduce_node x n)) = ro_side (node_order n)"
  "ro_original (node_order (reduce_node x n)) = ro_original (node_order n)"
  by (simp_all add: reduce_node_def)

lemma order_ok_reduce:
  assumes "order_ok s p (node_order n)" and "0 < x" "x < nrem n"
  shows "order_ok s p (node_order (reduce_node x n))"
proof -
  from assms(2,3) have "nrem (reduce_node x n) \<le> nrem n" "0 < nrem (reduce_node x n)"
    by (simp_all add: nrem_reduce)
  with assms(1) show ?thesis by (auto simp: order_ok_def word_le_nat_alt unat_gt_0)
qed

lemma level_ok_reduce_head:
  assumes "level_ok s p l" and "lvl_orders l = n # ns" and "0 < x" "x < nrem n"
  shows "level_ok s p (l\<lparr>lvl_orders := reduce_node x n # ns,
                         lvl_total := Quantity (units (lvl_total l) - of_nat x)\<rparr>)"
proof -
  from assms have total: "qnat (lvl_total l) = nrem n + sum_list (map nrem ns)"
    by (simp add: level_ok_def)
  have "(of_nat x :: u64) \<le> units (lvl_total l)" "unat (of_nat x :: u64) = x"
    using assms(4) total unat_less_u64 [of "units (ro_remaining (node_order n))"]
    by (simp_all add: word_le_nat_alt unat_of_nat)
  with total assms(4) have "qnat (Quantity (units (lvl_total l) - of_nat x)) =
      nrem (reduce_node x n) + sum_list (map nrem ns)"
    by (simp add: unat_sub_le nrem_reduce)
  with assms order_ok_reduce [of s p n x] show ?thesis by (auto simp: level_ok_def)
qed

lemma level_ok_drop_head:
  assumes "level_ok s p l" and "lvl_orders l = n # ns" and "ns \<noteq> []"
  shows "level_ok s p (l\<lparr>lvl_orders := ns,
           lvl_total := Quantity (units (lvl_total l) - units (ro_remaining (node_order n)))\<rparr>)"
proof -
  from assms have total: "qnat (lvl_total l) = nrem n + sum_list (map nrem ns)"
    by (simp add: level_ok_def)
  then have "qnat (Quantity (units (lvl_total l) - units (ro_remaining (node_order n)))) =
      sum_list (map nrem ns)"
    by (simp add: unat_sub_le word_le_nat_alt)
  with assms show ?thesis by (auto simp: level_ok_def)
qed

definition trade_of :: "NewLimitOrder \<Rightarrow> u64 \<Rightarrow> ListNode \<times> nat \<Rightarrow> Trade" where
  "trade_of incoming t f =
     \<lparr>tr_id = TradeId t, tr_maker = nid (fst f), tr_taker = nlo_id incoming,
      tr_price = nprice (fst f), tr_quantity = Quantity (of_nat (snd f))\<rparr>"

fun trades_of :: "NewLimitOrder \<Rightarrow> u64 \<Rightarrow> (ListNode \<times> nat) list \<Rightarrow> Trade list" where
  "trades_of incoming t [] = []"
| "trades_of incoming t (f # fs) = trade_of incoming t f # trades_of incoming (t + 1) fs"

text \<open>The iteration when the taker's quantity is used up before the maker's.\<close>

lemma match_step_partial:
  assumes "level_ok s p l" and "lvl_orders l = n # ns" and "ms_next_trade_id st \<noteq> 0"
    and q: "qnat (ms_remaining st) = q" "0 < q" "q < nrem n"
  shows "match_step incoming p l rest st = Done
    (st\<lparr>ms_trades := ms_trades st @ [trade_of incoming (ms_next_trade_id st) (n, q)],
        ms_next_trade_id := ms_next_trade_id st + 1, ms_remaining := Quantity 0,
        ms_levels := (p, l\<lparr>lvl_orders := reduce_node q n # ns,
                           lvl_total := Quantity (units (lvl_total l) - of_nat q)\<rparr>) # rest\<rparr>)"
proof -
  let ?r = "units (ms_remaining st)" and ?m = "units (ro_remaining (node_order n))"
  from q have less: "?r < ?m" by (simp add: word_less_nat_alt)
  then have min: "min ?r ?m = ?r" by (intro min_absorb1) simp
  from q have of_nat: "of_nat q = ?r" by auto
  from assms(1,2) have "nrem n \<le> qnat (lvl_total l)" by (simp add: level_ok_def)
  with q have "\<not> units (lvl_total l) < ?r" by (simp add: word_less_nat_alt)
  moreover from q have "?r \<noteq> 0" by (metis unat_0 less_irrefl)
  moreover from less have "?m - ?r \<noteq> 0" by auto
  ultimately show ?thesis
    using assms(2,3) by (simp add: match_step_def Let_def min of_nat reduce_node_def trade_of_def)
qed

text \<open>The iteration when the maker is filled.\<close>

lemma match_step_full:
  assumes "level_ok s p l" and "lvl_orders l = n # ns" and "ms_next_trade_id st \<noteq> 0"
    and "nid n \<in> fst ` set (ms_active st)" and q: "nrem n \<le> qnat (ms_remaining st)"
  shows "match_step incoming p l rest st = Done
    (st\<lparr>ms_trades := ms_trades st @ [trade_of incoming (ms_next_trade_id st) (n, nrem n)],
        ms_next_trade_id := ms_next_trade_id st + 1,
        ms_remaining := Quantity (units (ms_remaining st) - units (ro_remaining (node_order n))),
        ms_active := AList.delete (nid n) (ms_active st),
        ms_levels := (if ns = [] then rest
          else (p, l\<lparr>lvl_orders := ns,
            lvl_total := Quantity (units (lvl_total l) - units (ro_remaining (node_order n)))\<rparr>) # rest)\<rparr>)"
proof -
  let ?r = "units (ms_remaining st)" and ?m = "units (ro_remaining (node_order n))"
  from q have min: "min ?r ?m = ?m" by (intro min_absorb2) (simp add: word_le_nat_alt)
  from assms(1,2) have "nrem n \<le> qnat (lvl_total l)" by (simp add: level_ok_def)
  then have "\<not> units (lvl_total l) < ?m" by (simp add: word_less_nat_alt)
  moreover from level_okD(3) [OF assms(1)] assms(2) have "?m \<noteq> 0" by (metis list.set_intros(1) less_irrefl unat_0)
  ultimately show ?thesis
    using assms(2,3,4) by (simp add: match_step_def Let_def min trade_of_def)
qed


section \<open>The loop\<close>

definition filled_ids :: "nat \<Rightarrow> ListNode list \<Rightarrow> OrderId set" where
  "filled_ids q ns = {nid n | n. (n, nrem n) \<in> set (sweep_fills q ns)}"

lemma filled_ids_simps:
  "filled_ids q [] = {}" "filled_ids 0 ns = {}"
  "0 < q \<Longrightarrow> q < nrem n \<Longrightarrow> filled_ids q (n # ns) = {}"
  "0 < q \<Longrightarrow> nrem n \<le> q \<Longrightarrow> filled_ids q (n # ns) = insert (nid n) (filled_ids (q - nrem n) ns)"
  by (auto simp: filled_ids_def sweep_simps)

definition crossing :: "(Price \<Rightarrow> Price \<Rightarrow> bool) \<Rightarrow> Price \<Rightarrow> ListNode list \<Rightarrow> ListNode list" where
  "crossing crosses limit ns = takeWhile (\<lambda>n. crosses (nprice n) limit) ns"

definition not_crossing :: "(Price \<Rightarrow> Price \<Rightarrow> bool) \<Rightarrow> Price \<Rightarrow> ListNode list \<Rightarrow> ListNode list" where
  "not_crossing crosses limit ns = dropWhile (\<lambda>n. crosses (nprice n) limit) ns"

lemma crossing_append [simp]: "crossing crosses limit ns @ not_crossing crosses limit ns = ns"
  by (simp add: crossing_def not_crossing_def)

lemma crossing_Cons:
  "crosses (nprice n) limit \<Longrightarrow> crossing crosses limit (n # ns) = n # crossing crosses limit ns"
  "crosses (nprice n) limit \<Longrightarrow> not_crossing crosses limit (n # ns) = not_crossing crosses limit ns"
  "\<not> crosses (nprice n) limit \<Longrightarrow> crossing crosses limit (n # ns) = []"
  "\<not> crosses (nprice n) limit \<Longrightarrow> not_crossing crosses limit (n # ns) = n # ns"
  by (simp_all add: crossing_def not_crossing_def)

text \<open>What the loop owes its caller, stated for the state it is entered with.\<close>

definition match_result ::
  "(Price \<Rightarrow> Price \<Rightarrow> bool) \<Rightarrow> (Price \<Rightarrow> Price \<Rightarrow> bool) \<Rightarrow> Side \<Rightarrow> NewLimitOrder \<Rightarrow> MatchState \<Rightarrow> MatchState \<Rightarrow> bool" where
  "match_result precedes crosses s incoming st st' \<longleftrightarrow>
     (let ns = level_nodes (ms_levels st);
          xs = crossing crosses (nlo_price incoming) ns;
          q = qnat (ms_remaining st)
      in side_ok precedes s (ms_levels st') \<and>
         level_nodes (ms_levels st') = sweep_left q xs @ not_crossing crosses (nlo_price incoming) ns \<and>
         qnat (ms_remaining st') = sweep_rest q xs \<and>
         ms_trades st' = ms_trades st @ trades_of incoming (ms_next_trade_id st) (sweep_fills q xs) \<and>
         ms_next_trade_id st' = ms_next_trade_id st + of_nat (length (sweep_fills q xs)) \<and>
         ms_active st' = filter (\<lambda>(k, v). k \<notin> filled_ids q xs) (ms_active st))"

lemma match_result_same:
  assumes "side_ok precedes s (ms_levels st)"
    and "crossing crosses (nlo_price incoming) (level_nodes (ms_levels st)) = [] \<or> qnat (ms_remaining st) = 0"
  shows "match_result precedes crosses s incoming st st"
  using assms crossing_append [of crosses "nlo_price incoming" "level_nodes (ms_levels st)"]
  by (auto simp: match_result_def Let_def filled_ids_simps simp del: crossing_append)

lemma filter_insert_keys:
  "filter (\<lambda>(k, v). k \<noteq> a \<and> k \<notin> B) m = filter (\<lambda>(k, v). k \<notin> B) (AList.delete a m)"
  by (auto simp: AList.delete_eq intro!: filter_cong)

text \<open>One iteration establishes the result from the result of the rest of the loop.\<close>

lemma match_result_full:
  assumes st: "ms_levels st = (p, l) # rest" "lvl_orders l = n # ns"
    and "crosses (nprice n) (nlo_price incoming)" "0 < nrem n" "nrem n \<le> qnat (ms_remaining st)"
    and st1: "level_nodes (ms_levels st1) = ns @ level_nodes rest"
      "qnat (ms_remaining st1) = qnat (ms_remaining st) - nrem n"
      "ms_trades st1 = ms_trades st @ [trade_of incoming (ms_next_trade_id st) (n, nrem n)]"
      "ms_next_trade_id st1 = ms_next_trade_id st + 1"
      "ms_active st1 = AList.delete (nid n) (ms_active st)"
    and res: "match_result precedes crosses s incoming st1 st'"
  shows "match_result precedes crosses s incoming st st'"
proof -
  let ?xs = "crossing crosses (nlo_price incoming) (ns @ level_nodes rest)"
  have nodes: "level_nodes (ms_levels st) = n # (ns @ level_nodes rest)" using st by simp
  have "0 < qnat (ms_remaining st)" using assms(4,5) by simp
  note sw = sweep_full [OF this assms(5), of ?xs]
    filled_ids_simps(4) [OF this assms(5), of ?xs]
  show ?thesis
    using res assms(3)
    by (simp add: match_result_def Let_def nodes st1 crossing_Cons sw filter_insert_keys
          add.assoc add.commute [of 1])
qed

lemma match_loop_go:
  assumes "ms_levels st = (p, l) # rest" and "units (ms_remaining st) > 0 \<and> crosses p (nlo_price incoming)"
    and "match_step incoming p l rest st = Done st1"
  shows "match_loop crosses incoming st = match_loop crosses incoming st1"
  using assms by (subst match_loop.simps) simp

text \<open>The loop is done, or its first maker trades.\<close>

lemma match_loop_cases:
  assumes ok: "side_ok precedes s (ms_levels st)"
  obtains (stop) "crossing crosses (nlo_price incoming) (level_nodes (ms_levels st)) = [] \<or>
                    qnat (ms_remaining st) = 0"
      "match_loop crosses incoming st = Done st"
    | (go) p l rest n ns where "ms_levels st = (p, l) # rest" "lvl_orders l = n # ns"
      "units (ms_remaining st) > 0 \<and> crosses p (nlo_price incoming)" "nprice n = p" "0 < nrem n"
proof (cases "ms_levels st")
  case Nil
  then have "match_loop crosses incoming st = Done st" by (subst match_loop.simps) simp
  with Nil stop show thesis by (simp add: crossing_def)
next
  case (Cons pl rest)
  obtain p l where pl: "pl = (p, l)" by (cases pl)
  with ok Cons have lok: "level_ok s p l" by (simp add: side_ok_Cons)
  then obtain n ns where ord: "lvl_orders l = n # ns"
    by (cases "lvl_orders l") (auto simp: level_ok_def)
  from level_okD [OF lok, of n] ord have n: "nprice n = p" "0 < nrem n" by simp_all
  show thesis
  proof (cases "units (ms_remaining st) > 0 \<and> crosses p (nlo_price incoming)")
    case True
    with Cons pl ord n show thesis by (intro go) simp_all
  next
    case False
    with Cons pl have "match_loop crosses incoming st = Done st" by (subst match_loop.simps) auto
    with False Cons pl ord n show thesis
      by (intro stop) (auto simp: crossing_Cons unat_gt_0 word_gt_0)
  qed
qed

text \<open>The last iteration: the taker is filled by a part of the first maker.\<close>

lemma match_loop_partial:
  assumes ok: "side_ok precedes s (ms_levels st)" and lv: "ms_levels st = (p, l) # rest"
    and ord: "lvl_orders l = n # ns" and issue: "ms_next_trade_id st \<noteq> 0"
    and cr: "crosses p (nlo_price incoming)"
    and q: "0 < qnat (ms_remaining st)" "qnat (ms_remaining st) < nrem n"
  shows "\<exists>st'. match_loop crosses incoming st = Done st' \<and>
               match_result precedes crosses s incoming st st'"
proof -
  let ?q = "qnat (ms_remaining st)"
  define st1 where "st1 = st\<lparr>ms_trades := ms_trades st @ [trade_of incoming (ms_next_trade_id st) (n, ?q)],
    ms_next_trade_id := ms_next_trade_id st + 1, ms_remaining := Quantity 0,
    ms_levels := (p, l\<lparr>lvl_orders := reduce_node ?q n # ns,
                       lvl_total := Quantity (units (lvl_total l) - of_nat ?q)\<rparr>) # rest\<rparr>"
  from ok lv have lok: "level_ok s p l" by (simp add: side_ok_Cons)
  with ord have p: "nprice n = p" using level_okD(2) by (metis list.set_intros(1))
  have step: "match_step incoming p l rest st = Done st1"
    unfolding st1_def by (rule match_step_partial [OF lok ord issue refl q])
  from q(1) have "units (ms_remaining st) > 0" by (simp add: unat_gt_0 word_gt_0)
  with cr have "match_loop crosses incoming st = match_loop crosses incoming st1"
    by (intro match_loop_go [OF lv _ step]) simp
  also have "\<dots> = Done st1"
    by (subst match_loop.simps) (simp add: st1_def)
  finally have loop: "match_loop crosses incoming st = Done st1" .
  have "side_ok precedes s (ms_levels st1)"
    using ok lv level_ok_reduce_head [OF lok ord q] by (simp add: st1_def side_ok_Cons)
  with lv ord cr p q have "match_result precedes crosses s incoming st st1"
    by (simp add: match_result_def Let_def crossing_Cons sweep_simps filled_ids_simps)
       (simp add: st1_def)
  with loop show ?thesis by blast
qed

text \<open>An iteration that fills the first maker, as a state the loop goes on from.\<close>

lemma match_step_fills:
  assumes ok: "side_ok precedes s (ms_levels st)" and lv: "ms_levels st = (p, l) # rest"
    and ord: "lvl_orders l = n # ns" and issue: "ms_next_trade_id st \<noteq> 0"
    and act: "nid n \<in> fst ` set (ms_active st)" and le: "nrem n \<le> qnat (ms_remaining st)"
  obtains st1 where "match_step incoming p l rest st = Done st1" "side_ok precedes s (ms_levels st1)"
    "level_nodes (ms_levels st1) = ns @ level_nodes rest"
    "qnat (ms_remaining st1) = qnat (ms_remaining st) - nrem n"
    "ms_trades st1 = ms_trades st @ [trade_of incoming (ms_next_trade_id st) (n, nrem n)]"
    "ms_next_trade_id st1 = ms_next_trade_id st + 1"
    "ms_active st1 = AList.delete (nid n) (ms_active st)"
proof -
  from ok lv have lok: "level_ok s p l" by (simp add: side_ok_Cons)
  note step = match_step_full [OF lok ord issue act le, of incoming rest]
  from ok lv level_ok_drop_head [OF lok ord] have
    "side_ok precedes s (if ns = [] then rest else (p, l\<lparr>lvl_orders := ns,
       lvl_total := Quantity (units (lvl_total l) - units (ro_remaining (node_order n)))\<rparr>) # rest)"
    by (simp add: side_ok_Cons)
  with le show thesis
    by (intro that [OF step]) (simp_all add: unat_sub_le word_le_nat_alt)
qed

lemma match_loop_sweep:
  assumes "side_ok precedes s (ms_levels st)"
    and "distinct (map nid (level_nodes (ms_levels st)))"
    and "nid ` set (level_nodes (ms_levels st)) \<subseteq> fst ` set (ms_active st)"
    and "issue_loop (length (sweep_fills (qnat (ms_remaining st))
           (crossing crosses (nlo_price incoming) (level_nodes (ms_levels st))))) (ms_next_trade_id st)"
  shows "\<exists>st'. match_loop crosses incoming st = Done st' \<and>
               match_result precedes crosses s incoming st st'"
  using assms
proof (induction crosses incoming st rule: match_loop.induct)
  case (1 crosses incoming st)
  let ?limit = "nlo_price incoming"
  consider (stop) "crossing crosses ?limit (level_nodes (ms_levels st)) = [] \<or> qnat (ms_remaining st) = 0"
      "match_loop crosses incoming st = Done st"
    | (go) p l rest n ns where "ms_levels st = (p, l) # rest" "lvl_orders l = n # ns"
      "units (ms_remaining st) > 0 \<and> crosses p ?limit" "nprice n = p" "0 < nrem n"
    by (rule match_loop_cases [OF "1.prems"(1)])
  then show ?case
  proof cases
    case stop
    with "1.prems"(1) show ?thesis by (auto intro: match_result_same)
  next
    case go
    let ?q = "qnat (ms_remaining st)"
    from go(3) have q0: "0 < ?q" by (simp add: unat_gt_0 word_gt_0)
    have cr: "crosses (nprice n) ?limit" using go by simp
    have issue: "ms_next_trade_id st \<noteq> 0"
      using "1.prems"(4) q0 cr go(1,2)
      by (cases "?q < nrem n") (simp_all add: crossing_Cons sweep_simps split: if_splits)
    show ?thesis
    proof (cases "?q < nrem n")
      case True
      with match_loop_partial [OF "1.prems"(1) go(1,2) issue] go(3) q0 show ?thesis by blast
    next
      case False
      then have le: "nrem n \<le> ?q" by simp
      from "1.prems"(3) go(1,2) have act: "nid n \<in> fst ` set (ms_active st)" by auto
      obtain st1 where st1: "match_step incoming p l rest st = Done st1" "side_ok precedes s (ms_levels st1)"
        "level_nodes (ms_levels st1) = ns @ level_nodes rest"
        "qnat (ms_remaining st1) = ?q - nrem n"
        "ms_trades st1 = ms_trades st @ [trade_of incoming (ms_next_trade_id st) (n, nrem n)]"
        "ms_next_trade_id st1 = ms_next_trade_id st + 1"
        "ms_active st1 = AList.delete (nid n) (ms_active st)"
        by (rule match_step_fills [OF "1.prems"(1) go(1,2) issue act le])
      have "\<exists>st'. match_loop crosses incoming st1 = Done st' \<and> match_result precedes crosses s incoming st1 st'"
      proof (rule "1.IH" [OF go(1) refl go(3) st1(1,2)])
        show "distinct (map nid (level_nodes (ms_levels st1)))"
          using "1.prems"(2) go(1,2) st1(3) by simp
        show "nid ` set (level_nodes (ms_levels st1)) \<subseteq> fst ` set (ms_active st1)"
          using "1.prems"(2,3) go(1,2) by (simp add: st1(3,7) keys_delete image_Un) blast
        show "issue_loop (length (sweep_fills (qnat (ms_remaining st1))
            (crossing crosses ?limit (level_nodes (ms_levels st1))))) (ms_next_trade_id st1)"
          using "1.prems"(4) q0 cr le go(1,2)
          by (simp add: st1 crossing_Cons sweep_simps split: if_splits)
      qed
      then obtain st' where st': "match_loop crosses incoming st1 = Done st'"
        "match_result precedes crosses s incoming st1 st'" by blast
      have "match_result precedes crosses s incoming st st'"
        by (rule match_result_full [OF go(1,2) cr go(5) le st1(3-7) st'(2)])
      with st'(1) match_loop_go [of st p l rest crosses incoming st1] go(1,3) st1(1)
      show ?thesis by auto
    qed
  qed
qed


section \<open>The preview\<close>

lemma preview_orders_sweep:
  assumes "\<forall>n \<in> set ns. 0 < nrem n" and "0 < qnat r" and "unat c + length ns < 2 ^ 64"
  shows "\<exists>r' c'. preview_orders ns r c = (False, r', c') \<and>
           qnat r' = sweep_rest (qnat r) ns \<and> unat c' = unat c + length (sweep_fills (qnat r) ns)"
  using assms
proof (induction ns arbitrary: r c)
  case (Cons n ns)
  let ?m = "units (ro_remaining (node_order n))"
  let ?r = "Quantity (units r - min (units r) ?m)"
  from Cons.prems(3) have c: "c \<noteq> u64_max" by (auto simp: unat_u64_max)
  then have c1: "unat (c + 1) = Suc (unat c)" by (rule unat_Suc_word)
  have r: "qnat ?r = qnat r - nrem n"
    by (auto simp: unat_sub_le unat_min)
  show ?case
  proof (cases "nrem n < qnat r")
    case False
    then have "units ?r = 0" using r by (simp add: unat_eq_zero [symmetric] del: Quantity.sel)
    moreover have "sweep_rest (qnat r) (n # ns) = 0" "length (sweep_fills (qnat r) (n # ns)) = 1"
      using False Cons.prems(2) by (cases "qnat r < nrem n"; simp add: sweep_simps)+
    ultimately show ?thesis using c c1 r False by (simp add: Let_def)
  next
    case True
    then have pos: "0 < qnat ?r" using r by simp
    then have nz: "units ?r \<noteq> 0" by (metis unat_0 less_irrefl)
    from Cons.IH [of ?r "c + 1"] Cons.prems pos c1 obtain r' c' where
      "preview_orders ns ?r (c + 1) = (False, r', c')" "qnat r' = sweep_rest (qnat ?r) ns"
      "unat c' = unat (c + 1) + length (sweep_fills (qnat ?r) ns)"
      by auto
    with True nz c c1 r Cons.prems(2) show ?thesis
      by (simp add: Let_def sweep_simps)
  qed
qed simp

lemma crossing_level:
  assumes "level_ok s p l" and "crosses p limit"
  shows "crossing crosses limit (lvl_orders l @ ns) = lvl_orders l @ crossing crosses limit ns"
  unfolding crossing_def
  by (rule takeWhile_append2) (use assms in \<open>simp add: level_okD(2)\<close>)

lemma crossing_level_none:
  assumes "level_ok s p l" and "\<not> crosses p limit"
  shows "crossing crosses limit (lvl_orders l @ ns) = []"
  using assms level_okD(2) [OF assms(1), of "hd (lvl_orders l)"]
  by (cases "lvl_orders l") (auto simp: crossing_Cons level_ok_def)

lemma preview_levels_sweep:
  assumes "side_ok precedes s levels" and "unat c + length (level_nodes levels) < 2 ^ 64"
  shows "qnat (mp_remaining (preview_levels crosses limit levels r c)) =
           sweep_rest (qnat r) (crossing crosses limit (level_nodes levels)) \<and>
         unat (mp_trade_count (preview_levels crosses limit levels r c)) =
           unat c + length (sweep_fills (qnat r) (crossing crosses limit (level_nodes levels)))"
  using assms
proof (induction levels arbitrary: r c)
  case Nil
  then show ?case by (simp add: crossing_def)
next
  case (Cons pl levels)
  obtain p l where pl: "pl = (p, l)" by (cases pl)
  with Cons.prems(1) have lok: "level_ok s p l" and rok: "side_ok precedes s levels"
    by (simp_all add: side_ok_Cons)
  show ?case
  proof (cases "units r > 0 \<and> crosses p limit")
    case False
    then have "qnat r = 0 \<or> crossing crosses limit (level_nodes (pl # levels)) = []"
      using pl crossing_level_none [OF lok] by (auto simp: word_gt_0)
    with False pl show ?thesis by auto
  next
    case True
    then have "0 < qnat r" by (simp add: unat_gt_0 word_gt_0)
    moreover have "\<forall>n \<in> set (lvl_orders l). 0 < nrem n" using level_okD(3) [OF lok] by blast
    ultimately obtain r' c' where pre: "preview_orders (lvl_orders l) r c = (False, r', c')"
      and r': "qnat r' = sweep_rest (qnat r) (lvl_orders l)"
      and c': "unat c' = unat c + length (sweep_fills (qnat r) (lvl_orders l))"
      using preview_orders_sweep [of "lvl_orders l" r c] Cons.prems(2) pl by auto
    have "unat c' + length (level_nodes levels) < 2 ^ 64"
      using c' Cons.prems(2) pl length_sweep_fills [of "qnat r" "lvl_orders l"] by simp
    from Cons.IH [OF rok this, of r'] True pl pre r' c' crossing_level [of s p l crosses limit] lok
    show ?thesis by (simp add: sweep_append)
  qed
qed

section \<open>What the sweep leaves behind\<close>

text \<open>Everything of a node except its remaining quantity: what a partial fill does not touch.\<close>

definition node_key :: "ListNode \<Rightarrow> nat \<times> RestingOrder" where
  "node_key n = (node_addr n, (node_order n)\<lparr>ro_remaining := Quantity 0\<rparr>)"

lemma node_key_reduce [simp]: "node_key (reduce_node x n) = node_key n"
  by (simp add: node_key_def reduce_node_def)

lemma sweep_left_shape:
  "\<exists>k \<le> length ns. filled_ids q ns = nid ` set (take k ns) \<and>
     map node_key (sweep_left q ns) = drop k (map node_key ns)"
proof (induction ns arbitrary: q)
  case Nil
  then show ?case by (simp add: filled_ids_simps)
next
  case (Cons n ns)
  show ?case
  proof (cases "q = 0 \<or> q < nrem n")
    case True
    then show ?thesis
      by (intro exI [of _ 0]) (cases "q = 0"; simp add: sweep_simps filled_ids_simps)
  next
    case False
    from Cons [of "q - nrem n"] obtain k where k: "k \<le> length ns"
      "filled_ids (q - nrem n) ns = nid ` set (take k ns)"
      "map node_key (sweep_left (q - nrem n) ns) = drop k (map node_key ns)"
      by blast
    with False show ?thesis
      by (intro exI [of _ "Suc k"]) (simp add: sweep_simps filled_ids_simps)
  qed
qed

end
