(* ===== verification/Order_Book_Invariant.thy ===== *)
theory Order_Book_Invariant
  imports Order_Book_Matching
begin

text \<open>
  The invariant of the whole book: two well-formed sides that do not cross, the index of active
  orders in step with the nodes it points to, and the counters ahead of everything in the book.
  \<open>invariants_hold\<close>, the checker the code runs in its assertions, is shown to decide exactly the
  declarative conditions.
\<close>

section \<open>The active-order index\<close>

definition locator_of :: "ListNode \<Rightarrow> OrderLocator" where
  "locator_of n = \<lparr>loc_side = ro_side (node_order n), loc_price = nprice n, loc_order = node_addr n\<rparr>"

definition index_entry :: "ListNode \<Rightarrow> OrderId \<times> OrderLocator" where
  "index_entry n = (nid n, locator_of n)"

definition index_ok :: "ActiveOrders \<Rightarrow> ListNode list \<Rightarrow> bool" where
  "index_ok active ns \<longleftrightarrow>
     distinct (map fst active) \<and> distinct (map nid ns) \<and> set active = index_entry ` set ns"

lemma fst_index_entry [simp]: "fst (index_entry n) = nid n"
  by (simp add: index_entry_def)

lemma index_ok_keys: "index_ok active ns \<Longrightarrow> fst ` set active = nid ` set ns"
  by (simp add: index_ok_def image_image)

lemma index_ok_length:
  assumes "index_ok active ns"
  shows "length active = length ns"
proof -
  from assms have "distinct (map fst active)" "distinct (map nid ns)" by (simp_all add: index_ok_def)
  from this [THEN distinct_card] index_ok_keys [OF assms] show ?thesis by simp
qed

lemma index_ok_lookup:
  assumes "index_ok active ns" and "n \<in> set ns"
  shows "map_of active (nid n) = Some (locator_of n)"
  using assms by (auto simp: index_ok_def index_entry_def intro!: map_of_is_SomeI)

lemma index_ok_node:
  assumes "index_ok active ns" and "map_of active oid = Some loc"
  obtains n where "n \<in> set ns" "nid n = oid" "locator_of n = loc"
  using assms by (auto simp: index_ok_def index_entry_def dest!: map_of_SomeD)

lemma index_ok_swap: "index_ok active (xs @ ys) \<longleftrightarrow> index_ok active (ys @ xs)"
  by (auto simp: index_ok_def)

section \<open>The invariant\<close>

definition nodes_ok :: "OrderId set \<Rightarrow> nat \<Rightarrow> u64 \<Rightarrow> ListNode list \<Rightarrow> bool" where
  "nodes_ok seen addr arrival ns \<longleftrightarrow>
     distinct (map node_addr ns) \<and>
     (\<forall>n \<in> set ns. node_addr n < addr \<and> nid n \<in> seen \<and> (arrival \<noteq> 0 \<longrightarrow> nseq n < arrival))"

lemma nodes_ok_swap: "nodes_ok seen addr arrival (xs @ ys) \<longleftrightarrow> nodes_ok seen addr arrival (ys @ xs)"
  by (auto simp: nodes_ok_def)

text \<open>The invariant as seen from one side: \<open>own\<close> is where an order of side \<open>s\<close> rests.\<close>

definition book_ok_for :: "Side \<Rightarrow> OrderBook \<Rightarrow> bool" where
  "book_ok_for s b \<longleftrightarrow>
     side_ok (own_precedes s) s (own_levels s b) \<and>
     side_ok (opposite_precedes s) (opposite_side s) (opposite_levels s b) \<and>
     (\<forall>p \<in> fst ` set (own_levels s b). \<forall>q \<in> fst ` set (opposite_levels s b). \<not> price_crosses s q p) \<and>
     index_ok (active_orders b) (level_nodes (own_levels s b) @ level_nodes (opposite_levels s b)) \<and>
     nodes_ok (seen_order_ids b) (next_node b) (next_arrival_sequence b)
       (level_nodes (own_levels s b) @ level_nodes (opposite_levels s b)) \<and>
     OrderId 0 \<notin> seen_order_ids b"

definition book_ok :: "OrderBook \<Rightarrow> bool" where
  "book_ok b \<longleftrightarrow>
     side_ok (\<lambda>a b. a > b) Buy (bids b) \<and> side_ok (\<lambda>a b. a < b) Sell (asks b) \<and>
     (\<forall>p \<in> fst ` set (bids b). \<forall>q \<in> fst ` set (asks b). p < q) \<and>
     index_ok (active_orders b) (live_nodes b) \<and>
     nodes_ok (seen_order_ids b) (next_node b) (next_arrival_sequence b) (live_nodes b) \<and>
     OrderId 0 \<notin> seen_order_ids b"

lemma book_ok_for_iff: "is_valid_side s \<Longrightarrow> book_ok_for s b \<longleftrightarrow> book_ok b"
  unfolding is_valid_side_def book_ok_for_def book_ok_def live_nodes_def
  by (elim disjE)
     (auto simp: own_levels_def opposite_levels_def own_precedes_def opposite_precedes_def
        opposite_side_def price_crosses_def not_le
        index_ok_swap [of _ "level_nodes (asks b)"] nodes_ok_swap [of _ _ _ "level_nodes (asks b)"])

lemma book_ok_new: "book_ok new_order_book"
  by (simp add: book_ok_def new_order_book_def live_nodes_def index_ok_def nodes_ok_def)

text \<open>There are fewer than $2^{64}$ nodes, because ids are distinct and never zero.\<close>

lemma card_OrderId: "card (UNIV :: OrderId set) = 2 ^ 64" "finite (UNIV :: OrderId set)"
proof -
  have img: "(UNIV :: OrderId set) = OrderId ` UNIV"
    by (metis OrderId.exhaust_sel UNIV_eq_I rangeI)
  have "inj OrderId" by (simp add: inj_on_def)
  then show "card (UNIV :: OrderId set) = 2 ^ 64"
    by (subst img) (simp add: card_image card_word)
  show "finite (UNIV :: OrderId set)" by (subst img) simp
qed

lemma distinct_ids_length:
  assumes "distinct (map nid ns)" and "OrderId 0 \<notin> nid ` set ns"
  shows "length ns < 2 ^ 64"
proof -
  have "length ns = card (nid ` set ns)"
    using distinct_card [OF assms(1)] by simp
  also have "\<dots> < card (UNIV :: OrderId set)"
    using assms(2) card_OrderId(2) by (intro psubset_card_mono) auto
  finally show ?thesis by (simp add: card_OrderId)
qed

lemma book_nodes_bounded:
  assumes "book_ok_for s b"
  shows "length (level_nodes (opposite_levels s b)) < 2 ^ 64"
  by (rule distinct_ids_length)
     (use assms in \<open>auto simp: book_ok_for_def index_ok_def nodes_ok_def\<close>)

section \<open>The checker\<close>

lemma would_overflow_iff: "would_overflow c a \<longleftrightarrow> 2 ^ 64 \<le> qnat c + qnat a"
proof -
  have "units a \<le> u64_max" by simp
  then have "unat (u64_max - units a) = 2 ^ 64 - 1 - qnat a"
    by (simp add: unat_sub_le unat_u64_max)
  then show ?thesis
    using unat_less_u64 [of "units a"] by (auto simp: would_overflow_def word_less_nat_alt)
qed

definition node_checked :: "OrderBook \<Rightarrow> Side \<Rightarrow> Price \<Rightarrow> ListNode \<Rightarrow> bool" where
  "node_checked b s p n \<longleftrightarrow>
     order_ok s p (node_order n) \<and> map_of (active_orders b) (nid n) = Some (locator_of n) \<and>
     nid n \<in> seen_order_ids b"

lemma check_orders_Cons:
  "check_orders b s p (n # ns) agg prev (c, S) =
     (if node_checked b s p n \<and> (prev = 0 \<or> prev < nseq n) \<and> qnat agg + nrem n < 2 ^ 64 \<and> nid n \<notin> S
      then check_orders b s p ns (Quantity (units agg + units (ro_remaining (node_order n)))) (nseq n)
             (Suc c, insert (nid n) S)
      else None)"
proof -
  let ?o = "node_order n"
  have guard: "(ro_side ?o \<noteq> s \<or> ro_price ?o \<noteq> p \<or> units (ro_remaining ?o) = 0 \<or> units (ro_original ?o) = 0 \<or>
      units (ro_remaining ?o) > units (ro_original ?o) \<or> ro_seq ?o = 0 \<or>
      (prev \<noteq> 0 \<and> ro_seq ?o \<le> prev) \<or> would_overflow agg (ro_remaining ?o)) \<longleftrightarrow>
      \<not> (order_ok s p ?o \<and> (prev = 0 \<or> prev < nseq n) \<and> qnat agg + nrem n < 2 ^ 64)"
    by (cases "units (ro_original ?o) = 0") (auto simp: order_ok_def would_overflow_iff)
  show ?thesis
  proof (cases "map_of (active_orders b) (nid n)")
    case None
    then show ?thesis by (simp add: Let_def guard node_checked_def)
  next
    case (Some l)
    have loc: "(loc_side l \<noteq> s \<or> loc_price l \<noteq> p \<or> loc_order l \<noteq> node_addr n) \<longleftrightarrow> l \<noteq> locator_of n"
      if "order_ok s p ?o"
      using that by (cases l) (auto simp: locator_of_def order_ok_def)
    show ?thesis
      using Some loc unfolding check_orders.simps(2) Let_def guard by (auto simp: node_checked_def)
  qed
qed

declare check_orders.simps(2) [simp del]

lemma check_orders_iff:
  "check_orders b s p ns agg prev (c, S) = Some (agg', acc') \<longleftrightarrow>
     (\<forall>n \<in> set ns. node_checked b s p n \<and> nid n \<notin> S) \<and> distinct (map nid ns) \<and>
     sorted_wrt (\<lambda>m n. nseq m < nseq n) ns \<and> (\<forall>n \<in> set ns. prev = 0 \<or> prev < nseq n) \<and>
     qnat agg + sum_list (map nrem ns) < 2 ^ 64 \<and>
     qnat agg' = qnat agg + sum_list (map nrem ns) \<and>
     acc' = (c + length ns, S \<union> nid ` set ns)"
proof (induction ns arbitrary: agg prev c S)
  case Nil
  then show ?case
    using unat_less_u64 [of "units agg"] by (auto simp: qnat_eq_iff)
next
  case (Cons n ns)
  let ?agg = "Quantity (units agg + units (ro_remaining (node_order n)))"
  show ?case
  proof (cases "node_checked b s p n \<and> (prev = 0 \<or> prev < nseq n) \<and> qnat agg + nrem n < 2 ^ 64 \<and> nid n \<notin> S")
    case True
    then have "nseq n \<noteq> 0" by (simp add: node_checked_def order_ok_def)
    moreover have "qnat ?agg = qnat agg + nrem n" using True by (simp add: unat_add_bounded)
    ultimately have agg: "qnat ?agg = qnat agg + nrem n" and nz: "nseq n \<noteq> 0" by simp_all
    have eq: "check_orders b s p (n # ns) agg prev (c, S) =
        check_orders b s p ns ?agg (nseq n) (Suc c, insert (nid n) S)"
      using True by (simp add: check_orders_Cons)
    have ids: "(\<forall>m \<in> set ns. node_checked b s p m \<and> nid m \<notin> insert (nid n) S) \<and> distinct (map nid ns) \<longleftrightarrow>
        (\<forall>m \<in> set (n # ns). node_checked b s p m \<and> nid m \<notin> S) \<and> distinct (map nid (n # ns))"
      using True by (auto simp: image_iff)
    have seqs: "sorted_wrt (\<lambda>m n. nseq m < nseq n) ns \<and> (\<forall>m \<in> set ns. nseq n = 0 \<or> nseq n < nseq m) \<longleftrightarrow>
        sorted_wrt (\<lambda>m n. nseq m < nseq n) (n # ns) \<and> (\<forall>m \<in> set (n # ns). prev = 0 \<or> prev < nseq m)"
      using True nz by auto
    have acc: "(Suc c + length ns, insert (nid n) S \<union> nid ` set ns) = (c + length (n # ns), S \<union> nid ` set (n # ns))"
      by auto
    show ?thesis
      unfolding eq Cons agg acc using ids seqs by (simp only: list.map sum_list.Cons add.assoc) blast
  next
    case False
    then show ?thesis by (auto simp: check_orders_Cons)
  qed
qed


lemma check_orders_level:
  "check_orders b s p (lvl_orders l) (Quantity 0) 0 (c, S) = Some (lvl_total l, acc') \<and> lvl_orders l \<noteq> [] \<longleftrightarrow>
     level_ok s p l \<and> (\<forall>n \<in> set (lvl_orders l). node_checked b s p n \<and> nid n \<notin> S) \<and>
     distinct (map nid (lvl_orders l)) \<and>
     acc' = (c + length (lvl_orders l), S \<union> nid ` set (lvl_orders l))"
  using unat_less_u64 [of "units (lvl_total l)"]
  by (auto simp: check_orders_iff level_ok_def node_checked_def)

definition ordered_after :: "Side \<Rightarrow> Price option \<Rightarrow> Price \<Rightarrow> bool" where
  "ordered_after s prev p \<longleftrightarrow> (case prev of None \<Rightarrow> True | Some pp \<Rightarrow> own_precedes s pp p)"

lemma check_side_Cons:
  assumes "is_valid_side s"
  shows "check_side b s prev ((p, l) # levels) (c, S) =
    (if ordered_after s prev p \<and> level_ok s p l \<and>
        (\<forall>n \<in> set (lvl_orders l). node_checked b s p n \<and> nid n \<notin> S) \<and> distinct (map nid (lvl_orders l))
     then check_side b s (Some p) levels (c + length (lvl_orders l), S \<union> nid ` set (lvl_orders l))
     else None)"
proof -
  have order: "(case prev of None \<Rightarrow> False
      | Some pp \<Rightarrow> (s = Buy \<and> pp \<le> p) \<or> (s = Sell \<and> pp \<ge> p)) \<longleftrightarrow> \<not> ordered_after s prev p"
    using assms
    by (auto simp: ordered_after_def own_precedes_def is_valid_side_def not_less split: option.splits)
  let ?C = "check_orders b s p (lvl_orders l) (Quantity 0) 0 (c, S)"
  let ?acc = "(c + length (lvl_orders l), S \<union> nid ` set (lvl_orders l))"
  show ?thesis
  proof (cases "lvl_orders l \<noteq> [] \<and> ?C = Some (lvl_total l, ?acc)")
    case True
    with check_orders_level [of b s p l c S ?acc] show ?thesis
      unfolding check_side.simps(2) order by simp
  next
    case False
    then have no: "\<not> (?C = Some (lvl_total l, acc) \<and> lvl_orders l \<noteq> [])" for acc
      using check_orders_level [of b s p l c S acc] check_orders_level [of b s p l c S ?acc] by auto
    then have "check_side b s prev ((p, l) # levels) (c, S) = None"
      unfolding check_side.simps(2) order using no by (cases ?C) fastforce+
    with False check_orders_level [of b s p l c S ?acc] show ?thesis by auto
  qed
qed

declare check_side.simps(2) [simp del]

lemma fresh_ids_iff:
  "(\<forall>n \<in> set ms. P n \<and> nid n \<notin> nid ` set ns) \<longleftrightarrow>
     (\<forall>n \<in> set ms. P n) \<and> nid ` set ns \<inter> nid ` set ms = {}"
  by (simp add: disjoint_iff image_iff) metis

lemma check_side_iff:
  assumes "is_valid_side s"
  shows "check_side b s prev levels (c, S) = Some acc' \<longleftrightarrow>
    side_ok (own_precedes s) s levels \<and> (\<forall>p \<in> fst ` set levels. ordered_after s prev p) \<and>
    (\<forall>n \<in> set (level_nodes levels). node_checked b s (nprice n) n \<and> nid n \<notin> S) \<and>
    distinct (map nid (level_nodes levels)) \<and>
    acc' = (c + length (level_nodes levels), S \<union> nid ` set (level_nodes levels))"
proof (induction levels arbitrary: prev c S)
  case Nil
  then show ?case by auto
next
  case (Cons pl levels)
  obtain p l where pl: "pl = (p, l)" by (cases pl)
  let ?ns = "lvl_orders l" and ?ms = "level_nodes levels"
  have price: "(\<forall>n \<in> set ?ns. node_checked b s p n \<and> nid n \<notin> S) \<longleftrightarrow>
      (\<forall>n \<in> set ?ns. node_checked b s (nprice n) n \<and> nid n \<notin> S)" if "level_ok s p l"
    using level_okD(2) [OF that] by auto
  have order: "ordered_after s prev p \<and> (\<forall>q \<in> fst ` set levels. ordered_after s (Some p) q) \<longleftrightarrow>
      (\<forall>q \<in> fst ` set (pl # levels). ordered_after s prev q) \<and> (\<forall>q \<in> fst ` set levels. own_precedes s p q)"
    using pl by (cases prev) (auto simp: ordered_after_def dest: own.precedes_trans)
  have ids: "(\<forall>n \<in> set ?ms. node_checked b s (nprice n) n \<and> nid n \<notin> S \<union> nid ` set ?ns) \<longleftrightarrow>
      (\<forall>n \<in> set ?ms. node_checked b s (nprice n) n \<and> nid n \<notin> S) \<and> nid ` set ?ns \<inter> nid ` set ?ms = {}"
    using fresh_ids_iff [of ?ms "\<lambda>n. node_checked b s (nprice n) n \<and> nid n \<notin> S" ?ns] by auto
  have acc: "(c + length ?ns + length ?ms, S \<union> nid ` set ?ns \<union> nid ` set ?ms) =
      (c + length (level_nodes (pl # levels)), S \<union> nid ` set (level_nodes (pl # levels)))"
    using pl by (auto simp: image_Un)
  have "check_side b s prev (pl # levels) (c, S) = Some acc' \<longleftrightarrow>
      (ordered_after s prev p \<and> (\<forall>q \<in> fst ` set levels. ordered_after s (Some p) q)) \<and>
      (level_ok s p l \<and> (\<forall>n \<in> set ?ns. node_checked b s p n \<and> nid n \<notin> S)) \<and>
      side_ok (own_precedes s) s levels \<and>
      (\<forall>n \<in> set ?ms. node_checked b s (nprice n) n \<and> nid n \<notin> S \<union> nid ` set ?ns) \<and>
      distinct (map nid ?ns) \<and> distinct (map nid ?ms) \<and>
      acc' = (c + length ?ns + length ?ms, S \<union> nid ` set ?ns \<union> nid ` set ?ms)"
    using Cons [of "Some p" "c + length ?ns" "S \<union> nid ` set ?ns"]
    unfolding pl check_side_Cons [OF assms] by auto
  also have "\<dots> \<longleftrightarrow> (\<forall>q \<in> fst ` set (pl # levels). ordered_after s prev q) \<and>
      side_ok (own_precedes s) s (pl # levels) \<and>
      (\<forall>n \<in> set (level_nodes (pl # levels)). node_checked b s (nprice n) n \<and> nid n \<notin> S) \<and>
      distinct (map nid (level_nodes (pl # levels))) \<and>
      acc' = (c + length (level_nodes (pl # levels)), S \<union> nid ` set (level_nodes (pl # levels)))"
    unfolding order ids acc using price by (auto simp: pl side_ok_Cons ball_Un)
  finally show ?case by blast
qed

lemma own_precedes_simps [simp]: "own_precedes Buy = (\<lambda>a b. a > b)" "own_precedes Sell = (\<lambda>a b. a < b)"
  by (simp_all add: own_precedes_def)

text \<open>Both best prices decide for all levels.\<close>

lemma best_prices_decide:
  assumes "side_ok (\<lambda>a b. a > b) Buy bs" and "side_ok (\<lambda>a b. a < b) Sell as"
  shows "\<not> (bs \<noteq> [] \<and> as \<noteq> [] \<and> fst (hd bs) \<ge> fst (hd as)) \<longleftrightarrow>
           (\<forall>p \<in> fst ` set bs. \<forall>q \<in> fst ` set as. p < q)"
proof (cases "bs = [] \<or> as = []")
  case False
  then obtain b bl bs' a al as' where eq: "bs = (b, bl) # bs'" "as = (a, al) # as'"
    by (metis list.exhaust surj_pair)
  with assms have "\<forall>p \<in> fst ` set bs'. p < b" "\<forall>q \<in> fst ` set as'. a < q"
    by (simp_all add: side_ok_Cons)
  moreover have "p < q" if "b < a" "p < b" "a < q" for p q :: Price using that by order
  ultimately show ?thesis using eq by (force simp: not_le dest: less_trans)
qed auto

lemma index_ok_count:
  assumes "distinct (map fst active)" and "distinct (map nid ns)"
  shows "(\<forall>n \<in> set ns. map_of active (nid n) = Some (locator_of n)) \<and> length ns = length active \<longleftrightarrow>
         index_ok active ns"
proof
  assume *: "(\<forall>n \<in> set ns. map_of active (nid n) = Some (locator_of n)) \<and> length ns = length active"
  then have sub: "index_entry ` set ns \<subseteq> set active"
    by (auto simp: index_entry_def dest: map_of_SomeD)
  have "inj_on index_entry (set ns)"
    using assms(2) by (auto simp: index_entry_def distinct_map inj_on_def)
  then have "card (index_entry ` set ns) = length ns"
    using assms(2) by (simp add: card_image distinct_card distinct_map)
  moreover have "card (set active) = length active"
    using assms(1) by (simp add: distinct_card distinct_map)
  ultimately have "index_entry ` set ns = set active"
    using sub * by (intro card_subset_eq) simp_all
  with assms show "index_ok active ns" by (simp add: index_ok_def)
next
  assume "index_ok active ns"
  then show "(\<forall>n \<in> set ns. map_of active (nid n) = Some (locator_of n)) \<and> length ns = length active"
    using index_ok_lookup index_ok_length by metis
qed

lemma invariants_hold_iff:
  assumes "distinct (map fst (active_orders b))"
  shows "invariants_hold b \<longleftrightarrow>
    side_ok (\<lambda>a b. a > b) Buy (bids b) \<and> side_ok (\<lambda>a b. a < b) Sell (asks b) \<and>
    (\<forall>p \<in> fst ` set (bids b). \<forall>q \<in> fst ` set (asks b). p < q) \<and>
    index_ok (active_orders b) (live_nodes b) \<and> nid ` set (live_nodes b) \<subseteq> seen_order_ids b"
proof -
  let ?B = "level_nodes (bids b)" and ?A = "level_nodes (asks b)"
  have valid: "is_valid_side Buy" "is_valid_side Sell" by (simp_all add: is_valid_side_def)
  have checked: "(\<forall>n \<in> set (level_nodes ls). node_checked b s (nprice n) n) \<longleftrightarrow>
      (\<forall>n \<in> set (level_nodes ls). map_of (active_orders b) (nid n) = Some (locator_of n)) \<and>
      nid ` set (level_nodes ls) \<subseteq> seen_order_ids b"
    if "side_ok pr s ls" for pr s ls
    using side_ok_node(1) [OF that] by (auto simp: node_checked_def)
  have "(case check_side b Buy None (bids b) (0, {}) of None \<Rightarrow> False
      | Some acc \<Rightarrow> (case check_side b Sell None (asks b) acc of None \<Rightarrow> False
           | Some (counted, in_book) \<Rightarrow> counted = length (active_orders b))) \<longleftrightarrow>
      (\<exists>acc acc'. check_side b Buy None (bids b) (0, {}) = Some acc \<and>
         check_side b Sell None (asks b) acc = Some acc' \<and> fst acc' = length (active_orders b))"
    by (auto split: option.splits)
  also have "\<dots> \<longleftrightarrow> side_ok (\<lambda>a b. a > b) Buy (bids b) \<and> side_ok (\<lambda>a b. a < b) Sell (asks b) \<and>
      (\<forall>n \<in> set ?B. node_checked b Buy (nprice n) n) \<and> (\<forall>n \<in> set ?A. node_checked b Sell (nprice n) n) \<and>
      distinct (map nid (live_nodes b)) \<and> length (live_nodes b) = length (active_orders b)"
    unfolding check_side_iff [OF valid(1)]
    by (simp add: check_side_iff [OF valid(2)] live_nodes_def ordered_after_def fresh_ids_iff) auto
  also have "\<dots> \<longleftrightarrow> side_ok (\<lambda>a b. a > b) Buy (bids b) \<and> side_ok (\<lambda>a b. a < b) Sell (asks b) \<and>
      (\<forall>n \<in> set (live_nodes b). map_of (active_orders b) (nid n) = Some (locator_of n)) \<and>
      nid ` set (live_nodes b) \<subseteq> seen_order_ids b \<and>
      distinct (map nid (live_nodes b)) \<and> length (live_nodes b) = length (active_orders b)"
    using checked [of "\<lambda>a b. a > b" Buy "bids b"] checked [of "\<lambda>a b. a < b" Sell "asks b"]
    by (simp only: live_nodes_def set_append image_Un ball_Un Un_subset_iff) blast
  also have "\<dots> \<longleftrightarrow> side_ok (\<lambda>a b. a > b) Buy (bids b) \<and> side_ok (\<lambda>a b. a < b) Sell (asks b) \<and>
      nid ` set (live_nodes b) \<subseteq> seen_order_ids b \<and> index_ok (active_orders b) (live_nodes b)"
    using index_ok_count [OF assms, of "live_nodes b"] by (auto simp: index_ok_def)
  finally show ?thesis
    unfolding invariants_hold_def using best_prices_decide [of "bids b" "asks b"] by blast
qed

lemma book_ok_invariants_hold: "book_ok b \<Longrightarrow> invariants_hold b"
  by (subst invariants_hold_iff) (auto simp: book_ok_def index_ok_def nodes_ok_def)

end
