(* ===== verification/Order_Book_Spec.thy ===== *)
theory Order_Book_Spec
  imports Order_Book_Invariant
begin

text \<open>
  What the order book promises, without price levels, list nodes to splice or an index to keep in
  step: a \<open>FlatBook\<close> is the two sides as lists in price-time priority, the ids ever accepted and
  the two counters. \<open>spec_submit\<close>, \<open>spec_cancel\<close> and the queries are the reference meaning of the
  operations; \<open>flat\<close> abstracts the book of the implementation to it.
\<close>

section \<open>The abstract book\<close>

record FlatBook =
  fb_bids :: "ListNode list"
  fb_asks :: "ListNode list"
  fb_seen :: "OrderId set"
  fb_arrival :: u64
  fb_trade_id :: u64
  fb_next_node :: nat

definition flat :: "OrderBook \<Rightarrow> FlatBook" where
  "flat b = \<lparr>fb_bids = level_nodes (bids b), fb_asks = level_nodes (asks b),
             fb_seen = seen_order_ids b, fb_arrival = next_arrival_sequence b,
             fb_trade_id = next_trade_id b, fb_next_node = next_node b\<rparr>"

definition opposite_nodes :: "Side \<Rightarrow> FlatBook \<Rightarrow> ListNode list" where
  "opposite_nodes s f = (if s = Buy then fb_asks f else fb_bids f)"

definition own_nodes :: "Side \<Rightarrow> FlatBook \<Rightarrow> ListNode list" where
  "own_nodes s f = (if s = Buy then fb_bids f else fb_asks f)"

definition set_nodes :: "Side \<Rightarrow> ListNode list \<Rightarrow> ListNode list \<Rightarrow> FlatBook \<Rightarrow> FlatBook" where
  "set_nodes s own opp f =
     (if s = Buy then f\<lparr>fb_bids := own, fb_asks := opp\<rparr> else f\<lparr>fb_asks := own, fb_bids := opp\<rparr>)"

text \<open>An order joins the queue of its price: after everything at least as good, before the rest.\<close>

definition place :: "(Price \<Rightarrow> Price \<Rightarrow> bool) \<Rightarrow> ListNode \<Rightarrow> ListNode list \<Rightarrow> ListNode list" where
  "place precedes x ns =
     takeWhile (\<lambda>n. \<not> precedes (nprice x) (nprice n)) ns @
     x # dropWhile (\<lambda>n. \<not> precedes (nprice x) (nprice n)) ns"

definition resting_node :: "nat \<Rightarrow> NewLimitOrder \<Rightarrow> Quantity \<Rightarrow> u64 \<Rightarrow> ListNode" where
  "resting_node addr incoming resting arrival =
     ListNode addr \<lparr>ro_id = nlo_id incoming, ro_side = nlo_side incoming, ro_price = nlo_price incoming,
                    ro_original = nlo_quantity incoming, ro_remaining = resting, ro_seq = arrival\<rparr>"

section \<open>Submission\<close>

definition makers :: "FlatBook \<Rightarrow> NewLimitOrder \<Rightarrow> ListNode list" where
  "makers f order =
     crossing (price_crosses (nlo_side order)) (nlo_price order) (opposite_nodes (nlo_side order) f)"

definition fills :: "FlatBook \<Rightarrow> NewLimitOrder \<Rightarrow> (ListNode \<times> nat) list" where
  "fills f order = sweep_fills (qnat (nlo_quantity order)) (makers f order)"

definition unfilled :: "FlatBook \<Rightarrow> NewLimitOrder \<Rightarrow> nat" where
  "unfilled f order = sweep_rest (qnat (nlo_quantity order)) (makers f order)"

definition resting_at :: "Price \<Rightarrow> ListNode list \<Rightarrow> nat" where
  "resting_at p ns = sum_list (map nrem (filter (\<lambda>n. nprice n = p) ns))"

definition spec_rejection :: "FlatBook \<Rightarrow> NewLimitOrder \<Rightarrow> RejectionReason option" where
  "spec_rejection f order =
     (if order_id_value (nlo_id order) = 0 then Some InvalidOrderId
      else if \<not> is_valid_side (nlo_side order) then Some InvalidSide
      else if ticks (nlo_price order) = 0 then Some InvalidPrice
      else if units (nlo_quantity order) = 0 then Some InvalidQuantity
      else if nlo_id order \<in> fb_seen f then Some DuplicateOrderId
      else if fills f order \<noteq> [] \<and>
              (fb_trade_id f = 0 \<or> 2 ^ 64 < unat (fb_trade_id f) + length (fills f order))
      then Some TradeIdExhausted
      else if 0 < unfilled f order \<and> fb_arrival f = 0 then Some SequenceExhausted
      else if 0 < unfilled f order \<and>
              2 ^ 64 \<le> resting_at (nlo_price order) (own_nodes (nlo_side order) f) + unfilled f order
      then Some QuantityOverflow
      else None)"

definition spec_execute :: "FlatBook \<Rightarrow> NewLimitOrder \<Rightarrow> FlatBook \<times> SubmitResult" where
  "spec_execute f order =
     (let s = nlo_side order;
          rest = Quantity (of_nat (unfilled f order));
          opp = sweep_left (qnat (nlo_quantity order)) (makers f order) @
                not_crossing (price_crosses s) (nlo_price order) (opposite_nodes s f);
          own = (if unfilled f order = 0 then own_nodes s f
                 else place (own_precedes s) (resting_node (fb_next_node f) order rest (fb_arrival f))
                        (own_nodes s f));
          f' = (set_nodes s own opp f)
                 \<lparr>fb_seen := insert (nlo_id order) (fb_seen f),
                  fb_trade_id := fb_trade_id f + of_nat (length (fills f order)),
                  fb_arrival := (if unfilled f order = 0 then fb_arrival f else fb_arrival f + 1),
                  fb_next_node := (if unfilled f order = 0 then fb_next_node f else Suc (fb_next_node f))\<rparr>
      in (f', \<lparr>sr_status = Accepted, sr_reason = None,
               sr_executed = Quantity (units (nlo_quantity order) - units rest), sr_resting = rest,
               sr_trades = trades_of order (fb_trade_id f) (fills f order)\<rparr>))"

definition spec_submit :: "FlatBook \<Rightarrow> NewLimitOrder \<Rightarrow> FlatBook \<times> SubmitResult" where
  "spec_submit f order =
     (case spec_rejection f order of
        Some reason \<Rightarrow> (f, rejected reason)
      | None \<Rightarrow> spec_execute f order)"

section \<open>Cancellation and lookup\<close>

definition flat_nodes :: "FlatBook \<Rightarrow> ListNode list" where
  "flat_nodes f = fb_bids f @ fb_asks f"

definition spec_find :: "FlatBook \<Rightarrow> OrderId \<Rightarrow> RestingOrder option" where
  "spec_find f oid = map_option node_order (find (\<lambda>n. nid n = oid) (flat_nodes f))"

definition spec_cancel :: "FlatBook \<Rightarrow> OrderId \<Rightarrow> FlatBook \<times> CancelResult" where
  "spec_cancel f oid =
     (case spec_find f oid of
        None \<Rightarrow> (f, \<lparr>cr_status = NotFound, cr_cancelled = Quantity 0\<rparr>)
      | Some r \<Rightarrow> (f\<lparr>fb_bids := filter (\<lambda>n. nid n \<noteq> oid) (fb_bids f),
                       fb_asks := filter (\<lambda>n. nid n \<noteq> oid) (fb_asks f)\<rparr>,
                    \<lparr>cr_status = Cancelled, cr_cancelled = ro_remaining r\<rparr>))"

section \<open>Placing an order\<close>

lemma place_split:
  assumes "\<forall>n \<in> set xs. \<not> precedes (nprice x) (nprice n)" and "\<forall>n \<in> set ys. precedes (nprice x) (nprice n)"
  shows "place precedes x (xs @ ys) = xs @ x # ys"
proof -
  have "takeWhile (\<lambda>n. \<not> precedes (nprice x) (nprice n)) (xs @ ys) = xs"
    using assms by (cases ys) auto
  moreover have "dropWhile (\<lambda>n. \<not> precedes (nprice x) (nprice n)) (xs @ ys) = ys"
    using assms by (cases ys) auto
  ultimately show ?thesis by (simp add: place_def)
qed

lemma set_place: "set (place precedes x ns) = insert x (set ns)"
  by (metis (no_types, lifting) Un_insert_right list.simps(15) place_def set_append takeWhile_dropWhile_id)

lemma place_cong_map: "\<exists>xs ys. ns = xs @ ys \<and> place precedes x ns = xs @ x # ys"
  by (metis place_def takeWhile_dropWhile_id)

text \<open>The price levels of a well-formed side are the prices of its orders.\<close>

lemma side_ok_prices: "side_ok precedes s levels \<Longrightarrow> fst ` set levels = nprice ` set (level_nodes levels)"
proof (induction levels)
  case (Cons pl levels)
  obtain p l where pl: "pl = (p, l)" by (cases pl)
  with Cons.prems have lok: "level_ok s p l" and rok: "side_ok precedes s levels"
    by (simp_all add: side_ok_Cons)
  have "nprice ` set (lvl_orders l) = {p}"
    using level_okD(2) [OF lok] lok by (cases "lvl_orders l") (auto simp: level_ok_def)
  with Cons.IH [OF rok] pl show ?case by (simp add: image_Un)
qed simp

lemma resting_at_append [simp]: "resting_at p (xs @ ys) = resting_at p xs + resting_at p ys"
  by (simp add: resting_at_def)

lemma resting_at_absent: "p \<notin> nprice ` set ns \<Longrightarrow> resting_at p ns = 0"
  by (auto simp: resting_at_def filter_empty_conv)

lemma resting_at_level: "level_ok s p l \<Longrightarrow> resting_at p (lvl_orders l) = qnat (lvl_total l)"
proof -
  assume ok: "level_ok s p l"
  then have "filter (\<lambda>n. nprice n = p) (lvl_orders l) = lvl_orders l"
    using level_okD(2) [OF ok] by (simp add: filter_True)
  with ok show ?thesis by (simp add: resting_at_def level_ok_def)
qed

lemma side_ok_part: "side_ok precedes s (xs @ ys) \<Longrightarrow> side_ok precedes s xs \<and> side_ok precedes s ys"
  by (simp add: side_ok_append)

lemma level_total_resting:
  assumes "side_ok (own_precedes t) s levels" and "map_of levels p = Some l"
  shows "resting_at p (level_nodes levels) = qnat (lvl_total l)"
proof -
  obtain xs ys where L: "levels = xs @ (p, l) # ys" "p \<notin> fst ` set xs" "p \<notin> fst ` set ys"
    by (rule own.side_split [OF assms])
  from assms(1) have "side_ok (own_precedes t) s xs" "side_ok (own_precedes t) s ys" "level_ok s p l"
    by (simp_all add: L(1) side_ok_simps)
  with L show ?thesis
    by (simp add: side_ok_prices resting_at_absent resting_at_level)
qed

lemma overflows_at_level_iff:
  assumes "side_ok (own_precedes t) s levels"
  shows "overflows_at_level levels p r \<longleftrightarrow>
    2 ^ 64 \<le> resting_at p (level_nodes levels) + qnat r"
proof (cases "map_of levels p")
  case None
  then have "p \<notin> nprice ` set (level_nodes levels)"
    using side_ok_prices [OF assms] by (simp add: map_of_eq_None_iff)
  then show ?thesis
    using None unat_less_u64 [of "units r"] by (simp add: overflows_at_level_def resting_at_absent)
next
  case (Some l)
  with level_total_resting [OF assms Some] show ?thesis
    by (simp add: overflows_at_level_def would_overflow_iff)
qed

section \<open>The two maps of a book\<close>

lemma levels_update [simp]:
  "own_levels s (b\<lparr>active_orders := a\<rparr>) = own_levels s b"
  "own_levels s (b\<lparr>seen_order_ids := i\<rparr>) = own_levels s b"
  "own_levels s (b\<lparr>next_arrival_sequence := t\<rparr>) = own_levels s b"
  "own_levels s (b\<lparr>next_trade_id := t\<rparr>) = own_levels s b"
  "own_levels s (b\<lparr>next_node := k\<rparr>) = own_levels s b"
  "opposite_levels s (b\<lparr>active_orders := a\<rparr>) = opposite_levels s b"
  "opposite_levels s (b\<lparr>seen_order_ids := i\<rparr>) = opposite_levels s b"
  "opposite_levels s (b\<lparr>next_arrival_sequence := t\<rparr>) = opposite_levels s b"
  "opposite_levels s (b\<lparr>next_trade_id := t\<rparr>) = opposite_levels s b"
  "opposite_levels s (b\<lparr>next_node := k\<rparr>) = opposite_levels s b"
  by (simp_all add: own_levels_def opposite_levels_def)

lemma set_levels [simp]:
  "own_levels s (set_own_levels s l b) = l" "own_levels s (set_opposite_levels s l b) = own_levels s b"
  "opposite_levels s (set_own_levels s l b) = opposite_levels s b" "opposite_levels s (set_opposite_levels s l b) = l"
  by (simp_all add: own_levels_def opposite_levels_def set_own_levels_def set_opposite_levels_def)

lemma set_levels_fields [simp]:
  "active_orders (set_own_levels s l b) = active_orders b" "active_orders (set_opposite_levels s l b) = active_orders b"
  "seen_order_ids (set_own_levels s l b) = seen_order_ids b" "seen_order_ids (set_opposite_levels s l b) = seen_order_ids b"
  "next_arrival_sequence (set_own_levels s l b) = next_arrival_sequence b"
  "next_arrival_sequence (set_opposite_levels s l b) = next_arrival_sequence b"
  "next_trade_id (set_own_levels s l b) = next_trade_id b" "next_trade_id (set_opposite_levels s l b) = next_trade_id b"
  "next_node (set_own_levels s l b) = next_node b" "next_node (set_opposite_levels s l b) = next_node b"
  by (simp_all add: set_own_levels_def set_opposite_levels_def)

lemma flat_nodes_of [simp]:
  "opposite_nodes s (flat b) = level_nodes (opposite_levels s b)"
  "own_nodes s (flat b) = level_nodes (own_levels s b)"
  "fb_seen (flat b) = seen_order_ids b" "fb_arrival (flat b) = next_arrival_sequence b"
  "fb_trade_id (flat b) = next_trade_id b" "fb_next_node (flat b) = next_node b"
  by (simp_all add: flat_def opposite_nodes_def own_nodes_def opposite_levels_def own_levels_def)

text \<open>Two abstract books are equal when one side's view of them is.\<close>

lemma flat_eqI:
  assumes "level_nodes (own_levels s b) = own_nodes s f" "level_nodes (opposite_levels s b) = opposite_nodes s f"
    and "fb_seen f = seen_order_ids b" "fb_arrival f = next_arrival_sequence b"
      "fb_trade_id f = next_trade_id b" "fb_next_node f = next_node b"
  shows "flat b = f"
proof (cases f)
  case (fields bs as seen arr tid nn)
  with assms show ?thesis
    by (auto simp: flat_def own_levels_def opposite_levels_def own_nodes_def opposite_nodes_def split: if_splits)
qed

lemma set_nodes_simps [simp]:
  "own_nodes s (set_nodes s own opp f) = own" "opposite_nodes s (set_nodes s own opp f) = opp"
  "own_nodes s (f\<lparr>fb_seen := i\<rparr>) = own_nodes s f" "opposite_nodes s (f\<lparr>fb_seen := i\<rparr>) = opposite_nodes s f"
  "own_nodes s (f\<lparr>fb_arrival := t\<rparr>) = own_nodes s f" "opposite_nodes s (f\<lparr>fb_arrival := t\<rparr>) = opposite_nodes s f"
  "own_nodes s (f\<lparr>fb_trade_id := t\<rparr>) = own_nodes s f" "opposite_nodes s (f\<lparr>fb_trade_id := t\<rparr>) = opposite_nodes s f"
  "own_nodes s (f\<lparr>fb_next_node := k\<rparr>) = own_nodes s f" "opposite_nodes s (f\<lparr>fb_next_node := k\<rparr>) = opposite_nodes s f"
  by (simp_all add: own_nodes_def opposite_nodes_def set_nodes_def)

end
