(* ===== verification/Order_Book_Submit.thy ===== *)
theory Order_Book_Submit
  imports Order_Book_Spec
begin

text \<open>
  \<open>OrderBook::submit\<close> against its specification: what \<open>insert_resting_order\<close> does with and without
  allocation failures, what the matching phase leaves of the invariant, and the refinement
  \<open>flat (submit b) = spec_submit (flat b)\<close>.
\<close>

section \<open>Resting an order\<close>

lemma resting_node_simps [simp]:
  "node_addr (resting_node a i r t) = a" "nid (resting_node a i r t) = nlo_id i"
  "nprice (resting_node a i r t) = nlo_price i" "nseq (resting_node a i r t) = t"
  "nrem (resting_node a i r t) = qnat r" "ro_side (node_order (resting_node a i r t)) = nlo_side i"
  by (simp_all add: resting_node_def)

lemma locator_of_resting_node:
  "locator_of (resting_node a i r t) = \<lparr>loc_side = nlo_side i, loc_price = nlo_price i, loc_order = a\<rparr>"
  by (simp add: locator_of_def)

lemma order_ok_resting:
  assumes "units r \<noteq> 0" "units r \<le> units (nlo_quantity i)" "t \<noteq> 0"
  shows "order_ok (nlo_side i) (nlo_price i) (node_order (resting_node a i r t))"
  using assms by (simp add: order_ok_def resting_node_def)

lemma level_ok_push_back:
  assumes "level_ok s p l" and "order_ok s p (node_order n)" and "\<forall>m \<in> set (lvl_orders l). nseq m < nseq n"
    and "qnat (lvl_total l) + nrem n < 2 ^ 64"
  shows "level_ok s p (l\<lparr>lvl_orders := lvl_orders l @ [n],
           lvl_total := Quantity (units (lvl_total l) + units (ro_remaining (node_order n)))\<rparr>)"
proof -
  have "qnat (Quantity (units (lvl_total l) + units (ro_remaining (node_order n)))) =
      qnat (lvl_total l) + nrem n"
    using assms(4) by (simp add: unat_add_bounded)
  with assms(1-3) show ?thesis by (auto simp: level_ok_def sorted_wrt_append)
qed

lemma level_ok_single:
  assumes "order_ok s p (node_order n)"
  shows "level_ok s p \<lparr>lvl_orders = [n], lvl_total = ro_remaining (node_order n)\<rparr>"
  using assms by (simp add: level_ok_def)

text \<open>The map after \<open>try_emplace\<close>, split at the level of the order's price.\<close>

lemma try_emplace_level:
  assumes ok: "side_ok (own_precedes t) s levels"
  obtains xs l ys fresh where
    "try_emplace (own_precedes t) p empty_level levels = (xs @ (p, l) # ys, fresh)"
    "levels = (if fresh then xs @ ys else xs @ (p, l) # ys)"
    "l = (if fresh then empty_level else l)" "map_of levels p = (if fresh then None else Some l)"
    "\<forall>q \<in> fst ` set xs. own_precedes t q p" "\<forall>q \<in> fst ` set ys. own_precedes t p q"
proof (cases "map_of levels p")
  case None
  then have "p \<notin> fst ` set levels" by (simp add: map_of_eq_None_iff)
  moreover have "sorted_wrt (own_precedes t) (map fst levels)" using ok by (simp add: side_ok_def)
  ultimately obtain xs ys where *: "levels = xs @ ys"
    "try_emplace (own_precedes t) p empty_level levels = (xs @ (p, empty_level) # ys, True)"
    "\<forall>q \<in> fst ` set xs. own_precedes t q p" "\<forall>q \<in> fst ` set ys. own_precedes t p q"
    using own.try_emplace_absent [of t levels p empty_level] by blast
  with None show thesis by (intro that [of xs empty_level ys True]) simp_all
next
  case (Some l)
  obtain xs ys where L: "levels = xs @ (p, l) # ys" by (rule own.side_split [OF ok Some])
  from ok have "try_emplace (own_precedes t) p empty_level levels = (levels, False)"
    by (intro own.try_emplace_present) (auto simp: side_ok_def L)
  moreover from ok have "\<forall>q \<in> fst ` set xs. own_precedes t q p" "\<forall>q \<in> fst ` set ys. own_precedes t p q"
    by (simp_all add: L side_ok_simps)
  ultimately show thesis using Some L by (intro that [of xs l ys False]) simp_all
qed

lemma precedes_fresh:
  assumes "\<forall>q \<in> fst ` set xs. own_precedes t q p" "\<forall>q \<in> fst ` set ys. own_precedes t p q"
  shows "p \<notin> fst ` set xs" "p \<notin> fst ` set ys"
  using assms own.precedes_irrefl by blast+

text \<open>A failed allocation undoes everything: levels and index are as before.\<close>

lemma insert_resting_throws:
  assumes ok: "side_ok (own_precedes t) s levels"
    and fault: "faults LevelEmplace \<or> faults OrderPushBack \<or> faults ActiveEmplace"
  shows "\<exists>addr' \<ge> addr. insert_resting_order faults (own_precedes t) levels active addr incoming resting arrival =
           ((levels, active, addr'), Throws)"
proof (cases "faults LevelEmplace")
  case True
  then show ?thesis by (auto simp: insert_resting_order_def)
next
  case False
  let ?p = "nlo_price incoming"
  obtain xs l ys fresh where te:
    "try_emplace (own_precedes t) ?p empty_level levels = (xs @ (?p, l) # ys, fresh)"
    "levels = (if fresh then xs @ ys else xs @ (?p, l) # ys)"
    and o: "\<forall>q \<in> fst ` set xs. own_precedes t q ?p" "\<forall>q \<in> fst ` set ys. own_precedes t ?p q"
    by (rule try_emplace_level [OF ok])
  show ?thesis
    using False fault te precedes_fresh [OF o]
    by (cases fresh) (auto simp: insert_resting_order_def Let_def)
qed

text \<open>Without one, the order is placed behind every order of its price.\<close>

lemma place_at_level:
  assumes "side_ok (own_precedes t) s xs" "side_ok (own_precedes t) s ys"
    and o: "\<forall>q \<in> fst ` set xs. own_precedes t q p" "\<forall>q \<in> fst ` set ys. own_precedes t p q"
    and l: "\<forall>n \<in> set (lvl_orders l). nprice n = p" and "nprice x = p"
  shows "place (own_precedes t) x (level_nodes xs @ lvl_orders l @ level_nodes ys) =
           level_nodes xs @ lvl_orders l @ x # level_nodes ys"
proof -
  have before: "\<forall>n \<in> set (level_nodes xs @ lvl_orders l). \<not> own_precedes t (nprice x) (nprice n)"
  proof
    fix n assume "n \<in> set (level_nodes xs @ lvl_orders l)"
    then have "own_precedes t (nprice n) p \<or> nprice n = p"
      using side_ok_node(2) [OF assms(1), of n] o(1) l by force
    then show "\<not> own_precedes t (nprice x) (nprice n)"
      using assms(6) own.precedes_irrefl own.precedes_trans by metis
  qed
  moreover have "\<forall>n \<in> set (level_nodes ys). own_precedes t (nprice x) (nprice n)"
    using side_ok_node(2) [OF assms(2)] o(2) assms(6) by metis
  ultimately show ?thesis using place_split [of "level_nodes xs @ lvl_orders l"] by simp
qed

lemma level_ok_inserted:
  assumes "order_ok s p (node_order n)"
    and "fresh \<Longrightarrow> l = empty_level" "\<not> fresh \<Longrightarrow> level_ok s p l"
    and "\<forall>m \<in> set (lvl_orders l). nseq m < nseq n" "\<not> fresh \<Longrightarrow> \<not> would_overflow (lvl_total l) (ro_remaining (node_order n))"
  shows "level_ok s p (l\<lparr>lvl_orders := lvl_orders l @ [n],
           lvl_total := Quantity (units (lvl_total l) + units (ro_remaining (node_order n)))\<rparr>)"
  using assms level_ok_single [OF assms(1)]
  by (cases fresh) (auto simp: empty_level_def would_overflow_iff intro: level_ok_push_back)

lemma insert_resting_done:
  fixes incoming resting arrival addr
  defines "node \<equiv> resting_node addr incoming resting arrival"
  assumes ok: "side_ok (own_precedes t) (nlo_side incoming) levels"
    and nf: "\<not> faults LevelEmplace" "\<not> faults OrderPushBack" "\<not> faults ActiveEmplace"
    and r: "units resting \<noteq> 0" "units resting \<le> units (nlo_quantity incoming)" and arr: "arrival \<noteq> 0"
    and seqs: "\<forall>n \<in> set (level_nodes levels). nseq n < arrival"
    and room: "\<not> overflows_at_level levels (nlo_price incoming) resting"
    and new: "nlo_id incoming \<notin> fst ` set active"
  shows "\<exists>levels'. insert_resting_order faults (own_precedes t) levels active addr incoming resting arrival =
             ((levels', index_entry node # active, Suc addr), Done ()) \<and>
           side_ok (own_precedes t) (nlo_side incoming) levels' \<and>
           level_nodes levels' = place (own_precedes t) node (level_nodes levels)"
proof -
  let ?p = "nlo_price incoming" and ?s = "nlo_side incoming"
  obtain xs l ys fresh where te:
    "try_emplace (own_precedes t) ?p empty_level levels = (xs @ (?p, l) # ys, fresh)"
    and L: "levels = (if fresh then xs @ ys else xs @ (?p, l) # ys)"
    and l: "l = (if fresh then empty_level else l)" "map_of levels ?p = (if fresh then None else Some l)"
    and o: "\<forall>q \<in> fst ` set xs. own_precedes t q ?p" "\<forall>q \<in> fst ` set ys. own_precedes t ?p q"
    by (rule try_emplace_level [OF ok])
  define l' where "l' = l\<lparr>lvl_orders := lvl_orders l @ [node],
    lvl_total := Quantity (units (lvl_total l) + units (ro_remaining (node_order node)))\<rparr>"
  have "insert_resting_order faults (own_precedes t) levels active addr incoming resting arrival =
      ((xs @ (?p, l') # ys, index_entry node # active, Suc addr), Done ())"
    using nf new precedes_fresh [OF o]
    by (simp add: insert_resting_order_def Let_def te emplace_def node_def index_entry_def
        locator_of_resting_node) (simp add: l'_def node_def resting_node_def)
  moreover have sides: "side_ok (own_precedes t) ?s xs" "side_ok (own_precedes t) ?s ys"
      and lok: "\<not> fresh \<Longrightarrow> level_ok ?s ?p l"
    using ok L by (auto simp: side_ok_simps split: if_splits)
  moreover have nodes: "level_nodes levels = level_nodes xs @ lvl_orders l @ level_nodes ys"
    using L l(1) by (cases fresh) (simp_all add: empty_level_def)
  moreover have "level_ok ?s ?p l'"
    unfolding l'_def
    by (rule level_ok_inserted [of _ _ _ fresh])
       (use l lok seqs nodes room order_ok_resting [OF r arr]
         in \<open>auto simp: node_def overflows_at_level_def resting_node_def\<close>)
  then have "side_ok (own_precedes t) ?s (xs @ (?p, l') # ys)"
    using sides o by (auto simp: side_ok_simps dest: own.precedes_trans)
  moreover have "\<forall>n \<in> set (lvl_orders l). nprice n = ?p"
    using lok level_okD(2) l(1) by (cases fresh) (auto simp: empty_level_def)
  then have "level_nodes (xs @ (?p, l') # ys) = place (own_precedes t) node (level_nodes levels)"
    using place_at_level [OF sides o, of l node] nodes by (simp add: l'_def node_def)
  ultimately show ?thesis by blast
qed

section \<open>What matching leaves of the invariant\<close>

text \<open>The index and the node conditions read nodes through \<open>node_key\<close> only.\<close>

lemma same_keys_map:
  assumes "map node_key ms = map node_key ns"
  shows "map index_entry ms = map index_entry ns" "map node_addr ms = map node_addr ns"
    "map nid ms = map nid ns" "map nprice ms = map nprice ns"
proof -
  have eq: "map (g \<circ> node_key) ms = map (g \<circ> node_key) ns" for g :: "nat \<times> RestingOrder \<Rightarrow> 'a"
    using assms by (simp flip: map_map)
  show "map index_entry ms = map index_entry ns"
    using eq [of "\<lambda>(a, r). (ro_id r, \<lparr>loc_side = ro_side r, loc_price = ro_price r, loc_order = a\<rparr>)"]
    by (simp add: comp_def node_key_def index_entry_def [abs_def] locator_of_def)
  show "map node_addr ms = map node_addr ns"
    using eq [of fst] by (simp add: comp_def node_key_def)
  show "map nid ms = map nid ns"
    using eq [of "ro_id \<circ> snd"] by (simp add: comp_def node_key_def)
  show "map nprice ms = map nprice ns"
    using eq [of "ro_price \<circ> snd"] by (simp add: comp_def node_key_def)
qed

lemma index_ok_map: "map index_entry ms = map index_entry ns \<Longrightarrow> index_ok active ms \<longleftrightarrow> index_ok active ns"
proof -
  assume eq: "map index_entry ms = map index_entry ns"
  then have "map nid ms = map nid ns" by (metis (no_types, lifting) fst_index_entry map_eq_conv map_map comp_apply)
  with eq show ?thesis unfolding index_ok_def by (metis set_map)
qed

lemma index_ok_remove:
  assumes "index_ok active (xs @ ys @ zs)"
  shows "index_ok (filter (\<lambda>(k, v). k \<notin> nid ` set ys) active) (xs @ zs)"
proof -
  from assms have d: "distinct (map fst active)" "distinct (map nid (xs @ ys @ zs))"
    and S: "set active = index_entry ` set (xs @ ys @ zs)" by (simp_all add: index_ok_def)
  from d(2) have "nid ` set ys \<inter> nid ` set (xs @ zs) = {}" by auto
  then have "set (filter (\<lambda>(k, v). k \<notin> nid ` set ys) active) = index_entry ` set (xs @ zs)"
    by (auto simp: S index_entry_def)
  with d show ?thesis
    by (auto simp: index_ok_def distinct_map_filter)
qed

lemma nodes_ok_remove: "nodes_ok seen a t (xs @ ys @ zs) \<Longrightarrow> nodes_ok seen a t (xs @ zs)"
  by (auto simp: nodes_ok_def)

lemma nodes_ok_same_keys:
  assumes "map node_key ms = map node_key ns"
  shows "nodes_ok seen a t ms \<longleftrightarrow> nodes_ok seen a t ns"
proof -
  have "nodes_ok seen a t xs \<longleftrightarrow> distinct (map node_addr xs) \<and>
      (\<forall>k \<in> set (map node_key xs). fst k < a \<and> ro_id (snd k) \<in> seen \<and> (t \<noteq> 0 \<longrightarrow> ro_seq (snd k) < t))" for xs
    by (auto simp: nodes_ok_def node_key_def)
  then show ?thesis using assms same_keys_map(2) [OF assms] by presburger
qed

lemma nodes_ok_seen: "nodes_ok seen a t ns \<Longrightarrow> seen \<subseteq> seen' \<Longrightarrow> nodes_ok seen' a t ns"
  by (auto simp: nodes_ok_def)

text \<open>The sweep removes the filled makers from the front and keeps the rest in place.\<close>

lemma sweep_keeps_index:
  assumes "index_ok active (own @ xs @ ys)"
  shows "index_ok (filter (\<lambda>(k, v). k \<notin> filled_ids q xs) active) (own @ sweep_left q xs @ ys)"
proof -
  obtain k where k: "filled_ids q xs = nid ` set (take k xs)"
    "map node_key (sweep_left q xs) = map node_key (drop k xs)"
    using sweep_left_shape [of xs q] by (auto simp: drop_map)
  have "index_ok active (own @ take k xs @ (drop k xs @ ys))" using assms by (simp flip: append_assoc)
  from index_ok_remove [OF this] have "index_ok (filter (\<lambda>(k, v). k \<notin> filled_ids q xs) active) (own @ drop k xs @ ys)"
    by (simp add: k(1))
  then show ?thesis
    using index_ok_map [of "own @ sweep_left q xs @ ys" "own @ drop k xs @ ys"] same_keys_map(1) [OF k(2)]
    by simp
qed

lemma sweep_keeps_nodes:
  assumes "nodes_ok seen a t (own @ xs @ ys)"
  shows "nodes_ok seen a t (own @ sweep_left q xs @ ys)"
proof -
  obtain k where k: "map node_key (sweep_left q xs) = map node_key (drop k xs)"
    using sweep_left_shape [of xs q] by (auto simp: drop_map)
  have "nodes_ok seen a t (own @ take k xs @ (drop k xs @ ys))" using assms by (simp flip: append_assoc)
  from nodes_ok_remove [OF this] show ?thesis
    using nodes_ok_same_keys [of "own @ sweep_left q xs @ ys" "own @ drop k xs @ ys"] k by simp
qed

lemma sweep_keeps_prices: "nprice ` set (sweep_left q xs) \<subseteq> nprice ` set xs"
proof -
  obtain k where k: "map node_key (sweep_left q xs) = map node_key (drop k xs)"
    using sweep_left_shape [of xs q] by (auto simp: drop_map)
  then have "nprice ` set (sweep_left q xs) = nprice ` set (drop k xs)"
    using same_keys_map(4) by (metis set_map)
  then show ?thesis using set_drop_subset [of k xs] by auto
qed

section \<open>The phases of submit\<close>

definition match_start :: "OrderBook \<Rightarrow> NewLimitOrder \<Rightarrow> MatchState" where
  "match_start b order =
     \<lparr>ms_levels = opposite_levels (nlo_side order) b, ms_active = active_orders b,
      ms_next_trade_id = next_trade_id b, ms_remaining = nlo_quantity order, ms_trades = []\<rparr>"

definition matched_book :: "OrderBook \<Rightarrow> NewLimitOrder \<Rightarrow> MatchState \<Rightarrow> OrderBook" where
  "matched_book b order st =
     (set_opposite_levels (nlo_side order) (ms_levels st)
        (b\<lparr>seen_order_ids := insert (nlo_id order) (seen_order_ids b)\<rparr>))
       \<lparr>active_orders := ms_active st, next_trade_id := ms_next_trade_id st\<rparr>"

lemma plan_of_submit:
  assumes "book_ok_for (nlo_side order) b"
  defines "plan \<equiv> preview_match (price_crosses (nlo_side order)) (opposite_levels (nlo_side order) b)
                     (nlo_price order) (nlo_quantity order)"
  shows "qnat (mp_remaining plan) = unfilled (flat b) order"
    and "unat (mp_trade_count plan) = length (fills (flat b) order)"
proof -
  let ?s = "nlo_side order"
  have "side_ok (opposite_precedes ?s) (opposite_side ?s) (opposite_levels ?s b)"
    using assms(1) by (simp add: book_ok_for_def)
  from preview_levels_sweep [OF this, of 0 "price_crosses ?s" "nlo_price order" "nlo_quantity order"]
    book_nodes_bounded [OF assms(1)]
  show "qnat (mp_remaining plan) = unfilled (flat b) order"
    "unat (mp_trade_count plan) = length (fills (flat b) order)"
    by (simp_all add: plan_def preview_match_def unfilled_def fills_def makers_def)
qed

text \<open>The matching loop of \<open>submit\<close> completes with the result the sweep describes.\<close>

lemma match_of_submit:
  assumes ok: "book_ok_for (nlo_side order) b"
    and "issue_loop (length (fills (flat b) order)) (next_trade_id b)"
  defines "s \<equiv> nlo_side order"
  shows "\<exists>st. match_loop (price_crosses s) order (match_start b order) = Done st \<and>
    side_ok (opposite_precedes s) (opposite_side s) (ms_levels st) \<and>
    level_nodes (ms_levels st) = sweep_left (qnat (nlo_quantity order)) (makers (flat b) order) @
      not_crossing (price_crosses s) (nlo_price order) (level_nodes (opposite_levels s b)) \<and>
    qnat (ms_remaining st) = unfilled (flat b) order \<and>
    ms_trades st = trades_of order (next_trade_id b) (fills (flat b) order) \<and>
    ms_next_trade_id st = next_trade_id b + of_nat (length (fills (flat b) order)) \<and>
    ms_active st = filter (\<lambda>(k, v). k \<notin> filled_ids (qnat (nlo_quantity order)) (makers (flat b) order)) (active_orders b)"
proof -
  have "\<exists>st. match_loop (price_crosses s) order (match_start b order) = Done st \<and>
      match_result (opposite_precedes s) (price_crosses s) (opposite_side s) order (match_start b order) st"
  proof (rule match_loop_sweep)
    show "side_ok (opposite_precedes s) (opposite_side s) (ms_levels (match_start b order))"
      using ok by (simp add: match_start_def book_ok_for_def s_def)
    show "distinct (map nid (level_nodes (ms_levels (match_start b order))))"
      using ok by (simp add: match_start_def book_ok_for_def s_def index_ok_def)
    have "index_ok (active_orders b) (level_nodes (own_levels s b) @ level_nodes (opposite_levels s b))"
      using ok by (simp add: book_ok_for_def s_def)
    from index_ok_keys [OF this]
    show "nid ` set (level_nodes (ms_levels (match_start b order))) \<subseteq> fst ` set (ms_active (match_start b order))"
      by (simp add: match_start_def s_def image_Un)
    show "issue_loop (length (sweep_fills (qnat (ms_remaining (match_start b order)))
        (crossing (price_crosses s) (nlo_price order) (level_nodes (ms_levels (match_start b order))))))
        (ms_next_trade_id (match_start b order))"
      using assms(2) by (simp add: match_start_def fills_def makers_def s_def)
  qed
  then show ?thesis
    by (auto simp: match_result_def Let_def match_start_def fills_def unfilled_def makers_def s_def)
qed

lemma matched_prices:
  assumes "side_ok (opposite_precedes s) t levels"
    and "level_nodes levels = sweep_left q (crossing c p ns) @ not_crossing c p ns"
  shows "fst ` set levels \<subseteq> nprice ` set ns"
proof -
  have "set ns = set (crossing c p ns) \<union> set (not_crossing c p ns)"
    by (metis crossing_append set_append)
  then show ?thesis
    using side_ok_prices [OF assms(1)] assms(2) sweep_keeps_prices [of q "crossing c p ns"]
    by (simp add: image_Un) blast
qed

text \<open>After matching the book is well-formed again.\<close>

lemma matched_book_ok:
  assumes ok: "book_ok_for (nlo_side order) b" and id: "nlo_id order \<noteq> OrderId 0"
    and lv: "side_ok (opposite_precedes (nlo_side order)) (opposite_side (nlo_side order)) (ms_levels st)"
    and nodes: "level_nodes (ms_levels st) = sweep_left q (makers (flat b) order) @
      not_crossing (price_crosses (nlo_side order)) (nlo_price order)
        (level_nodes (opposite_levels (nlo_side order) b))"
    and act: "ms_active st = filter (\<lambda>(k, v). k \<notin> filled_ids q (makers (flat b) order)) (active_orders b)"
  shows "book_ok_for (nlo_side order) (matched_book b order st)"
proof -
  let ?s = "nlo_side order"
  let ?own = "level_nodes (own_levels ?s b)" and ?opp = "level_nodes (opposite_levels ?s b)"
  let ?nc = "not_crossing (price_crosses ?s) (nlo_price order) ?opp"
  have split: "?opp = makers (flat b) order @ ?nc" by (simp add: makers_def)
  have sopp: "side_ok (opposite_precedes ?s) (opposite_side ?s) (opposite_levels ?s b)"
    and idx: "index_ok (active_orders b) (?own @ ?opp)"
    and nok: "nodes_ok (seen_order_ids b) (next_node b) (next_arrival_sequence b) (?own @ ?opp)"
    using ok by (simp_all add: book_ok_for_def)
  have "fst ` set (ms_levels st) \<subseteq> fst ` set (opposite_levels ?s b)"
    using matched_prices [OF lv] nodes side_ok_prices [OF sopp] by (simp add: makers_def)
  then have "\<forall>p \<in> fst ` set (own_levels ?s b). \<forall>q \<in> fst ` set (ms_levels st). \<not> price_crosses ?s q p"
    using ok unfolding book_ok_for_def by blast
  moreover have "index_ok (ms_active st) (?own @ level_nodes (ms_levels st))"
    using sweep_keeps_index [of "active_orders b" ?own "makers (flat b) order" ?nc q] idx
    by (simp add: act nodes flip: split)
  moreover have "nodes_ok (seen_order_ids b) (next_node b) (next_arrival_sequence b) (?own @ level_nodes (ms_levels st))"
    using sweep_keeps_nodes [of _ _ _ ?own "makers (flat b) order" ?nc q] nok
    by (simp add: nodes flip: split)
  ultimately show ?thesis
    using ok lv id nodes_ok_seen [of "seen_order_ids b"]
    by (simp add: book_ok_for_def matched_book_def subset_insertI)
qed

text \<open>What is left of the order rests without crossing: every crossing maker has been consumed.\<close>

lemma not_crossing_prices:
  assumes "side_ok (opposite_precedes s) t levels" and "n \<in> set (not_crossing (price_crosses s) p (level_nodes levels))"
  shows "\<not> price_crosses s (nprice n) p"
  using assms
proof (induction levels)
  case (Cons pl levels)
  obtain q l where pl: "pl = (q, l)" by (cases pl)
  with Cons.prems have lok: "level_ok t q l" and rok: "side_ok (opposite_precedes s) t levels"
    by (simp_all add: side_ok_Cons)
  show ?case
  proof (cases "price_crosses s q p")
    case True
    then have "\<forall>m \<in> set (lvl_orders l). price_crosses s (nprice m) p" using level_okD(2) [OF lok] by simp
    then have "not_crossing (price_crosses s) p (level_nodes (pl # levels)) =
        not_crossing (price_crosses s) p (level_nodes levels)"
      using pl by (simp add: not_crossing_def dropWhile_append2)
    with Cons.IH [OF rok] Cons.prems(2) show ?thesis by simp
  next
    case False
    moreover have "n \<in> set (level_nodes (pl # levels))"
      using Cons.prems(2) by (auto simp: not_crossing_def dest: set_dropWhileD)
    ultimately show ?thesis using opp.no_crossing_after Cons.prems(1) pl by metis
  qed
qed (simp add: not_crossing_def)

lemma less_next: "(x :: u64) < y \<Longrightarrow> y + 1 \<noteq> 0 \<Longrightarrow> x < y + 1 \<and> y < y + 1"
proof -
  assume "x < y" "y + 1 \<noteq> 0"
  then have "y \<noteq> u64_max" by auto
  from unat_Suc_word [OF this] \<open>x < y\<close> show ?thesis by (simp add: word_less_nat_alt)
qed

lemma distinct_map_place:
  "distinct (map g (place precedes x own @ opp)) \<longleftrightarrow> g x \<notin> g ` set (own @ opp) \<and> distinct (map g (own @ opp))"
proof -
  obtain xs ys where "own = xs @ ys" "place precedes x own = xs @ x # ys"
    using place_cong_map by blast
  then show ?thesis by auto
qed

lemma index_ok_place:
  assumes "index_ok active (own @ opp)" and "nid x \<notin> fst ` set active"
  shows "index_ok (index_entry x # active) (place precedes x own @ opp)"
  using assms index_ok_keys [OF assms(1)]
  unfolding index_ok_def distinct_map_place by (simp add: set_place)

lemma nodes_ok_place:
  assumes "nodes_ok seen a t (own @ opp)" and "node_addr x = a" "nid x \<in> seen" "nseq x = t" "t \<noteq> 0"
  shows "nodes_ok seen (Suc a) (t + 1) (place precedes x own @ opp)"
proof -
  have "t + 1 \<noteq> 0 \<Longrightarrow> t < t + 1" using less_next [of 0 t] assms(5) by (simp add: word_gt_0)
  moreover have "node_addr x \<notin> node_addr ` set (own @ opp)"
    using assms(1,2) by (force simp: nodes_ok_def)
  ultimately show ?thesis
    using assms less_next [of _ t] unfolding nodes_ok_def distinct_map_place
    by (auto simp: set_place less_Suc_eq)
qed

lemma rested_book_ok:
  fixes b order r
  defines "s \<equiv> nlo_side order"
  defines "x \<equiv> resting_node (next_node b) order r (next_arrival_sequence b)"
  assumes ok: "book_ok_for s b" and fresh: "nlo_id order \<notin> fst ` set (active_orders b)"
    and seen: "nlo_id order \<in> seen_order_ids b" and arr: "next_arrival_sequence b \<noteq> 0"
    and lv: "side_ok (own_precedes s) s levels" "level_nodes levels = place (own_precedes s) x (level_nodes (own_levels s b))"
    and nc: "\<forall>q \<in> fst ` set (opposite_levels s b). \<not> price_crosses s q (nlo_price order)"
  shows "book_ok_for s ((set_own_levels s levels b)
           \<lparr>active_orders := index_entry x # active_orders b, next_node := Suc (next_node b),
            next_arrival_sequence := next_arrival_sequence b + 1\<rparr>)"
proof -
  let ?own = "level_nodes (own_levels s b)" and ?opp = "level_nodes (opposite_levels s b)"
  have "side_ok (own_precedes s) s (own_levels s b)" using ok by (simp add: book_ok_for_def)
  then have "fst ` set levels = insert (nlo_price order) (fst ` set (own_levels s b))"
    using side_ok_prices [OF lv(1)] lv(2) by (simp add: set_place x_def side_ok_prices)
  then have "\<forall>p \<in> fst ` set levels. \<forall>q \<in> fst ` set (opposite_levels s b). \<not> price_crosses s q p"
    using ok nc by (simp add: book_ok_for_def)
  moreover have "index_ok (index_entry x # active_orders b) (level_nodes levels @ ?opp)"
    using ok fresh unfolding lv(2) by (intro index_ok_place) (simp_all add: book_ok_for_def x_def)
  moreover have "nodes_ok (seen_order_ids b) (Suc (next_node b)) (next_arrival_sequence b + 1) (level_nodes levels @ ?opp)"
    using ok seen arr unfolding lv(2) by (intro nodes_ok_place) (simp_all add: book_ok_for_def x_def)
  ultimately show ?thesis using ok lv(1) by (simp add: book_ok_for_def)
qed

section \<open>The accepting path\<close>

lemma Quantity_eq_iff: "Quantity (of_nat n) = q \<longleftrightarrow> qnat q = n" if "n < 2 ^ 64"
  using that by (cases q) (auto simp: unat_of_nat word_unat_eq_iff)

lemma unfilled_bound: "unfilled f order \<le> qnat (nlo_quantity order)"
  using sweep_conserves [of "qnat (nlo_quantity order)" "makers f order"] by (simp add: unfilled_def)

text \<open>
  What the checks of \<open>submit\<close> have established when it starts to change the book.
\<close>

definition admissible :: "OrderBook \<Rightarrow> NewLimitOrder \<Rightarrow> bool" where
  "admissible b order \<longleftrightarrow>
     nlo_id order \<noteq> OrderId 0 \<and> nlo_id order \<notin> seen_order_ids b \<and> units (nlo_quantity order) \<noteq> 0 \<and>
     issue_loop (length (fills (flat b) order)) (next_trade_id b) \<and>
     (0 < unfilled (flat b) order \<longrightarrow> next_arrival_sequence b \<noteq> 0 \<and>
        \<not> overflows_at_level (own_levels (nlo_side order) b) (nlo_price order)
            (Quantity (of_nat (unfilled (flat b) order))))"

lemma active_seen: "book_ok_for s b \<Longrightarrow> fst ` set (active_orders b) \<subseteq> seen_order_ids b"
  unfolding book_ok_for_def nodes_ok_def by (elim conjE, subst index_ok_keys) auto

text \<open>The matching phase, as one fact about the book it leaves.\<close>

lemma matched_phase:
  fixes b order
  defines "s \<equiv> nlo_side order"
  assumes ok: "book_ok_for s b" and adm: "admissible b order"
  obtains st where "match_loop (price_crosses s) order (match_start b order) = Done st"
    "book_ok_for s (matched_book b order st)"
    "ms_remaining st = Quantity (of_nat (unfilled (flat b) order))"
    "ms_trades st = trades_of order (next_trade_id b) (fills (flat b) order)"
    "next_trade_id (matched_book b order st) = next_trade_id b + of_nat (length (fills (flat b) order))"
    "level_nodes (opposite_levels s (matched_book b order st)) =
       sweep_left (qnat (nlo_quantity order)) (makers (flat b) order) @
       not_crossing (price_crosses s) (nlo_price order) (level_nodes (opposite_levels s b))"
    "own_levels s (matched_book b order st) = own_levels s b"
    "nlo_id order \<notin> fst ` set (active_orders (matched_book b order st))"
proof -
  obtain st where st: "match_loop (price_crosses s) order (match_start b order) = Done st"
    "side_ok (opposite_precedes s) (opposite_side s) (ms_levels st)"
    "level_nodes (ms_levels st) = sweep_left (qnat (nlo_quantity order)) (makers (flat b) order) @
      not_crossing (price_crosses s) (nlo_price order) (level_nodes (opposite_levels s b))"
    "qnat (ms_remaining st) = unfilled (flat b) order"
    "ms_trades st = trades_of order (next_trade_id b) (fills (flat b) order)"
    "ms_next_trade_id st = next_trade_id b + of_nat (length (fills (flat b) order))"
    "ms_active st = filter (\<lambda>(k, v). k \<notin> filled_ids (qnat (nlo_quantity order)) (makers (flat b) order)) (active_orders b)"
    using match_of_submit [of order b] ok adm by (auto simp: s_def admissible_def)
  from ok adm have "nlo_id order \<notin> fst ` set (active_orders b)"
    using active_seen by (auto simp: admissible_def)
  then have "nlo_id order \<notin> fst ` set (ms_active st)" by (auto simp: st(7))
  moreover have "book_ok_for s (matched_book b order st)"
    using matched_book_ok [of order b st] ok adm st(2,3,7) by (simp add: s_def admissible_def)
  moreover have "ms_remaining st = Quantity (of_nat (unfilled (flat b) order))"
    using st(4) by (simp flip: st(4))
  ultimately show thesis
    using st by (intro that [of st]) (simp_all add: matched_book_def s_def)
qed

definition rested_book :: "OrderBook \<Rightarrow> Side \<Rightarrow> Levels \<Rightarrow> ActiveOrders \<Rightarrow> nat \<Rightarrow> OrderBook" where
  "rested_book b s levels active addr =
     (set_own_levels s levels b)\<lparr>active_orders := active, next_node := addr\<rparr>"

lemma execute_unfold:
  fixes b order
  defines "s \<equiv> nlo_side order"
  assumes nf: "\<not> faults TradesReserve" "\<not> faults SeenInsert"
    and st: "match_loop (price_crosses s) order (match_start b order) = Done st"
    and plan: "ms_remaining st = mp_remaining plan" "length (ms_trades st) = unat (mp_trade_count plan)"
  defines "b2 \<equiv> matched_book b order st"
  defines "result \<equiv> \<lparr>sr_status = Accepted, sr_reason = None,
     sr_executed = Quantity (units (nlo_quantity order) - units (mp_remaining plan)),
     sr_resting = mp_remaining plan, sr_trades = ms_trades st\<rparr>"
  shows "execute_submission faults b order plan =
    (if units (mp_remaining plan) > 0
     then (case insert_resting_order faults (own_precedes s) (own_levels s b2) (active_orders b2) (next_node b2)
                  order (mp_remaining plan) (next_arrival_sequence b2) of
             ((levels, active, addr), Done u) \<Rightarrow>
               let b4 = (rested_book b2 s levels active addr)\<lparr>next_arrival_sequence := next_arrival_sequence b2 + 1\<rparr>
               in if invariants_hold b4 then (b4, Done result) else (b4, Terminates)
           | ((levels, active, addr), Throws) \<Rightarrow> (rested_book b2 s levels active addr, Throws)
           | ((levels, active, addr), Terminates) \<Rightarrow> (rested_book b2 s levels active addr, Terminates)
           | ((levels, active, addr), Undefined) \<Rightarrow> (rested_book b2 s levels active addr, Undefined))
     else if invariants_hold b2 then (b2, Done result) else (b2, Terminates))"
proof -
  have start: "match_start b order =
      \<lparr>ms_levels = opposite_levels s b, ms_active = active_orders b, ms_next_trade_id = next_trade_id b,
       ms_remaining = nlo_quantity order, ms_trades = []\<rparr>"
    by (simp add: match_start_def s_def)
  show ?thesis
    using nf st plan unfolding execute_submission_def start
    by (simp add: Let_def b2_def matched_book_def s_def result_def rested_book_def
        split: prod.splits outcome.splits)
qed

lemma book_ok_for_invariants_hold: "is_valid_side s \<Longrightarrow> book_ok_for s b \<Longrightarrow> invariants_hold b"
  by (simp add: book_ok_for_iff book_ok_invariants_hold)

lemma nodes_ok_addr: "nodes_ok seen a t ns \<Longrightarrow> a \<le> a' \<Longrightarrow> nodes_ok seen a' t ns"
  by (force simp: nodes_ok_def)

lemma rested_book_unchanged:
  "book_ok_for s b \<Longrightarrow> next_node b \<le> addr \<Longrightarrow>
   book_ok_for s (rested_book b s (own_levels s b) (active_orders b) addr)"
  unfolding book_ok_for_def rested_book_def
  by (auto elim: nodes_ok_addr)

lemma order_rests:
  fixes b order
  defines "s \<equiv> nlo_side order" and "r \<equiv> Quantity (of_nat (unfilled (flat b) order))"
  defines "x \<equiv> resting_node (next_node b) order r (next_arrival_sequence b)"
  assumes ok: "book_ok_for s b" and adm: "admissible b order" and left: "0 < unfilled (flat b) order"
    and b2: "book_ok_for s b2" "own_levels s b2 = own_levels s b" "next_node b2 = next_node b"
      "next_arrival_sequence b2 = next_arrival_sequence b" "nlo_id order \<in> seen_order_ids b2"
      "nlo_id order \<notin> fst ` set (active_orders b2)"
      "level_nodes (opposite_levels s b2) = sweep_left (qnat (nlo_quantity order)) (makers (flat b) order) @
         not_crossing (price_crosses s) (nlo_price order) (level_nodes (opposite_levels s b))"
    and nf: "\<not> faults LevelEmplace" "\<not> faults OrderPushBack" "\<not> faults ActiveEmplace"
  obtains levels where
    "insert_resting_order faults (own_precedes s) (own_levels s b2) (active_orders b2) (next_node b2)
       order r (next_arrival_sequence b2) =
       ((levels, index_entry x # active_orders b2, Suc (next_node b)), Done ())"
    "level_nodes levels = place (own_precedes s) x (level_nodes (own_levels s b))"
    "book_ok_for s ((rested_book b2 s levels (index_entry x # active_orders b2) (Suc (next_node b)))
       \<lparr>next_arrival_sequence := next_arrival_sequence b2 + 1\<rparr>)"
proof -
  have r: "qnat r = unfilled (flat b) order"
    using unfilled_bound [of "flat b" order] unat_less_u64 [of "units (nlo_quantity order)"]
    by (simp add: r_def unat_of_nat)
  have side: "side_ok (own_precedes s) s (own_levels s b)" and arr: "next_arrival_sequence b \<noteq> 0"
    using ok adm left by (simp_all add: book_ok_for_def admissible_def)
  have "units r \<noteq> 0" "units r \<le> units (nlo_quantity order)"
    using r left unfilled_bound [of "flat b" order] by (auto simp: word_le_nat_alt)
  moreover have "\<forall>n \<in> set (level_nodes (own_levels s b)). nseq n < next_arrival_sequence b"
    using ok arr by (auto simp: book_ok_for_def nodes_ok_def)
  moreover have "\<not> overflows_at_level (own_levels s b) (nlo_price order) r"
    using adm left by (simp add: admissible_def r_def s_def)
  ultimately obtain levels where lv: "insert_resting_order faults (own_precedes s) (own_levels s b2) (active_orders b2)
      (next_node b2) order r (next_arrival_sequence b2) =
      ((levels, index_entry x # active_orders b2, Suc (next_node b)), Done ())"
    "side_ok (own_precedes s) s levels" "level_nodes levels = place (own_precedes s) x (level_nodes (own_levels s b))"
    using insert_resting_done [of s order "own_levels s b" faults r "next_arrival_sequence b" "active_orders b2" "next_node b"]
      side arr nf b2 by (auto simp: s_def x_def)
  have none: "sweep_left (qnat (nlo_quantity order)) (makers (flat b) order) = []"
    using left sweep_rest_positive by (simp add: unfilled_def)
  have "side_ok (opposite_precedes s) (opposite_side s) (opposite_levels s b)" using ok by (simp add: book_ok_for_def)
  from not_crossing_prices [OF this, of _ "nlo_price order"]
  have "\<forall>q \<in> nprice ` set (level_nodes (opposite_levels s b2)). \<not> price_crosses s q (nlo_price order)"
    using b2(7) none by auto
  then have "\<forall>q \<in> fst ` set (opposite_levels s b2). \<not> price_crosses s q (nlo_price order)"
    using b2(1) side_ok_prices unfolding book_ok_for_def by metis
  then have "book_ok_for s ((rested_book b2 s levels (index_entry x # active_orders b2) (Suc (next_node b)))
       \<lparr>next_arrival_sequence := next_arrival_sequence b2 + 1\<rparr>)"
    using rested_book_ok [of order b2 levels r] b2 lv(2,3) arr
    by (simp add: s_def x_def rested_book_def)
  with lv show thesis by (intro that) simp_all
qed

end
