(* ===== verification/Order_Book_Refinement.thy ===== *)
theory Order_Book_Refinement
  imports Order_Book_Submit
begin

text \<open>
  The operations of \<open>OrderBook\<close> implement the specification: on every well-formed book, \<open>submit\<close>
  and \<open>cancel\<close> compute what \<open>spec_submit\<close> and \<open>spec_cancel\<close> say, never reach \<open>std::terminate\<close> or
  undefined behaviour, and keep the book well-formed, also when an allocation throws.
\<close>

section \<open>submit\<close>

text \<open>The book when an allocation throws after matching: the order neither rests nor is forgotten.\<close>

definition spec_interrupted :: "FlatBook \<Rightarrow> NewLimitOrder \<Rightarrow> nat \<Rightarrow> FlatBook" where
  "spec_interrupted f order addr =
     (let s = nlo_side order
      in (set_nodes s (own_nodes s f)
            (sweep_left (qnat (nlo_quantity order)) (makers f order) @
             not_crossing (price_crosses s) (nlo_price order) (opposite_nodes s f)) f)
           \<lparr>fb_seen := insert (nlo_id order) (fb_seen f),
            fb_trade_id := fb_trade_id f + of_nat (length (fills f order)), fb_next_node := addr\<rparr>)"

definition execution_ok :: "faults \<Rightarrow> OrderBook \<Rightarrow> NewLimitOrder \<Rightarrow> OrderBook \<times> SubmitResult outcome \<Rightarrow> bool" where
  "execution_ok faults b order r \<longleftrightarrow>
     book_ok_for (nlo_side order) (fst r) \<and>
     (case snd r of
        Done res \<Rightarrow> (flat (fst r), res) = spec_execute (flat b) order
      | Throws \<Rightarrow> (\<exists>site. faults site) \<and>
          (fst r = b \<or> 0 < unfilled (flat b) order \<and>
             (\<exists>addr \<ge> next_node b. flat (fst r) = spec_interrupted (flat b) order addr))
      | Terminates \<Rightarrow> False
      | Undefined \<Rightarrow> False)"

lemma length_trades_of [simp]: "length (trades_of order t fs) = length fs"
  by (induction fs arbitrary: t) simp_all

lemma set_nodes_fields [simp]:
  "fb_seen (set_nodes s own opp f) = fb_seen f" "fb_arrival (set_nodes s own opp f) = fb_arrival f"
  "fb_trade_id (set_nodes s own opp f) = fb_trade_id f" "fb_next_node (set_nodes s own opp f) = fb_next_node f"
  by (simp_all add: set_nodes_def)

lemma matched_book_fields [simp]:
  "seen_order_ids (matched_book b order st) = insert (nlo_id order) (seen_order_ids b)"
  "next_node (matched_book b order st) = next_node b"
  "next_arrival_sequence (matched_book b order st) = next_arrival_sequence b"
  by (simp_all add: matched_book_def)

definition remainder :: "OrderBook \<Rightarrow> NewLimitOrder \<Rightarrow> Quantity" where
  "remainder b order = Quantity (of_nat (unfilled (flat b) order))"

lemma qnat_remainder [simp]: "qnat (remainder b order) = unfilled (flat b) order"
  using unfilled_bound [of "flat b" order] unat_less_u64 [of "units (nlo_quantity order)"]
  by (simp add: remainder_def unat_of_nat)

lemma remainder_pos: "units (remainder b order) > 0 \<longleftrightarrow> 0 < unfilled (flat b) order"
  using qnat_remainder [of b order] by (simp add: word_less_nat_alt)

text \<open>The state in which the matching loop leaves the book, and the plan that foresaw it.\<close>

definition matched :: "OrderBook \<Rightarrow> NewLimitOrder \<Rightarrow> MatchPlan \<Rightarrow> MatchState \<Rightarrow> bool" where
  "matched b order plan st \<longleftrightarrow>
     (let s = nlo_side order; b2 = matched_book b order st
      in match_loop (price_crosses s) order (match_start b order) = Done st \<and>
         mp_remaining plan = remainder b order \<and> unat (mp_trade_count plan) = length (fills (flat b) order) \<and>
         book_ok_for s b2 \<and> ms_remaining st = remainder b order \<and>
         ms_trades st = trades_of order (next_trade_id b) (fills (flat b) order) \<and>
         next_trade_id b2 = next_trade_id b + of_nat (length (fills (flat b) order)) \<and>
         level_nodes (opposite_levels s b2) = sweep_left (qnat (nlo_quantity order)) (makers (flat b) order) @
           not_crossing (price_crosses s) (nlo_price order) (level_nodes (opposite_levels s b)) \<and>
         own_levels s b2 = own_levels s b \<and> nlo_id order \<notin> fst ` set (active_orders b2))"

lemma matched_exists:
  assumes "book_ok_for (nlo_side order) b" and "admissible b order"
    and "mp_remaining plan = remainder b order" "unat (mp_trade_count plan) = length (fills (flat b) order)"
  shows "\<exists>st. matched b order plan st"
  by (rule matched_phase [OF assms(1,2)])
     (use assms(3,4) in \<open>auto simp: matched_def Let_def remainder_def\<close>)

lemma execute_filled:
  assumes m: "matched b order plan st" and valid: "is_valid_side (nlo_side order)"
    and nf: "\<not> faults TradesReserve" "\<not> faults SeenInsert" and zero: "unfilled (flat b) order = 0"
  shows "execution_ok faults b order (execute_submission faults b order plan)"
proof -
  let ?s = "nlo_side order" and ?b2 = "matched_book b order st"
  have b2: "book_ok_for ?s ?b2" using m by (simp add: matched_def Let_def)
  have "execute_submission faults b order plan = (?b2,
      Done \<lparr>sr_status = Accepted, sr_reason = None,
            sr_executed = Quantity (units (nlo_quantity order) - units (remainder b order)),
            sr_resting = remainder b order, sr_trades = ms_trades st\<rparr>)"
    using execute_unfold [of faults order b st plan] nf m zero book_ok_for_invariants_hold [OF valid b2]
    by (simp add: matched_def Let_def remainder_pos)
  moreover have "flat ?b2 = fst (spec_execute (flat b) order)"
    by (rule flat_eqI [of ?s]) (use m zero in \<open>simp_all add: matched_def spec_execute_def Let_def\<close>)
  ultimately show ?thesis
    using m b2 by (simp add: execution_ok_def remainder_def spec_execute_def matched_def Let_def)
qed

lemma execute_interrupted:
  assumes m: "matched b order plan st" and ok: "book_ok_for (nlo_side order) b"
    and nf: "\<not> faults TradesReserve" "\<not> faults SeenInsert" and pos: "0 < unfilled (flat b) order"
    and fault: "faults LevelEmplace \<or> faults OrderPushBack \<or> faults ActiveEmplace"
  shows "execution_ok faults b order (execute_submission faults b order plan)"
proof -
  let ?s = "nlo_side order" and ?b2 = "matched_book b order st"
  have "side_ok (own_precedes ?s) ?s (own_levels ?s b)" using ok by (simp add: book_ok_for_def)
  moreover have own: "own_levels ?s ?b2 = own_levels ?s b" using m by (simp add: matched_def Let_def)
  ultimately obtain addr where addr: "addr \<ge> next_node b" and ins:
    "insert_resting_order faults (own_precedes ?s) (own_levels ?s ?b2)
       (active_orders ?b2) (next_node b) order (remainder b order) (next_arrival_sequence b) =
       ((own_levels ?s ?b2, active_orders ?b2, addr), Throws)"
    using insert_resting_throws [OF _ fault] by metis
  let ?b3 = "rested_book ?b2 ?s (own_levels ?s ?b2) (active_orders ?b2) addr"
  have "execute_submission faults b order plan = (?b3, Throws)"
    using execute_unfold [of faults order b st plan] nf m pos ins
    by (simp add: matched_def Let_def remainder_pos)
  moreover have "book_ok_for ?s ?b3"
    using rested_book_unchanged [of ?s ?b2 addr] m addr by (simp add: matched_def Let_def)
  moreover have "flat ?b3 = spec_interrupted (flat b) order addr"
    by (rule flat_eqI [of ?s])
       (use m in \<open>simp_all add: spec_interrupted_def matched_def Let_def rested_book_def\<close>)
  ultimately show ?thesis using fault pos addr by (auto simp: execution_ok_def)
qed

lemma execute_rests:
  assumes m: "matched b order plan st" and ok: "book_ok_for (nlo_side order) b"
    and adm: "admissible b order" and valid: "is_valid_side (nlo_side order)"
    and nf: "\<forall>site. \<not> faults site" and pos: "0 < unfilled (flat b) order"
  shows "execution_ok faults b order (execute_submission faults b order plan)"
proof -
  let ?s = "nlo_side order" and ?b2 = "matched_book b order st"
  let ?x = "resting_node (next_node b) order (remainder b order) (next_arrival_sequence b)"
  obtain levels where ins:
    "insert_resting_order faults (own_precedes ?s) (own_levels ?s ?b2) (active_orders ?b2) (next_node ?b2)
       order (remainder b order) (next_arrival_sequence ?b2) =
       ((levels, index_entry ?x # active_orders ?b2, Suc (next_node b)), Done ())"
    and lv: "level_nodes levels = place (own_precedes ?s) ?x (level_nodes (own_levels ?s b))"
    and b4: "book_ok_for ?s ((rested_book ?b2 ?s levels (index_entry ?x # active_orders ?b2) (Suc (next_node b)))
       \<lparr>next_arrival_sequence := next_arrival_sequence ?b2 + 1\<rparr>)"
    unfolding remainder_def
    by (rule order_rests [of order b ?b2 faults]) (use m ok adm pos nf in \<open>simp_all add: matched_def Let_def\<close>)
  let ?b4 = "(rested_book ?b2 ?s levels (index_entry ?x # active_orders ?b2) (Suc (next_node b)))
       \<lparr>next_arrival_sequence := next_arrival_sequence b + 1\<rparr>"
  have "execute_submission faults b order plan = (?b4,
      Done \<lparr>sr_status = Accepted, sr_reason = None,
            sr_executed = Quantity (units (nlo_quantity order) - units (remainder b order)),
            sr_resting = remainder b order, sr_trades = ms_trades st\<rparr>)"
    using execute_unfold [of faults order b st plan] nf m pos ins book_ok_for_invariants_hold [OF valid b4]
    by (simp add: matched_def Let_def remainder_pos)
  moreover have "flat ?b4 = fst (spec_execute (flat b) order)"
    by (rule flat_eqI [of ?s])
       (use m pos lv in \<open>simp_all add: matched_def spec_execute_def Let_def rested_book_def remainder_def\<close>)
  ultimately show ?thesis
    using m b4 by (simp add: execution_ok_def remainder_def spec_execute_def matched_def Let_def)
qed

lemma execute_effect:
  assumes valid: "is_valid_side (nlo_side order)" and ok: "book_ok_for (nlo_side order) b"
    and adm: "admissible b order"
    and plan: "mp_remaining plan = remainder b order" "unat (mp_trade_count plan) = length (fills (flat b) order)"
  shows "execution_ok faults b order (execute_submission faults b order plan)"
proof (cases "faults TradesReserve \<or> faults SeenInsert")
  case True
  then have "execute_submission faults b order plan = (b, Throws)" by (auto simp: execute_submission_def)
  with True ok show ?thesis by (auto simp: execution_ok_def)
next
  case False
  obtain st where m: "matched b order plan st" using matched_exists [OF ok adm plan] by blast
  have sites: "(\<forall>site. \<not> faults site) \<longleftrightarrow> \<not> (faults LevelEmplace \<or> faults OrderPushBack \<or> faults ActiveEmplace)"
    using False by (metis alloc_site.exhaust)
  show ?thesis
    using execute_filled [OF m valid] execute_interrupted [OF m ok] execute_rests [OF m ok adm valid] False sites
    by (cases "unfilled (flat b) order = 0") auto
qed

section \<open>Every submission\<close>

lemma can_issue_iff:
  "can_issue_trade_ids t c \<longleftrightarrow> \<not> (unat c \<noteq> 0 \<and> (t = 0 \<or> 2 ^ 64 < unat t + unat c))"
  by (auto simp: can_issue_trade_ids_def issue_loop_iff)

text \<open>Which branch of \<open>submit\<close> is taken is decided by the abstract book alone.\<close>

lemma submit_cases:
  assumes ok: "book_ok b"
  shows "case spec_rejection (flat b) order of
      Some reason \<Rightarrow> submit faults b order = (b, Done (rejected reason))
    | None \<Rightarrow> is_valid_side (nlo_side order) \<and> admissible b order \<and>
        execution_ok faults b order (submit faults b order)"
proof (cases "order_id_value (nlo_id order) = 0 \<or> \<not> is_valid_side (nlo_side order) \<or>
    ticks (nlo_price order) = 0 \<or> units (nlo_quantity order) = 0 \<or> nlo_id order \<in> seen_order_ids b")
  case True
  then show ?thesis by (auto simp: spec_rejection_def submit_def)
next
  case False
  let ?s = "nlo_side order"
  let ?plan = "preview_match (price_crosses ?s) (opposite_levels ?s b) (nlo_price order) (nlo_quantity order)"
  from False ok have ok_for: "book_ok_for ?s b" by (simp add: book_ok_for_iff)
  then have side: "side_ok (own_precedes ?s) ?s (own_levels ?s b)" by (simp add: book_ok_for_def)
  note plan = plan_of_submit [OF ok_for]
  have rem: "mp_remaining ?plan = remainder b order" using plan(1) by (simp flip: qnat_eq_iff)
  have issue: "can_issue_trade_ids (next_trade_id b) (mp_trade_count ?plan) \<longleftrightarrow>
      \<not> (fills (flat b) order \<noteq> [] \<and>
         (next_trade_id b = 0 \<or> 2 ^ 64 < unat (next_trade_id b) + length (fills (flat b) order)))"
    by (simp add: can_issue_iff plan(2))
  have over: "overflows_at_level (own_levels ?s b) (nlo_price order) (remainder b order) \<longleftrightarrow>
      2 ^ 64 \<le> resting_at (nlo_price order) (level_nodes (own_levels ?s b)) + unfilled (flat b) order"
    by (simp add: overflows_at_level_iff [OF side])
  have eff: "execution_ok faults b order (execute_submission faults b order ?plan)" if "admissible b order"
    using execute_effect [OF _ ok_for that rem plan(2)] False by simp
  have zero: "nlo_id order \<noteq> OrderId 0" using False by (cases "nlo_id order") auto
  show ?thesis
    using False eff zero
    by (auto simp: spec_rejection_def submit_def Let_def issue rem remainder_pos over admissible_def
        issue_loop_iff simp flip: remainder_def)
qed

end
