(* ===== verification/Order_Book_Cancel.thy ===== *)
theory Order_Book_Cancel
  imports Order_Book_Spec
begin

text \<open>
  \<open>OrderBook::cancel\<close> and \<open>OrderBook::find\<close>: the locator of an active order always points to a
  live node of the level it names, so following it finds the order and erasing it keeps the book
  well-formed.
\<close>

section \<open>Following a locator\<close>

lemma find_unique:
  assumes "distinct (map f ns)" and "n \<in> set ns"
  shows "find (\<lambda>m. f m = f n) ns = Some n"
  using assms by (induction ns) auto

lemma find_none: "k \<notin> f ` set ns \<Longrightarrow> find (\<lambda>m. f m = k) ns = None"
  by (induction ns) auto

lemma filter_absent: "f n \<notin> f ` set xs \<Longrightarrow> filter (\<lambda>m. f m \<noteq> f n) xs = xs"
  by (induction xs) auto

lemma deref_live:
  assumes "book_ok b" and "n \<in> set (live_nodes b)"
  shows "deref (node_addr n) (live_nodes b) = Some (node_order n)"
  using assms find_unique [of node_addr "live_nodes b" n]
  by (simp add: deref_def book_ok_def nodes_ok_def)

lemma spec_find_live:
  assumes "book_ok b" and "n \<in> set (live_nodes b)"
  shows "spec_find (flat b) (nid n) = Some (node_order n)"
proof -
  have "flat_nodes (flat b) = live_nodes b" by (simp add: flat_nodes_def flat_def live_nodes_def)
  then show ?thesis
    using assms find_unique [of nid "live_nodes b" n]
    by (simp add: spec_find_def book_ok_def index_ok_def)
qed

lemma spec_find_absent:
  assumes "oid \<notin> nid ` set (live_nodes b)"
  shows "spec_find (flat b) oid = None"
proof -
  have "flat_nodes (flat b) = live_nodes b" by (simp add: flat_nodes_def flat_def live_nodes_def)
  then show ?thesis using find_none [OF assms] by (simp add: spec_find_def)
qed

lemma lookup_cases:
  assumes "book_ok b"
  obtains (absent) "map_of (active_orders b) oid = None" "oid \<notin> nid ` set (live_nodes b)"
  | (present) n where "n \<in> set (live_nodes b)" "nid n = oid" "map_of (active_orders b) oid = Some (locator_of n)"
proof (cases "map_of (active_orders b) oid")
  case None
  moreover have idx: "index_ok (active_orders b) (live_nodes b)" using assms by (simp add: book_ok_def)
  ultimately have "oid \<notin> nid ` set (live_nodes b)"
    using index_ok_keys [OF idx] by (simp add: map_of_eq_None_iff)
  with None show thesis by (rule absent)
next
  case (Some loc)
  moreover have "index_ok (active_orders b) (live_nodes b)" using assms by (simp add: book_ok_def)
  ultimately show thesis using present by (metis index_ok_node)
qed

section \<open>Erasing an order\<close>

lemma nodes_of_side:
  assumes "book_ok b" and "n \<in> set (live_nodes b)"
  shows "is_valid_side (ro_side (node_order n))" "n \<in> set (level_nodes (own_levels (ro_side (node_order n)) b))"
proof -
  have "side_ok (\<lambda>a b. a > b) Buy (bids b)" "side_ok (\<lambda>a b. a < b) Sell (asks b)"
    using assms(1) by (simp_all add: book_ok_def)
  then have "n \<in> set (level_nodes (bids b)) \<and> ro_side (node_order n) = Buy \<or>
      n \<in> set (level_nodes (asks b)) \<and> ro_side (node_order n) = Sell"
    using assms(2) side_ok_node(1) [of _ _ _ n] unfolding live_nodes_def order_ok_def by auto
  then show "is_valid_side (ro_side (node_order n))"
    "n \<in> set (level_nodes (own_levels (ro_side (node_order n)) b))"
    by (auto simp: is_valid_side_def own_levels_def)
qed

lemma node_level:
  assumes "side_ok (own_precedes t) s levels" and "n \<in> set (level_nodes levels)"
  obtains l where "map_of levels (nprice n) = Some l" "n \<in> set (lvl_orders l)" "level_ok s (nprice n) l"
proof -
  from assms(2) obtain p l where pl: "(p, l) \<in> set levels" "n \<in> set (lvl_orders l)"
    by (auto simp: level_nodes_def)
  from assms(1) pl(1) have lok: "level_ok s p l" by (auto simp: side_ok_def)
  have "distinct (map fst levels)" using assms(1) by (auto simp: side_ok_def intro: own.keys_distinct)
  with pl lok level_okD(2) [OF lok pl(2)] show thesis by (intro that) auto
qed

lemma level_ok_erase:
  assumes lok: "level_ok s p l" and ord: "lvl_orders l = xs @ n # ys" and "xs @ ys \<noteq> []"
  shows "level_ok s p (l\<lparr>lvl_total := Quantity (units (lvl_total l) - units (ro_remaining (node_order n))),
                         lvl_orders := xs @ ys\<rparr>)"
proof -
  from lok ord have total: "qnat (lvl_total l) = nrem n + sum_list (map nrem (xs @ ys))"
    by (simp add: level_ok_def)
  then have "qnat (Quantity (units (lvl_total l) - units (ro_remaining (node_order n)))) =
      sum_list (map nrem (xs @ ys))"
    by (simp add: unat_sub_le word_le_nat_alt)
  with assms show ?thesis by (auto simp: level_ok_def sorted_wrt_append)
qed

lemma cancel_resting_shape:
  assumes side: "side_ok (own_precedes t) s levels" and mem: "n \<in> set (level_nodes levels)"
    and addrs: "distinct (map node_addr (level_nodes levels))" and deref: "deref (node_addr n) live = Some (node_order n)"
  obtains A l B xs ys where "levels = A @ (nprice n, l) # B" "lvl_orders l = xs @ n # ys" "level_ok s (nprice n) l"
    "cancel_resting_order levels live (locator_of n) (nid n) =
       Done (if xs @ ys = [] then A @ B
             else A @ (nprice n, l\<lparr>lvl_total := Quantity (units (lvl_total l) - units (ro_remaining (node_order n))), lvl_orders := xs @ ys\<rparr>) # B,
             ro_remaining (node_order n))"
proof -
  obtain l where l: "map_of levels (nprice n) = Some l" "n \<in> set (lvl_orders l)" "level_ok s (nprice n) l"
    by (rule node_level [OF side mem])
  obtain A B where L: "levels = A @ (nprice n, l) # B" "nprice n \<notin> fst ` set A" "nprice n \<notin> fst ` set B"
    by (rule own.side_split [OF side l(1)])
  obtain xs ys where ord: "lvl_orders l = xs @ n # ys" using l(2) by (metis split_list)
  have erase: "list_erase (node_addr n) (lvl_orders l) = xs @ ys"
    using addrs by (simp add: list_erase_def L ord filter_absent)
  have "nrem n \<le> qnat (lvl_total l)" using l(3) ord by (simp add: level_ok_def)
  then have guard: "\<not> units (lvl_total l) < units (ro_remaining (node_order n))" by (simp add: word_less_nat_alt)
  have nz: "units (ro_remaining (node_order n)) \<noteq> 0" using level_okD(3) [OF l(3,2)] by auto
  show thesis
    by (rule that [OF L(1) ord l(3)])
       (use l L erase guard nz deref in \<open>auto simp: cancel_resting_order_def locator_of_def Let_def\<close>)
qed

lemma cancel_resting_effect:
  assumes side: "side_ok (own_precedes t) s levels" and mem: "n \<in> set (level_nodes levels)"
    and addrs: "distinct (map node_addr (level_nodes levels))" and deref: "deref (node_addr n) live = Some (node_order n)"
  shows "\<exists>levels'. cancel_resting_order levels live (locator_of n) (nid n) = Done (levels', ro_remaining (node_order n)) \<and>
           side_ok (own_precedes t) s levels' \<and> fst ` set levels' \<subseteq> fst ` set levels \<and>
           level_nodes levels' = filter (\<lambda>m. node_addr m \<noteq> node_addr n) (level_nodes levels)"
proof (rule cancel_resting_shape [OF assms])
  fix A B xs ys and l :: PriceLevel
  let ?l' = "l\<lparr>lvl_total := Quantity (units (lvl_total l) - units (ro_remaining (node_order n))), lvl_orders := xs @ ys\<rparr>"
  let ?levels = "if xs @ ys = [] then A @ B else A @ (nprice n, ?l') # B"
  assume L: "levels = A @ (nprice n, l) # B" and ord: "lvl_orders l = xs @ n # ys" and lok: "level_ok s (nprice n) l"
    and eq: "cancel_resting_order levels live (locator_of n) (nid n) = Done (?levels, ro_remaining (node_order n))"
  have "side_ok (own_precedes t) s ?levels"
    using side level_ok_erase [OF lok ord] by (auto simp: L side_ok_simps)
  moreover have "fst ` set ?levels \<subseteq> fst ` set levels" by (auto simp: L)
  moreover have "level_nodes ?levels = filter (\<lambda>m. node_addr m \<noteq> node_addr n) (level_nodes levels)"
    using addrs by (simp add: L ord filter_absent)
  ultimately show ?thesis using eq by blast
qed

lemma same_node_iff:
  assumes "book_ok b" and "n \<in> set (live_nodes b)" "m \<in> set (live_nodes b)"
  shows "node_addr m \<noteq> node_addr n \<longleftrightarrow> nid m \<noteq> nid n"
proof -
  have "distinct (map node_addr (live_nodes b))" "distinct (map nid (live_nodes b))"
    using assms(1) by (simp_all add: book_ok_def nodes_ok_def index_ok_def)
  with assms(2,3) show ?thesis by (auto simp: distinct_map dest: inj_onD)
qed

lemma index_ok_delete:
  assumes "index_ok active ns" and "n \<in> set ns"
  shows "index_ok (AList.delete (nid n) active) (filter (\<lambda>m. nid m \<noteq> nid n) ns)"
proof -
  have "set (AList.delete (nid n) active) = index_entry ` set (filter (\<lambda>m. nid m \<noteq> nid n) ns)"
    using assms(1) by (auto simp: AList.delete_eq index_ok_def index_entry_def)
  with assms(1) show ?thesis
    by (simp add: index_ok_def distinct_delete distinct_map_filter)
qed

lemma nodes_ok_filter: "nodes_ok seen a t ns \<Longrightarrow> nodes_ok seen a t (filter P ns)"
  by (auto simp: nodes_ok_def distinct_map_filter)

lemma cancelled_book_ok:
  fixes b n
  defines "s \<equiv> ro_side (node_order n)"
  assumes ok: "book_ok b" and mem: "n \<in> set (live_nodes b)"
    and side: "side_ok (own_precedes s) s levels" and sub: "fst ` set levels \<subseteq> fst ` set (own_levels s b)"
    and nodes: "level_nodes levels = filter (\<lambda>m. nid m \<noteq> nid n) (level_nodes (own_levels s b))"
    and other: "filter (\<lambda>m. nid m \<noteq> nid n) (level_nodes (opposite_levels s b)) = level_nodes (opposite_levels s b)"
  shows "book_ok ((set_own_levels s levels b)\<lparr>active_orders := AList.delete (nid n) (active_orders b)\<rparr>)"
proof -
  let ?b = "(set_own_levels s levels b)\<lparr>active_orders := AList.delete (nid n) (active_orders b)\<rparr>"
  have valid: "is_valid_side s" using nodes_of_side [OF ok mem] by (simp add: s_def)
  with ok have bf: "book_ok_for s b" by (simp add: book_ok_for_iff)
  let ?ns = "level_nodes (own_levels s b) @ level_nodes (opposite_levels s b)"
  have all: "level_nodes levels @ level_nodes (opposite_levels s b) = filter (\<lambda>m. nid m \<noteq> nid n) ?ns"
    by (simp add: nodes other)
  have "n \<in> set ?ns" using mem nodes_of_side(2) [OF ok mem] by (simp add: s_def)
  then have "index_ok (AList.delete (nid n) (active_orders b)) (level_nodes levels @ level_nodes (opposite_levels s b))"
    unfolding all using bf by (intro index_ok_delete) (simp_all add: book_ok_for_def)
  moreover have "nodes_ok (seen_order_ids b) (next_node b) (next_arrival_sequence b)
      (level_nodes levels @ level_nodes (opposite_levels s b))"
    unfolding all using bf by (intro nodes_ok_filter) (simp add: book_ok_for_def)
  moreover have "\<forall>p \<in> fst ` set levels. \<forall>q \<in> fst ` set (opposite_levels s b). \<not> price_crosses s q p"
    using bf sub unfolding book_ok_for_def by blast
  ultimately have "book_ok_for s ?b"
    using bf side by (simp add: book_ok_for_def)
  with valid show ?thesis by (simp add: book_ok_for_iff)
qed

section \<open>cancel and find\<close>

lemma filter_other_side:
  assumes ok: "book_ok b" and mem: "n \<in> set (live_nodes b)"
  shows "filter (\<lambda>m. nid m \<noteq> nid n) (level_nodes (opposite_levels (ro_side (node_order n)) b)) =
           level_nodes (opposite_levels (ro_side (node_order n)) b)"
proof -
  have "book_ok_for (ro_side (node_order n)) b"
    using ok nodes_of_side(1) [OF assms] by (simp add: book_ok_for_iff)
  then have "nid n \<notin> nid ` set (level_nodes (opposite_levels (ro_side (node_order n)) b))"
    using nodes_of_side(2) [OF assms] by (auto simp: book_ok_for_def index_ok_def)
  then show ?thesis by (rule filter_absent)
qed

lemma flat_own_opposite:
  assumes "is_valid_side s" and "level_nodes (own_levels s b') = filter P (level_nodes (own_levels s b))"
    and "level_nodes (opposite_levels s b') = filter P (level_nodes (opposite_levels s b))"
  shows "level_nodes (bids b') = filter P (level_nodes (bids b))" "level_nodes (asks b') = filter P (level_nodes (asks b))"
  using assms by (auto simp: is_valid_side_def own_levels_def opposite_levels_def)

lemma cancel_effect:
  assumes ok: "book_ok b"
  shows "\<exists>b' r. cancel b oid = (b', Done r) \<and> book_ok b' \<and> (flat b', r) = spec_cancel (flat b) oid"
proof (rule lookup_cases [OF ok, of oid])
  assume "map_of (active_orders b) oid = None" "oid \<notin> nid ` set (live_nodes b)"
  then show ?thesis using ok by (simp add: cancel_def spec_cancel_def spec_find_absent)
next
  fix n
  assume n: "n \<in> set (live_nodes b)" "nid n = oid" "map_of (active_orders b) oid = Some (locator_of n)"
  let ?s = "ro_side (node_order n)"
  have valid: "is_valid_side ?s" and mem: "n \<in> set (level_nodes (own_levels ?s b))"
    using nodes_of_side [OF ok n(1)] by simp_all
  with ok have bf: "book_ok_for ?s b" by (simp add: book_ok_for_iff)
  then obtain levels where lv:
    "cancel_resting_order (own_levels ?s b) (live_nodes b) (locator_of n) (nid n) = Done (levels, ro_remaining (node_order n))"
    "side_ok (own_precedes ?s) ?s levels" "fst ` set levels \<subseteq> fst ` set (own_levels ?s b)"
    "level_nodes levels = filter (\<lambda>m. node_addr m \<noteq> node_addr n) (level_nodes (own_levels ?s b))"
    using cancel_resting_effect [OF _ mem _ deref_live [OF ok n(1)], of ?s ?s]
    by (auto simp: book_ok_for_def nodes_ok_def)
  have "set (level_nodes (own_levels ?s b)) \<subseteq> set (live_nodes b)" by (auto simp: own_levels_def live_nodes_def)
  then have nodes: "level_nodes levels = filter (\<lambda>m. nid m \<noteq> nid n) (level_nodes (own_levels ?s b))"
    unfolding lv(4) using same_node_iff [OF ok n(1)] by (intro filter_cong) auto
  let ?b = "(set_own_levels ?s levels b)\<lparr>active_orders := AList.delete (nid n) (active_orders b)\<rparr>"
  have ok': "book_ok ?b"
    by (rule cancelled_book_ok [OF ok n(1) lv(2,3) nodes filter_other_side [OF ok n(1)]])
  then have "cancel b oid = (?b, Done \<lparr>cr_status = Cancelled, cr_cancelled = ro_remaining (node_order n)\<rparr>)"
    using n lv(1) book_ok_invariants_hold by (simp add: cancel_def locator_of_def)
  moreover have "level_nodes (bids ?b) = filter (\<lambda>m. nid m \<noteq> nid n) (level_nodes (bids b))"
    "level_nodes (asks ?b) = filter (\<lambda>m. nid m \<noteq> nid n) (level_nodes (asks b))"
    using flat_own_opposite [OF valid, of ?b _ b] nodes filter_other_side [OF ok n(1)] by simp_all
  then have "(flat ?b, \<lparr>cr_status = Cancelled, cr_cancelled = ro_remaining (node_order n)\<rparr>) = spec_cancel (flat b) oid"
    using spec_find_live [OF ok n(1)] n(2) by (simp add: spec_cancel_def flat_def set_own_levels_def)
  ultimately show ?thesis using ok' by blast
qed

lemma find_effect:
  assumes ok: "book_ok b"
  shows "find_order b oid = Done (map_option view_of (spec_find (flat b) oid))"
proof (rule lookup_cases [OF ok, of oid])
  assume "map_of (active_orders b) oid = None" "oid \<notin> nid ` set (live_nodes b)"
  then show ?thesis by (simp add: find_order_def spec_find_absent)
next
  fix n
  assume n: "n \<in> set (live_nodes b)" "nid n = oid" "map_of (active_orders b) oid = Some (locator_of n)"
  with deref_live [OF ok n(1)] spec_find_live [OF ok n(1)] show ?thesis
    by (simp add: find_order_def locator_of_def)
qed

end
