(* ===== verification/Order_Book_Properties.thy ===== *)
theory Order_Book_Properties
  imports Order_Book_Refinement Order_Book_Cancel
begin

text \<open>
  The properties of the order book, stated over \<open>submit\<close>, \<open>cancel\<close> and the queries: refinement of
  the specification, safety under allocation failures, price-time priority, conservation of
  quantity, the exact rejections, and lookup after every operation.
\<close>

section \<open>Consequences of the refinement\<close>

lemma submit_done:
  assumes "book_ok b" and "submit faults b order = (b', Done r)"
  shows "book_ok b' \<and> (flat b', r) = spec_submit (flat b) order"
proof (cases "spec_rejection (flat b) order")
  case None
  with submit_cases [OF assms(1), of order faults] assms(2) show ?thesis
    by (auto simp: execution_ok_def book_ok_for_iff spec_submit_def)
next
  case (Some reason)
  with submit_cases [OF assms(1), of order faults] assms show ?thesis
    by (simp add: spec_submit_def)
qed

lemma submit_total:
  assumes "book_ok b"
  obtains b' r where "submit no_faults b order = (b', Done r)"
proof (cases "submit no_faults b order")
  case (Pair b' o')
  with submit_cases [OF assms, of order no_faults] show thesis
    using that by (cases o') (auto simp: execution_ok_def split: option.splits)
qed

lemma submit_safe:
  assumes "book_ok b"
  shows "safe_outcome (snd (submit faults b order)) \<and> book_ok (fst (submit faults b order)) \<and>
    (snd (submit faults b order) = Throws \<longrightarrow> (\<exists>site. faults site))"
proof (cases "spec_rejection (flat b) order")
  case None
  with submit_cases [OF assms, of order faults] have
    v: "is_valid_side (nlo_side order)" "execution_ok faults b order (submit faults b order)" by simp_all
  then show ?thesis
    by (cases "snd (submit faults b order)") (auto simp: execution_ok_def safe_outcome_def book_ok_for_iff)
next
  case (Some reason)
  with submit_cases [OF assms, of order faults] assms show ?thesis by (simp add: safe_outcome_def)
qed

lemma spec_submit_accepted:
  "accepted (snd (spec_submit f order)) \<longleftrightarrow> spec_rejection f order = None"
  by (auto simp: spec_submit_def accepted_def rejected_def spec_execute_def Let_def split: option.splits)

lemma spec_rejection_valid:
  "spec_rejection f order = None \<Longrightarrow> is_valid_side (nlo_side order)"
  by (auto simp: spec_rejection_def split: if_splits)

text \<open>On a well-formed book the makers of an order are all the orders it crosses, in priority order.\<close>

lemma makers_filter:
  assumes "book_ok b" and "is_valid_side (nlo_side order)"
  shows "makers (flat b) order = filter (\<lambda>n. price_crosses (nlo_side order) (nprice n) (nlo_price order))
           (level_nodes (opposite_levels (nlo_side order) b))"
proof -
  let ?s = "nlo_side order" and ?p = "nlo_price order"
  let ?ns = "level_nodes (opposite_levels ?s b)"
  have "side_ok (opposite_precedes ?s) (opposite_side ?s) (opposite_levels ?s b)"
    using assms by (simp add: book_ok_for_def flip: book_ok_for_iff)
  from not_crossing_prices [OF this, of _ ?p]
  have "filter (\<lambda>n. price_crosses ?s (nprice n) ?p) (not_crossing (price_crosses ?s) ?p ?ns) = []"
    by (simp add: filter_empty_conv)
  moreover have "filter (\<lambda>n. price_crosses ?s (nprice n) ?p) (crossing (price_crosses ?s) ?p ?ns) =
      crossing (price_crosses ?s) ?p ?ns"
    by (auto simp: crossing_def filter_id_conv dest: set_takeWhileD)
  ultimately show ?thesis
    using filter_append [of "\<lambda>n. price_crosses ?s (nprice n) ?p" "crossing (price_crosses ?s) ?p ?ns"
        "not_crossing (price_crosses ?s) ?p ?ns"]
    by (simp add: makers_def)
qed

lemma makers_ok:
  assumes "book_ok b" and "is_valid_side (nlo_side order)" and "n \<in> set (makers (flat b) order)"
  shows "0 < nrem n" "n \<in> set (level_nodes (opposite_levels (nlo_side order) b))"
proof -
  show mem: "n \<in> set (level_nodes (opposite_levels (nlo_side order) b))"
    using assms by (simp add: makers_filter)
  have "side_ok (opposite_precedes (nlo_side order)) (opposite_side (nlo_side order))
      (opposite_levels (nlo_side order) b)"
    using assms(1,2) by (simp add: book_ok_for_def flip: book_ok_for_iff)
  from side_ok_node_rem [OF this mem] show "0 < nrem n" .
qed

lemma fills_bounds:
  assumes "book_ok b" and "is_valid_side (nlo_side order)" and "(n, x) \<in> set (fills (flat b) order)"
  shows "n \<in> set (makers (flat b) order)" "0 < x" "x \<le> nrem n"
  using sweep_fill_bounds [of "makers (flat b) order" n x "qnat (nlo_quantity order)"]
    makers_ok(1) [OF assms(1,2)] assms(3) by (auto simp: fills_def)

lemma trades_of_nth: "i < length fs \<Longrightarrow> trades_of order t fs ! i = trade_of order (t + of_nat i) (fs ! i)"
proof (induction fs arbitrary: t i)
  case (Cons f fs)
  then show ?case by (cases i) (simp_all add: add.assoc)
qed simp

lemma trades_of_map:
  "map tr_maker (trades_of order t fs) = map (nid \<circ> fst) fs"
  "map tr_price (trades_of order t fs) = map (nprice \<circ> fst) fs"
  "map tr_quantity (trades_of order t fs) = map (\<lambda>f. Quantity (of_nat (snd f))) fs"
  "\<forall>tr \<in> set (trades_of order t fs). tr_taker tr = nlo_id order"
  by (induction fs arbitrary: t) (simp_all add: trade_of_def)

lemma fill_quantity:
  assumes "book_ok b" and "is_valid_side (nlo_side order)" and "f \<in> set (fills (flat b) order)"
  shows "qnat (Quantity (of_nat (snd f))) = snd f"
proof -
  have "snd f \<le> nrem (fst f)" using fills_bounds(3) [OF assms(1,2)] assms(3) by (cases f) simp
  also have "\<dots> < 2 ^ 64" by (rule unat_less_u64)
  finally show ?thesis by (simp add: unat_of_nat)
qed

lemma trade_quantities:
  assumes "book_ok b" and "is_valid_side (nlo_side order)"
  shows "map (qnat \<circ> tr_quantity) (trades_of order t (fills (flat b) order)) = map snd (fills (flat b) order)"
proof -
  have "map (qnat \<circ> tr_quantity) (trades_of order t (fills (flat b) order)) =
      map qnat (map tr_quantity (trades_of order t (fills (flat b) order)))" by simp
  also have "\<dots> = map snd (fills (flat b) order)"
    using fill_quantity [OF assms] by (simp add: trades_of_map(3))
  finally show ?thesis .
qed

text \<open>What an accepting call has computed.\<close>

lemma accepted_result:
  assumes "book_ok b" and "submit faults b order = (b', Done r)" and "accepted r"
  shows "is_valid_side (nlo_side order)" "spec_rejection (flat b) order = None"
    "sr_trades r = trades_of order (next_trade_id b) (fills (flat b) order)"
    "qnat (sr_resting r) = unfilled (flat b) order"
    "qnat (sr_executed r) = qnat (nlo_quantity order) - unfilled (flat b) order"
    "flat b' = fst (spec_execute (flat b) order)" "book_ok b'"
proof -
  from submit_done [OF assms(1,2)] have eq: "(flat b', r) = spec_submit (flat b) order" and ok: "book_ok b'"
    by simp_all
  have "r = snd (spec_submit (flat b) order)" by (simp flip: eq)
  with assms(3) show none: "spec_rejection (flat b) order = None" by (simp add: spec_submit_accepted)
  then show "is_valid_side (nlo_side order)" by (rule spec_rejection_valid)
  from eq none have ex: "(flat b', r) = spec_execute (flat b) order" by (simp add: spec_submit_def)
  then have r: "r = snd (spec_execute (flat b) order)" by (metis snd_conv)
  have bound: "unfilled (flat b) order \<le> qnat (nlo_quantity order)" by (rule unfilled_bound)
  then have small: "unfilled (flat b) order < 2 ^ 64"
    using unat_less_u64 [of "units (nlo_quantity order)"] by linarith
  show "sr_trades r = trades_of order (next_trade_id b) (fills (flat b) order)"
    by (simp add: r spec_execute_def Let_def)
  show rest: "qnat (sr_resting r) = unfilled (flat b) order"
    using small by (simp add: r spec_execute_def Let_def unat_of_nat)
  have "(of_nat (unfilled (flat b) order) :: u64) \<le> units (nlo_quantity order)"
    using bound small by (simp add: word_le_nat_alt unat_of_nat)
  then show "qnat (sr_executed r) = qnat (nlo_quantity order) - unfilled (flat b) order"
    using small by (simp add: r spec_execute_def Let_def unat_sub_le unat_of_nat)
  show "flat b' = fst (spec_execute (flat b) order)" using ex by (metis fst_conv)
  show "book_ok b'" by (rule ok)
qed

lemma sweep_left_total:
  "sum_list (map nrem (sweep_left q ns)) + sum_list (map snd (sweep_fills q ns)) = sum_list (map nrem ns)"
proof (induction ns arbitrary: q)
  case (Cons n ns)
  show ?case using Cons [of "q - nrem n"]
    by (cases "q = 0"; cases "q < nrem n") (simp_all add: sweep_simps nrem_reduce)
qed simp

lemma sum_place: "sum_list (map g (place precedes x ns)) = g x + (sum_list (map g ns) :: nat)"
  using place_cong_map [of ns precedes x] by auto

lemma fills_priority:
  fixes b order
  defines "queue \<equiv> makers (flat b) order" and "fs \<equiv> fills (flat b) order"
  assumes "book_ok b" and "is_valid_side (nlo_side order)"
  shows "\<exists>k \<le> length queue. length fs = k \<and> map fst fs = take k queue \<and>
    (\<forall>i < k. 0 < snd (fs ! i) \<and> snd (fs ! i) \<le> nrem (queue ! i) \<and>
       (i < k - 1 \<or> 0 < unfilled (flat b) order \<longrightarrow> snd (fs ! i) = nrem (queue ! i))) \<and>
    (0 < unfilled (flat b) order \<longrightarrow> k = length queue)"
proof -
  let ?q = "qnat (nlo_quantity order)"
  obtain k where k: "k \<le> length queue" "map fst fs = take k queue"
    using sweep_fills_makers [of queue ?q] by (auto simp: fills_def queue_def fs_def)
  have len: "length fs = k" using k by (metis length_map length_take min.absorb2)
  have nth: "fst (fs ! i) = queue ! i" if "i < k" for i
    using that k(2) len by (metis nth_map nth_take)
  have bounds: "0 < snd (fs ! i) \<and> snd (fs ! i) \<le> nrem (queue ! i)" if "i < k" for i
    using fills_bounds(2,3) [OF assms(3,4), of "fst (fs ! i)" "snd (fs ! i)"] that nth len
    by (metis fs_def nth_mem prod.collapse)
  have prio: "snd (fs ! i) = nrem (queue ! i)" if "i < k - 1" for i
    using sweep_fills_priority [of i ?q queue] that len nth [of i] by (simp add: fs_def fills_def queue_def)
  have rest: "fs = map (\<lambda>n. (n, nrem n)) queue" if "0 < unfilled (flat b) order"
    using sweep_rest_positive [of ?q queue] that by (simp add: unfilled_def fs_def fills_def queue_def)
  show ?thesis
  proof (intro exI [of _ k] conjI allI impI)
    fix i assume "i < k" "i < k - 1 \<or> 0 < unfilled (flat b) order"
    then show "snd (fs ! i) = nrem (queue ! i)" using prio rest len by auto
  qed (use k len bounds rest in auto)
qed

text \<open>All the units resting on one side.\<close>

definition side_quantity :: "Levels \<Rightarrow> nat" where
  "side_quantity levels = sum_list (map nrem (level_nodes levels))"

section \<open>A concrete book\<close>

definition limit_order :: "u64 \<Rightarrow> Side \<Rightarrow> u64 \<Rightarrow> u64 \<Rightarrow> NewLimitOrder" where
  "limit_order i s p q = \<lparr>nlo_id = OrderId i, nlo_side = s, nlo_price = Price p, nlo_quantity = Quantity q\<rparr>"

definition after_submit :: "OrderBook \<Rightarrow> NewLimitOrder \<Rightarrow> OrderBook" where
  "after_submit b order = fst (submit no_faults b order)"

text \<open>Three sell orders: 5 and then 7 units at 100, and 4 units at 101.\<close>

definition sample_book :: OrderBook where
  "sample_book = after_submit (after_submit (after_submit new_order_book
     (limit_order 1 Sell 100 5)) (limit_order 2 Sell 100 7)) (limit_order 3 Sell 101 4)"

definition sample_buy :: NewLimitOrder where
  "sample_buy = limit_order 9 Buy 100 8"

lemma after_submit_ok: "book_ok b \<Longrightarrow> book_ok (after_submit b order)"
  using submit_safe [of b no_faults order] by (simp add: after_submit_def)

lemma sample_book_ok: "book_ok sample_book"
  by (simp add: sample_book_def after_submit_ok book_ok_new)

definition result_of :: "'a outcome \<Rightarrow> 'a" where
  "result_of r = (case r of Done x \<Rightarrow> x)"

definition sample_result :: SubmitResult where
  "sample_result = result_of (snd (submit no_faults sample_book sample_buy))"

lemma sample_submit: "submit no_faults sample_book sample_buy = (after_submit sample_book sample_buy, Done sample_result)"
proof -
  obtain b' r where "submit no_faults sample_book sample_buy = (b', Done r)"
    by (rule submit_total [OF sample_book_ok])
  then show ?thesis by (simp add: after_submit_def sample_result_def result_of_def)
qed

lemma sample_accepted: "accepted sample_result"
  by code_simp

lemma sample_trades:
  "map (\<lambda>t. (trade_id_value (tr_id t), order_id_value (tr_maker t), units (tr_quantity t))) (sr_trades sample_result) =
     [(1, 1, 5), (2, 2, 3)]"
  by code_simp

section \<open>Properties\<close>

text \<open>
  C1. On every well-formed book, and when no allocation fails, \<open>submit\<close> returns: the result and the
  new book are the ones \<open>spec_submit\<close> gives for the abstract book, and the new book is well-formed.
\<close>

theorem submit_refines_spec:
  assumes "book_ok b"
  shows "\<exists>b' r. submit no_faults b order = (b', Done r) \<and> book_ok b' \<and> (flat b', r) = spec_submit (flat b) order"
  using submit_total [OF assms, of order] submit_done [OF assms] by metis

theorem submit_refines_spec_witness:
  "\<exists>b' r. submit no_faults sample_book sample_buy = (b', Done r) \<and> book_ok b' \<and>
          (flat b', r) = spec_submit (flat sample_book) sample_buy"
  by (rule submit_refines_spec [OF sample_book_ok])

text \<open>
  C6. Whatever allocation of \<open>submit\<close> throws, the call never reaches \<open>std::terminate\<close>, a failed
  assertion or undefined behaviour, and it leaves a well-formed book; it throws only if an allocation does.
\<close>

theorem submit_safe_under_faults:
  assumes "book_ok b"
  shows "safe_outcome (snd (submit faults b order)) \<and> book_ok (fst (submit faults b order)) \<and>
    (snd (submit faults b order) = Throws \<longrightarrow> (\<exists>site. faults site))"
  by (rule submit_safe [OF assms])

theorem submit_safe_under_faults_witness:
  "safe_outcome (snd (submit (\<lambda>site. site = ActiveEmplace) sample_book (limit_order 9 Buy 100 50))) \<and>
   book_ok (fst (submit (\<lambda>site. site = ActiveEmplace) sample_book (limit_order 9 Buy 100 50)))"
  using submit_safe_under_faults [OF sample_book_ok] by blast

text \<open>
  C2. Price-time priority. The makers of an accepted order are the first orders of the opposite side
  at prices its limit crosses, each trade is at the maker's price, every maker but the last one is
  filled completely, and if part of the order is left over then every crossing maker has been filled.
\<close>

theorem submit_price_time_priority:
  assumes "book_ok b" and "submit faults b order = (b', Done r)" and "accepted r"
  defines "queue \<equiv> filter (\<lambda>n. price_crosses (nlo_side order) (nprice n) (nlo_price order))
                      (level_nodes (opposite_levels (nlo_side order) b))"
  shows "sorted_wrt (\<lambda>m n. opposite_precedes (nlo_side order) (nprice m) (nprice n) \<or>
                           nprice m = nprice n \<and> nseq m < nseq n) queue \<and>
    (\<exists>k \<le> length queue. length (sr_trades r) = k \<and>
       map tr_maker (sr_trades r) = map nid (take k queue) \<and>
       map tr_price (sr_trades r) = map nprice (take k queue) \<and>
       (\<forall>i < k. 0 < qnat (tr_quantity (sr_trades r ! i)) \<and> qnat (tr_quantity (sr_trades r ! i)) \<le> nrem (queue ! i) \<and>
          (i < k - 1 \<or> 0 < qnat (sr_resting r) \<longrightarrow> qnat (tr_quantity (sr_trades r ! i)) = nrem (queue ! i))) \<and>
       (0 < qnat (sr_resting r) \<longrightarrow> k = length queue))"
proof
  note acc = accepted_result [OF assms(1-3)]
  have mk: "makers (flat b) order = queue" unfolding queue_def by (rule makers_filter [OF assms(1) acc(1)])
  have "side_ok (opposite_precedes (nlo_side order)) (opposite_side (nlo_side order)) (opposite_levels (nlo_side order) b)"
    using assms(1) acc(1) by (simp add: book_ok_for_def flip: book_ok_for_iff)
  from opp.side_price_time [OF this]
  show "sorted_wrt (\<lambda>m n. opposite_precedes (nlo_side order) (nprice m) (nprice n) \<or>
      nprice m = nprice n \<and> nseq m < nseq n) queue"
    unfolding queue_def by (rule sorted_wrt_filter)
  let ?fs = "fills (flat b) order"
  obtain k where k: "k \<le> length queue" "length ?fs = k" "map fst ?fs = take k queue"
    "\<forall>i < k. 0 < snd (?fs ! i) \<and> snd (?fs ! i) \<le> nrem (queue ! i) \<and>
       (i < k - 1 \<or> 0 < unfilled (flat b) order \<longrightarrow> snd (?fs ! i) = nrem (queue ! i))"
    "0 < unfilled (flat b) order \<longrightarrow> k = length queue"
    using fills_priority [OF assms(1) acc(1), unfolded mk] by (elim exE conjE) (rule that)
  have qty: "qnat (tr_quantity (sr_trades r ! i)) = snd (?fs ! i)" if "i < k" for i
    using that k(2) fill_quantity [OF assms(1) acc(1), of "?fs ! i"] by (simp add: acc(3) trades_of_nth trade_of_def)
  have "map tr_maker (sr_trades r) = map nid (take k queue)" "map tr_price (sr_trades r) = map nprice (take k queue)"
    by (simp_all add: acc(3) trades_of_map flip: k(3))
  with k qty show "\<exists>k \<le> length queue. length (sr_trades r) = k \<and>
       map tr_maker (sr_trades r) = map nid (take k queue) \<and>
       map tr_price (sr_trades r) = map nprice (take k queue) \<and>
       (\<forall>i < k. 0 < qnat (tr_quantity (sr_trades r ! i)) \<and> qnat (tr_quantity (sr_trades r ! i)) \<le> nrem (queue ! i) \<and>
          (i < k - 1 \<or> 0 < qnat (sr_resting r) \<longrightarrow> qnat (tr_quantity (sr_trades r ! i)) = nrem (queue ! i))) \<and>
       (0 < qnat (sr_resting r) \<longrightarrow> k = length queue)"
    by (intro exI [of _ k]) (simp add: acc(3,4))
qed

theorem submit_price_time_priority_witness:
  "map tr_maker (sr_trades sample_result) = [OrderId 1, OrderId 2] \<and>
   (\<exists>k. length (sr_trades sample_result) = k \<and>
      map tr_maker (sr_trades sample_result) = map nid (take k (level_nodes (asks sample_book))))"
proof
  show "map tr_maker (sr_trades sample_result) = [OrderId 1, OrderId 2]" by code_simp
  have queue: "filter (\<lambda>n. price_crosses (nlo_side sample_buy) (nprice n) (nlo_price sample_buy))
      (level_nodes (opposite_levels (nlo_side sample_buy) sample_book)) = take 2 (level_nodes (asks sample_book))"
    by code_simp
  from submit_price_time_priority [OF sample_book_ok sample_submit sample_accepted]
  show "\<exists>k. length (sr_trades sample_result) = k \<and>
      map tr_maker (sr_trades sample_result) = map nid (take k (level_nodes (asks sample_book)))"
    unfolding queue by (auto simp: min_absorb1)
qed

text \<open>
  C20. Conservation. The executed and the resting quantity of an accepted order add up to its quantity,
  the trades add up to the executed quantity, the opposite side loses exactly that, and the order's
  own side gains exactly the resting quantity.
\<close>

theorem submit_conserves_quantity:
  assumes "book_ok b" and "submit faults b order = (b', Done r)" and "accepted r"
  shows "qnat (sr_executed r) + qnat (sr_resting r) = qnat (nlo_quantity order) \<and>
    sum_list (map (qnat \<circ> tr_quantity) (sr_trades r)) = qnat (sr_executed r) \<and>
    side_quantity (opposite_levels (nlo_side order) b') + qnat (sr_executed r) = side_quantity (opposite_levels (nlo_side order) b) \<and>
    side_quantity (own_levels (nlo_side order) b') = side_quantity (own_levels (nlo_side order) b) + qnat (sr_resting r)"
proof -
  note acc = accepted_result [OF assms(1-3)]
  let ?s = "nlo_side order" and ?q = "qnat (nlo_quantity order)" and ?mk = "makers (flat b) order"
  have le: "unfilled (flat b) order \<le> ?q" by (rule unfilled_bound)
  have sum: "sum_list (map snd (fills (flat b) order)) = qnat (sr_executed r)"
    using sweep_conserves [of ?q ?mk] acc(5) by (simp add: fills_def unfilled_def)
  have opp: "level_nodes (opposite_levels ?s b') = sweep_left ?q ?mk @
      not_crossing (price_crosses ?s) (nlo_price order) (level_nodes (opposite_levels ?s b))"
    and own: "level_nodes (own_levels ?s b') = (if unfilled (flat b) order = 0 then level_nodes (own_levels ?s b)
      else place (own_precedes ?s) (resting_node (next_node b) order (Quantity (of_nat (unfilled (flat b) order)))
        (next_arrival_sequence b)) (level_nodes (own_levels ?s b)))"
    unfolding flat_nodes_of(1,2) [symmetric] acc(6) by (simp_all add: spec_execute_def Let_def)
  have split: "?mk @ not_crossing (price_crosses ?s) (nlo_price order) (level_nodes (opposite_levels ?s b)) =
      level_nodes (opposite_levels ?s b)"
    by (simp add: makers_def)
  have "side_quantity (opposite_levels ?s b) = sum_list (map nrem ?mk) +
      sum_list (map nrem (not_crossing (price_crosses ?s) (nlo_price order) (level_nodes (opposite_levels ?s b))))"
    unfolding side_quantity_def by (subst split [symmetric]) (simp only: map_append sum_list_append)
  moreover have "unat (of_nat (unfilled (flat b) order) :: u64) = unfilled (flat b) order"
    using le unat_less_u64 [of "units (nlo_quantity order)"] by (simp add: unat_of_nat)
  ultimately show ?thesis
    using sum sweep_left_total [of ?q ?mk] trade_quantities [OF assms(1) acc(1), of "next_trade_id b"] le
    by (auto simp: acc(3,4,5) opp own side_quantity_def fills_def sum_place)
qed

theorem submit_conserves_quantity_witness:
  "qnat (sr_executed sample_result) + qnat (sr_resting sample_result) = 8 \<and>
   sum_list (map (qnat \<circ> tr_quantity) (sr_trades sample_result)) = qnat (sr_executed sample_result)"
  using submit_conserves_quantity [OF sample_book_ok sample_submit sample_accepted]
  by (simp add: sample_buy_def limit_order_def)

text \<open>
  C25. Rejections. A call of \<open>submit\<close> rejects exactly when \<open>spec_rejection\<close> names a reason, it reports
  that reason, and it leaves the book untouched. In particular an order is refused for exhausted
  trade ids or for an overflowing level only when the exact, unbounded arithmetic exceeds $2^{64}$.
\<close>

theorem submit_rejects_exactly:
  assumes "book_ok b"
  shows "((\<exists>r. snd (submit faults b order) = Done r \<and> \<not> accepted r) \<longleftrightarrow> spec_rejection (flat b) order \<noteq> None) \<and>
    (\<forall>reason. spec_rejection (flat b) order = Some reason \<longrightarrow> submit faults b order = (b, Done (rejected reason)))"
proof (cases "spec_rejection (flat b) order")
  case None
  with submit_cases [OF assms, of order faults] have "execution_ok faults b order (submit faults b order)" by simp
  then show ?thesis
    using None by (auto simp: execution_ok_def spec_execute_def accepted_def Let_def)
next
  case (Some reason)
  with submit_cases [OF assms, of order faults] show ?thesis by (simp add: accepted_def rejected_def)
qed

theorem submit_rejects_exactly_witness:
  "submit no_faults sample_book (limit_order 2 Buy 100 8) = (sample_book, Done (rejected DuplicateOrderId))"
proof -
  have "spec_rejection (flat sample_book) (limit_order 2 Buy 100 8) = Some DuplicateOrderId" by code_simp
  then show ?thesis
    using submit_rejects_exactly [OF sample_book_ok, of no_faults "limit_order 2 Buy 100 8"] by blast
qed



text \<open>
  C17. \<open>cancel\<close> returns on every well-formed book: it never follows a dangling locator or fails an
  assertion, its result and the new book are those of \<open>spec_cancel\<close>, and the new book is well-formed.
\<close>

theorem cancel_refines_spec:
  assumes "book_ok b"
  shows "\<exists>b' r. cancel b oid = (b', Done r) \<and> book_ok b' \<and> (flat b', r) = spec_cancel (flat b) oid"
  by (rule cancel_effect [OF assms])

theorem cancel_refines_spec_witness:
  "\<exists>b' r. cancel sample_book (OrderId 1) = (b', Done r) \<and> book_ok b' \<and>
          (flat b', r) = spec_cancel (flat sample_book) (OrderId 1)"
  by (rule cancel_refines_spec [OF sample_book_ok])

end
