(* ===== verification/Order_Book_Queries.thy ===== *)
theory Order_Book_Queries
  imports Order_Book_Properties
begin

text \<open>
  The queries of the order book: what \<open>find\<close> returns after a submission and after a cancellation,
  and that \<open>depth\<close>, \<open>best_bid\<close> and \<open>best_ask\<close> describe the resting orders.
\<close>

section \<open>Lookup after a submission\<close>

text \<open>The units an order has given to the fills of one sweep.\<close>

definition taken :: "OrderId \<Rightarrow> (ListNode \<times> nat) list \<Rightarrow> nat" where
  "taken oid fs = sum_list (map snd (filter (\<lambda>f. nid (fst f) = oid) fs))"

lemma taken_simps [simp]:
  "taken oid [] = 0" "taken oid (f # fs) = (if nid (fst f) = oid then snd f else 0) + taken oid fs"
  by (simp_all add: taken_def)

lemma taken_absent: "oid \<notin> nid ` set ns \<Longrightarrow> taken oid (sweep_fills q ns) = 0"
proof (induction ns arbitrary: q)
  case (Cons n ns)
  then show ?case by (cases "q = 0"; cases "q < nrem n") (auto simp: sweep_simps)
qed simp

lemma reduce_node_0 [simp]: "reduce_node 0 n = n"
  by (cases n) (simp add: reduce_node_def)

text \<open>A maker stays in the book with what is left of it, or is gone when nothing is.\<close>

lemma sweep_left_lookup:
  assumes "distinct (map nid ns)" and "n \<in> set ns" and "\<forall>n \<in> set ns. 0 < nrem n"
  shows "taken (nid n) (sweep_fills q ns) \<le> nrem n \<and>
    (if taken (nid n) (sweep_fills q ns) = nrem n then nid n \<notin> nid ` set (sweep_left q ns)
     else reduce_node (taken (nid n) (sweep_fills q ns)) n \<in> set (sweep_left q ns))"
  using assms
proof (induction ns arbitrary: q)
  case (Cons m ns)
  have ids: "nid ` set (sweep_left q' ns) \<subseteq> nid ` set ns" for q'
  proof -
    obtain k where "map node_key (sweep_left q' ns) = map node_key (drop k ns)"
      using sweep_left_shape [of ns q'] by (auto simp: drop_map)
    from same_keys_map(3) [OF this] show ?thesis by (metis image_mono set_drop_subset set_map)
  qed
  consider (zero) "q = 0" | (part) "0 < q" "q < nrem m" | (full) "0 < q" "nrem m \<le> q" by linarith
  then show ?case
  proof cases
    case zero
    with Cons.prems show ?thesis by auto
  next
    case part
    with Cons.prems show ?thesis by (auto simp: sweep_simps)
  next
    case full
    show ?thesis
    proof (cases "n = m")
      case True
      with Cons.prems full ids [of "q - nrem m"] taken_absent [of "nid m" ns] show ?thesis
        by (auto simp: sweep_simps)
    next
      case False
      with Cons.prems have "n \<in> set ns" "nid m \<noteq> nid n" by auto
      with Cons.IH [of "q - nrem m"] Cons.prems full show ?thesis by (simp add: sweep_simps)
    qed
  qed
qed simp

lemma spec_find_iff:
  assumes "distinct (map nid (flat_nodes f))"
  shows "spec_find f oid = Some r \<longleftrightarrow> (\<exists>n \<in> set (flat_nodes f). nid n = oid \<and> node_order n = r)"
proof (cases "\<exists>n \<in> set (flat_nodes f). nid n = oid")
  case True
  then obtain n where n: "n \<in> set (flat_nodes f)" "nid n = oid" by blast
  have "m = n" if "m \<in> set (flat_nodes f)" "nid m = oid" for m
    using assms n that by (auto simp: distinct_map dest: inj_onD)
  then have "(\<exists>m \<in> set (flat_nodes f). nid m = oid \<and> node_order m = r) \<longleftrightarrow> node_order n = r"
    using n by metis
  moreover have "find (\<lambda>m. nid m = oid) (flat_nodes f) = Some n"
    using find_unique [OF assms n(1)] by (simp only: n(2))
  ultimately show ?thesis by (simp add: spec_find_def)
next
  case False
  then have "oid \<notin> nid ` set (flat_nodes f)" by auto
  from find_none [OF this] False show ?thesis by (auto simp: spec_find_def)
qed

lemma spec_find_none_iff: "spec_find f oid = None \<longleftrightarrow> oid \<notin> nid ` set (flat_nodes f)"
proof
  assume "spec_find f oid = None"
  then show "oid \<notin> nid ` set (flat_nodes f)" by (auto simp: spec_find_def find_None_iff)
next
  assume "oid \<notin> nid ` set (flat_nodes f)"
  from find_none [OF this] show "spec_find f oid = None" by (simp add: spec_find_def)
qed

lemma flat_nodes_sides:
  "is_valid_side s \<Longrightarrow> set (flat_nodes f) = set (own_nodes s f) \<union> set (opposite_nodes s f)"
  by (auto simp: is_valid_side_def flat_nodes_def own_nodes_def opposite_nodes_def)

lemma flat_nodes_flat: "flat_nodes (flat b) = live_nodes b"
  by (simp add: flat_nodes_def flat_def live_nodes_def)

lemma flat_distinct: "book_ok b \<Longrightarrow> distinct (map nid (flat_nodes (flat b)))"
  by (simp add: flat_nodes_flat book_ok_def index_ok_def)

text \<open>The nodes of the book after an accepted submission.\<close>

lemma executed_nodes:
  fixes b order
  defines "s \<equiv> nlo_side order" and "f \<equiv> flat b"
  assumes "is_valid_side s"
  shows "set (flat_nodes (fst (spec_execute f order))) =
    (if unfilled f order = 0 then {} else {resting_node (next_node b) order (Quantity (of_nat (unfilled f order))) (next_arrival_sequence b)}) \<union>
    set (own_nodes s f) \<union> set (sweep_left (qnat (nlo_quantity order)) (makers f order)) \<union>
    set (not_crossing (price_crosses s) (nlo_price order) (opposite_nodes s f))"
  using assms(3) unfolding flat_nodes_sides [OF assms(3)] s_def f_def
  by (auto simp: spec_execute_def Let_def set_place)

text \<open>The units the trades of one submission took from an order.\<close>

definition traded :: "OrderId \<Rightarrow> Trade list \<Rightarrow> nat" where
  "traded oid ts = sum_list (map (qnat \<circ> tr_quantity) (filter (\<lambda>t. tr_maker t = oid) ts))"

definition view_after :: "Trade list \<Rightarrow> OrderId \<Rightarrow> OrderView option \<Rightarrow> OrderView option" where
  "view_after ts oid v =
     (case v of
        None \<Rightarrow> None
      | Some w \<Rightarrow>
          if traded oid ts = qnat (ov_remaining w) then None
          else Some (w\<lparr>ov_remaining := Quantity (units (ov_remaining w) - of_nat (traded oid ts))\<rparr>))"

lemma traded_trades_of:
  assumes "\<forall>f \<in> set fs. qnat (Quantity (of_nat (snd f))) = snd f"
  shows "traded oid (trades_of order t fs) = taken oid fs"
  using assms by (induction fs arbitrary: t) (simp_all add: traded_def taken_def trade_of_def)

lemma view_of_reduce:
  "view_of (node_order (reduce_node x n)) =
     (view_of (node_order n))\<lparr>ov_remaining := Quantity (units (ro_remaining (node_order n)) - of_nat x)\<rparr>"
  by (simp add: view_of_def reduce_node_def)

text \<open>Every order of the old book is in the new one with what the trades left of it.\<close>

lemma executed_lookup:
  fixes b order
  defines "s \<equiv> nlo_side order" and "f \<equiv> flat b"
  assumes ok: "book_ok b" and valid: "is_valid_side s" and ok': "book_ok b'"
    and f': "flat b' = fst (spec_execute f order)" and n: "n \<in> set (live_nodes b)"
  shows "if taken (nid n) (fills f order) = nrem n then nid n \<in> {nlo_id order} \<or> nid n \<notin> nid ` set (live_nodes b')
         else reduce_node (taken (nid n) (fills f order)) n \<in> set (live_nodes b')"
proof -
  let ?mk = "makers f order" and ?nc = "not_crossing (price_crosses s) (nlo_price order) (opposite_nodes s f)"
  let ?q = "qnat (nlo_quantity order)"
  have bf: "book_ok_for s b" using ok valid by (simp add: book_ok_for_iff)
  have split: "opposite_nodes s f = ?mk @ ?nc" by (simp add: makers_def f_def s_def)
  have "distinct (map nid (own_nodes s f @ opposite_nodes s f))"
    using bf by (simp add: book_ok_for_def index_ok_def f_def)
  then have dist: "distinct (map nid (own_nodes s f @ ?mk @ ?nc))" by (subst (asm) split)
  have new: "set (live_nodes b') = (if unfilled f order = 0 then {} else
      {resting_node (next_node b) order (Quantity (of_nat (unfilled f order))) (next_arrival_sequence b)}) \<union>
      set (own_nodes s f) \<union> set (sweep_left ?q ?mk) \<union> set ?nc"
    using executed_nodes [of order b] valid f' by (simp add: s_def f_def flip: flat_nodes_flat)
  have old: "n \<in> set (own_nodes s f) \<or> n \<in> set ?mk \<or> n \<in> set ?nc"
    using n flat_nodes_sides [OF valid, of f] arg_cong [OF split, of set]
    by (simp only: f_def flat_nodes_flat set_append) blast
  have pos: "0 < nrem n" "\<forall>m \<in> set ?mk. 0 < nrem m"
    using makers_ok(1) [OF ok] valid bf n old side_ok_node_rem [of _ s "own_levels s b" n]
      side_ok_node_rem [of _ "opposite_side s" "opposite_levels s b" n] arg_cong [OF split, of set]
    unfolding s_def f_def book_ok_for_def flat_nodes_of set_append by blast+
  show ?thesis
  proof (cases "n \<in> set ?mk")
    case True
    have "nid n \<notin> nid ` set (own_nodes s f) \<union> nid ` set ?nc" using dist True by auto
    with sweep_left_lookup [OF _ True pos(2), of ?q] dist new show ?thesis
      by (auto simp: fills_def image_Un split: if_splits)
  next
    case False
    then have "nid n \<notin> nid ` set ?mk" using dist old by auto
    then have "taken (nid n) (fills f order) = 0" by (simp add: fills_def taken_absent)
    with pos(1) old False new show ?thesis by auto
  qed
qed

text \<open>No other order appears.\<close>

lemma executed_ids:
  assumes ok: "book_ok b" and valid: "is_valid_side (nlo_side order)"
    and f': "flat b' = fst (spec_execute (flat b) order)"
  shows "nid ` set (live_nodes b') \<subseteq> nid ` set (live_nodes b) \<union>
           (if unfilled (flat b) order = 0 then {} else {nlo_id order})"
    and "unfilled (flat b) order \<noteq> 0 \<Longrightarrow> resting_node (next_node b) order
           (Quantity (of_nat (unfilled (flat b) order))) (next_arrival_sequence b) \<in> set (live_nodes b')"
proof -
  let ?s = "nlo_side order" and ?f = "flat b"
  let ?nc = "not_crossing (price_crosses ?s) (nlo_price order) (opposite_nodes ?s ?f)"
  have split: "opposite_nodes ?s ?f = makers ?f order @ ?nc" by (simp add: makers_def)
  obtain k where "map node_key (sweep_left (qnat (nlo_quantity order)) (makers ?f order)) = map node_key (drop k (makers ?f order))"
    using sweep_left_shape [of "makers ?f order" "qnat (nlo_quantity order)"] by (auto simp: drop_map)
  from same_keys_map(3) [OF this]
  have "nid ` set (sweep_left (qnat (nlo_quantity order)) (makers ?f order)) \<subseteq> nid ` set (makers ?f order)"
    by (metis image_mono set_drop_subset set_map)
  moreover have "set (live_nodes b) = set (own_nodes ?s ?f) \<union> (set (makers ?f order) \<union> set ?nc)"
    using flat_nodes_sides [OF valid, of ?f] arg_cong [OF split, of set]
    by (simp only: flat_nodes_flat set_append)
  moreover have new: "set (live_nodes b') = (if unfilled ?f order = 0 then {} else
      {resting_node (next_node b) order (Quantity (of_nat (unfilled ?f order))) (next_arrival_sequence b)}) \<union>
      set (own_nodes ?s ?f) \<union> set (sweep_left (qnat (nlo_quantity order)) (makers ?f order)) \<union> set ?nc"
    using executed_nodes [of order b] valid f' by (simp flip: flat_nodes_flat)
  ultimately show "nid ` set (live_nodes b') \<subseteq> nid ` set (live_nodes b) \<union>
      (if unfilled (flat b) order = 0 then {} else {nlo_id order})"
    by auto
  show "resting_node (next_node b) order (Quantity (of_nat (unfilled (flat b) order))) (next_arrival_sequence b)
      \<in> set (live_nodes b')" if "unfilled (flat b) order \<noteq> 0"
    using new that by simp
qed

lemma find_order_done: "book_ok b \<Longrightarrow> find_order b oid = Done v \<longleftrightarrow> v = map_option view_of (spec_find (flat b) oid)"
  by (auto simp: find_effect)

lemma find_live:
  assumes "book_ok b" and "n \<in> set (live_nodes b)"
  shows "find_order b (nid n) = Done (Some (view_of (node_order n)))"
  using assms by (simp add: find_effect spec_find_live)

lemma find_not_live:
  assumes "book_ok b" and "oid \<notin> nid ` set (live_nodes b)"
  shows "find_order b oid = Done None"
  using assms by (simp add: find_effect spec_find_absent)

lemma find_new_after:
  assumes "book_ok b" and "submit faults b order = (b', Done r)" and "accepted r"
  shows "find_order b' (nlo_id order) = Done
           (if units (sr_resting r) = 0 then None
            else Some \<lparr>ov_id = nlo_id order, ov_side = nlo_side order, ov_price = nlo_price order,
                       ov_original = nlo_quantity order, ov_remaining = sr_resting r\<rparr>)"
proof -
  note acc = accepted_result [OF assms]
  have fresh: "nlo_id order \<notin> nid ` set (live_nodes b)"
    using acc(2) assms(1) by (auto simp: spec_rejection_def book_ok_def nodes_ok_def split: if_splits)
  have rest: "sr_resting r = Quantity (of_nat (unfilled (flat b) order))"
    using acc(4) by (simp flip: qnat_eq_iff remainder_def)
  note ids = executed_ids [OF assms(1) acc(1,6)]
  show ?thesis
  proof (cases "unfilled (flat b) order = 0")
    case True
    with ids(1) fresh have "nlo_id order \<notin> nid ` set (live_nodes b')" by auto
    with True rest show ?thesis by (simp add: find_not_live acc(7))
  next
    case False
    then have "units (sr_resting r) \<noteq> 0" using acc(4) by (metis unat_0)
    with find_live [OF acc(7) ids(2) [OF False]] rest show ?thesis
      by (simp add: view_of_def resting_node_def)
  qed
qed

lemma find_old_after:
  assumes "book_ok b" and "submit faults b order = (b', Done r)" and "accepted r"
    and oid: "oid \<noteq> nlo_id order" and v: "find_order b oid = Done v"
  shows "find_order b' oid = Done (view_after (sr_trades r) oid v)"
proof (cases "oid \<in> nid ` set (live_nodes b)")
  case False
  note acc = accepted_result [OF assms(1-3)]
  from False oid executed_ids(1) [OF assms(1) acc(1,6)]
  have "oid \<notin> nid ` set (live_nodes b')" by (auto split: if_splits)
  with False v show ?thesis by (simp add: find_not_live acc(7) assms(1) view_after_def)
next
  case True
  note acc = accepted_result [OF assms(1-3)]
  from True obtain n where n: "n \<in> set (live_nodes b)" "oid = nid n" by blast
  with v have v': "v = Some (view_of (node_order n))" using find_live [OF assms(1) n(1)] by simp
  have traded: "traded (nid n) (sr_trades r) = taken (nid n) (fills (flat b) order)"
    unfolding acc(3) by (rule traded_trades_of) (use fill_quantity [OF assms(1) acc(1)] in blast)
  note look = executed_lookup [OF assms(1) acc(1,7,6) n(1)]
  show ?thesis
  proof (cases "taken (nid n) (fills (flat b) order) = nrem n")
    case True
    with look n oid have "oid \<notin> nid ` set (live_nodes b')" by auto
    with True v' n(2) show ?thesis by (simp add: find_not_live acc(7) view_after_def traded view_of_def)
  next
    case False
    with look have "reduce_node (taken (nid n) (fills (flat b) order)) n \<in> set (live_nodes b')" by simp
    from find_live [OF acc(7) this] False v' n(2) show ?thesis
      by (simp add: view_of_reduce view_after_def traded) (simp add: view_of_def)
  qed
qed

text \<open>
  Lookup after a submission: the accepted order is found with its resting quantity, or not at all
  when nothing of it rests; every other order is found as before, reduced by what the trades of
  this submission took from it, and is gone exactly when they took all of it.
\<close>

lemma find_after_submit:
  assumes "book_ok b" and "submit faults b order = (b', Done r)" and "accepted r"
  shows "find_order b' (nlo_id order) = Done
           (if units (sr_resting r) = 0 then None
            else Some \<lparr>ov_id = nlo_id order, ov_side = nlo_side order, ov_price = nlo_price order,
                       ov_original = nlo_quantity order, ov_remaining = sr_resting r\<rparr>) \<and>
    (\<forall>oid v. oid \<noteq> nlo_id order \<longrightarrow> find_order b oid = Done v \<longrightarrow>
       find_order b' oid = Done (view_after (sr_trades r) oid v))"
  using find_new_after [OF assms] find_old_after [OF assms] by simp

lemma find_after_submit_sample:
  "find_order (after_submit sample_book sample_buy) (OrderId 9) = Done None \<and>
   find_order (after_submit sample_book sample_buy) (OrderId 1) = Done None \<and>
   find_order (after_submit sample_book sample_buy) (OrderId 2) =
     Done (Some \<lparr>ov_id = OrderId 2, ov_side = Sell, ov_price = Price 100,
                 ov_original = Quantity 7, ov_remaining = Quantity 4\<rparr>)"
proof -
  note find = find_after_submit [OF sample_book_ok sample_submit sample_accepted]
  have id: "nlo_id sample_buy = OrderId 9" by (simp add: sample_buy_def limit_order_def)
  have "units (sr_resting sample_result) = 0" by code_simp
  with find have 9: "find_order (after_submit sample_book sample_buy) (OrderId 9) = Done None" by (simp add: id)
  have "find_order sample_book (OrderId 1) =
      Done (Some \<lparr>ov_id = OrderId 1, ov_side = Sell, ov_price = Price 100, ov_original = Quantity 5, ov_remaining = Quantity 5\<rparr>)"
    by code_simp
  with find have 1: "find_order (after_submit sample_book sample_buy) (OrderId 1) =
      Done (view_after (sr_trades sample_result) (OrderId 1) (Some \<lparr>ov_id = OrderId 1, ov_side = Sell,
        ov_price = Price 100, ov_original = Quantity 5, ov_remaining = Quantity 5\<rparr>))" by (simp add: id)
  have "find_order sample_book (OrderId 2) =
      Done (Some \<lparr>ov_id = OrderId 2, ov_side = Sell, ov_price = Price 100, ov_original = Quantity 7, ov_remaining = Quantity 7\<rparr>)"
    by code_simp
  with find have 2: "find_order (after_submit sample_book sample_buy) (OrderId 2) =
      Done (view_after (sr_trades sample_result) (OrderId 2) (Some \<lparr>ov_id = OrderId 2, ov_side = Sell,
        ov_price = Price 100, ov_original = Quantity 7, ov_remaining = Quantity 7\<rparr>))" by (simp add: id)
  have "traded (OrderId 1) (sr_trades sample_result) = 5" "traded (OrderId 2) (sr_trades sample_result) = 3"
    by code_simp+
  with 9 1 2 show ?thesis by (simp add: view_after_def)
qed

lemma find_filter_id:
  "find (\<lambda>n. nid n = i) (filter (\<lambda>n. nid n \<noteq> oid) ns) = (if i = oid then None else find (\<lambda>n. nid n = i) ns)"
  by (induction ns) auto

text \<open>
  Lookup after a cancellation. The cancelled order is no longer found, every other order is found
  as before, and the call reports \<open>Cancelled\<close> with the remaining quantity exactly for the orders
  that were found.
\<close>

lemma find_after_cancel:
  assumes "book_ok b" and "cancel b oid = (b', Done r)"
  shows "find_order b' oid = Done None \<and>
    (\<forall>i. i \<noteq> oid \<longrightarrow> find_order b' i = find_order b i) \<and>
    find_order b oid \<noteq> Undefined \<and>
    (case find_order b oid of
       Done (Some v) \<Rightarrow> r = \<lparr>cr_status = Cancelled, cr_cancelled = ov_remaining v\<rparr>
     | _ \<Rightarrow> r = \<lparr>cr_status = NotFound, cr_cancelled = Quantity 0\<rparr> \<and> b' = b)"
proof -
  have ok': "book_ok b'" and eq: "(flat b', r) = spec_cancel (flat b) oid"
    using cancel_effect [OF assms(1), of oid] assms(2) by auto
  have find: "spec_find (flat b') i = (if i = oid then None else spec_find (flat b) i)" for i
  proof (cases "spec_find (flat b) oid")
    case None
    with eq show ?thesis by (simp add: spec_cancel_def)
  next
    case (Some o')
    with eq have "flat_nodes (flat b') = filter (\<lambda>n. nid n \<noteq> oid) (flat_nodes (flat b))"
      by (simp add: spec_cancel_def flat_nodes_def)
    then show ?thesis
      by (simp add: spec_find_def find_filter_id)
  qed
  have same: "b' = b" if "spec_find (flat b) oid = None"
    using that assms spec_find_none_iff [of "flat b" oid] lookup_cases [OF assms(1), of oid]
    by (auto simp: cancel_def flat_nodes_flat split: option.splits)
  show ?thesis
    using find eq same
    by (auto simp: find_effect [OF assms(1)] find_effect [OF ok'] spec_cancel_def view_of_def split: option.splits)
qed

section \<open>Depth and quotes\<close>

lemma count_at_level:
  assumes "side_ok (own_precedes t) s levels" and "map_of levels p = Some l"
  shows "length (filter (\<lambda>n. nprice n = p) (level_nodes levels)) = length (lvl_orders l)"
proof -
  obtain xs ys where L: "levels = xs @ (p, l) # ys" "p \<notin> fst ` set xs" "p \<notin> fst ` set ys"
    by (rule own.side_split [OF assms])
  from assms(1) have ok: "side_ok (own_precedes t) s xs" "side_ok (own_precedes t) s ys" "level_ok s p l"
    by (simp_all add: L(1) side_ok_simps)
  have "filter (\<lambda>n. nprice n = p) (level_nodes zs) = []" if "side_ok (own_precedes t) s zs" "p \<notin> fst ` set zs" for zs
    using that side_ok_prices [OF that(1)] by (auto simp: filter_empty_conv)
  moreover have "filter (\<lambda>n. nprice n = p) (lvl_orders l) = lvl_orders l"
    using level_okD(2) [OF ok(3)] by (simp add: filter_True)
  ultimately show ?thesis using ok L by simp
qed

lemma head_price_best:
  assumes "side_ok precedes s ((p, l) # rest)" and "n \<in> set (level_nodes ((p, l) # rest))"
  shows "nprice n = p \<or> precedes p (nprice n)"
proof -
  have "nprice n \<in> insert p (fst ` set rest)" using side_ok_node(2) [OF assms] by simp
  moreover have "\<forall>q \<in> fst ` set rest. precedes p q" using assms(1) by (simp add: side_ok_Cons)
  ultimately show ?thesis by blast
qed

lemma depth_levels:
  assumes "is_valid_side s"
  shows "depth b s m = map (\<lambda>(p, l). \<lparr>plv_price = p, plv_total = lvl_total l,
           plv_count = of_nat (length (lvl_orders l))\<rparr>) (take (unat m) (own_levels s b))"
  using assms by (auto simp: depth_def depth_from_def own_levels_def is_valid_side_def)

lemma view_of_level:
  assumes ok: "book_ok_for s b" and mem: "(p, l) \<in> set (own_levels s b)"
  shows "qnat (lvl_total l) = resting_at p (level_nodes (own_levels s b))"
    "unat (of_nat (length (lvl_orders l)) :: size_t) =
       length (filter (\<lambda>n. nprice n = p) (level_nodes (own_levels s b)))"
proof -
  have side: "side_ok (own_precedes s) s (own_levels s b)" using ok by (simp add: book_ok_for_def)
  then have "distinct (map fst (own_levels s b))" by (auto simp: side_ok_def intro: own.keys_distinct)
  with mem have lookup: "map_of (own_levels s b) p = Some l" by simp
  show "qnat (lvl_total l) = resting_at p (level_nodes (own_levels s b))"
    by (simp add: level_total_resting [OF side lookup])
  have "length (lvl_orders l) \<le> length (level_nodes (own_levels s b))"
    by (simp flip: count_at_level [OF side lookup])
  moreover have "length (level_nodes (own_levels s b)) < 2 ^ 64"
    by (rule distinct_ids_length) (use ok in \<open>auto simp: book_ok_for_def index_ok_def nodes_ok_def\<close>)
  ultimately show "unat (of_nat (length (lvl_orders l)) :: size_t) =
       length (filter (\<lambda>n. nprice n = p) (level_nodes (own_levels s b)))"
    by (simp add: count_at_level [OF side lookup] unat_of_nat)
qed

text \<open>
  \<open>depth\<close> lists the price levels of a side best first, as many as asked for; each view has the
  exact total and number of the resting orders at its price, and no omitted price is better.
\<close>

lemma depth_describes_book:
  assumes "book_ok b" and "is_valid_side s"
  shows "sorted_wrt (own_precedes s) (map plv_price (depth b s m)) \<and>
    length (depth b s m) = min (unat m) (card (nprice ` set (level_nodes (own_levels s b)))) \<and>
    (\<forall>v \<in> set (depth b s m).
       qnat (plv_total v) = resting_at (plv_price v) (level_nodes (own_levels s b)) \<and>
       unat (plv_count v) = length (filter (\<lambda>n. nprice n = plv_price v) (level_nodes (own_levels s b)))) \<and>
    (\<forall>n \<in> set (level_nodes (own_levels s b)). nprice n \<notin> plv_price ` set (depth b s m) \<longrightarrow>
       (\<forall>v \<in> set (depth b s m). own_precedes s (plv_price v) (nprice n)))"
proof -
  let ?L = "own_levels s b" and ?k = "unat m"
  have ok: "book_ok_for s b" using assms by (simp add: book_ok_for_iff)
  then have side: "side_ok (own_precedes s) s ?L" by (simp add: book_ok_for_def)
  then have srt: "sorted_wrt (own_precedes s) (map fst ?L)" by (simp add: side_ok_def)
  have prices: "map plv_price (depth b s m) = take ?k (map fst ?L)"
    by (simp add: depth_levels [OF assms(2)] take_map comp_def case_prod_unfold)
  have "card (nprice ` set (level_nodes ?L)) = length ?L"
    using own.keys_distinct [OF srt] side_ok_prices [OF side] by (metis distinct_card length_map set_map)
  then have len: "length (depth b s m) = min ?k (card (nprice ` set (level_nodes ?L)))"
    by (simp add: depth_levels [OF assms(2)] min.commute)
  have views: "\<forall>v \<in> set (depth b s m).
       qnat (plv_total v) = resting_at (plv_price v) (level_nodes ?L) \<and>
       unat (plv_count v) = length (filter (\<lambda>n. nprice n = plv_price v) (level_nodes ?L))"
    using view_of_level [OF ok] by (auto simp: depth_levels [OF assms(2)] dest!: in_set_takeD)
  have better: "own_precedes s p q" if "p \<in> set (take ?k (map fst ?L))" "q \<in> set (drop ?k (map fst ?L))" for p q
    using srt that by (metis append_take_drop_id sorted_wrt_append)
  have "own_precedes s (plv_price v) (nprice n)"
    if "n \<in> set (level_nodes ?L)" "nprice n \<notin> plv_price ` set (depth b s m)" "v \<in> set (depth b s m)" for n v
  proof (rule better)
    show "plv_price v \<in> set (take ?k (map fst ?L))" using that(3) by (simp flip: prices)
    have "nprice n \<in> set (map fst ?L)" using that(1) side_ok_prices [OF side] by simp
    moreover have "nprice n \<notin> set (take ?k (map fst ?L))" using that(2) by (simp flip: prices)
    ultimately show "nprice n \<in> set (drop ?k (map fst ?L))" by (metis UnE append_take_drop_id set_append)
  qed
  then show ?thesis using srt len views by (simp add: prices sorted_wrt_take)
qed

lemma depth_describes_book_sample:
  "map plv_price (depth sample_book Sell 5) = [Price 100, Price 101] \<and>
   map (qnat \<circ> plv_total) (depth sample_book Sell 5) =
     map (\<lambda>v. resting_at (plv_price v) (level_nodes (own_levels Sell sample_book))) (depth sample_book Sell 5)"
proof
  show "map plv_price (depth sample_book Sell 5) = [Price 100, Price 101]" by code_simp
  show "map (qnat \<circ> plv_total) (depth sample_book Sell 5) =
     map (\<lambda>v. resting_at (plv_price v) (level_nodes (own_levels Sell sample_book))) (depth sample_book Sell 5)"
    using depth_describes_book [OF sample_book_ok, of Sell 5] by (simp add: is_valid_side_def)
qed

text \<open>
  C26. The book is never crossed, and the quotes are the best level of each side: \<open>best_bid\<close> and
  \<open>best_ask\<close> exist exactly when their side has an order, name the best price with the total
  quantity resting there, and the best bid is below the best ask.
\<close>

theorem quotes_not_crossed:
  assumes "book_ok b"
  shows "(best_bid b = None \<longleftrightarrow> level_nodes (bids b) = []) \<and> (best_ask b = None \<longleftrightarrow> level_nodes (asks b) = []) \<and>
    (\<forall>bid. best_bid b = Some bid \<longrightarrow> qnat (q_quantity bid) = resting_at (q_price bid) (level_nodes (bids b)) \<and>
       (\<forall>n \<in> set (level_nodes (bids b)). nprice n \<le> q_price bid)) \<and>
    (\<forall>ask. best_ask b = Some ask \<longrightarrow> qnat (q_quantity ask) = resting_at (q_price ask) (level_nodes (asks b)) \<and>
       (\<forall>n \<in> set (level_nodes (asks b)). q_price ask \<le> nprice n)) \<and>
    (\<forall>bid ask. best_bid b = Some bid \<and> best_ask b = Some ask \<longrightarrow> q_price bid < q_price ask)"
proof -
  have ok: "book_ok_for Buy b" "book_ok_for Sell b" using assms by (simp_all add: book_ok_for_iff is_valid_side_def)
  have own: "own_levels Buy b = bids b" "own_levels Sell b = asks b" by (simp_all add: own_levels_def)
  have sides: "side_ok (\<lambda>a b. a > b) Buy (bids b)" "side_ok (\<lambda>a b. a < b) Sell (asks b)"
    and sep: "\<forall>p \<in> fst ` set (bids b). \<forall>q \<in> fst ` set (asks b). p < q"
    using assms by (simp_all add: book_ok_def)
  have bid: "qnat (lvl_total l) = resting_at p (level_nodes (bids b)) \<and> (\<forall>n \<in> set (level_nodes (bids b)). nprice n \<le> p)"
    if "bids b = (p, l) # rest" for p l rest
    using view_of_level(1) [OF ok(1), of p l] head_price_best [OF sides(1) [unfolded that]]
    by (simp only: own that list.set insertI1) (auto simp: le_less)
  have ask: "qnat (lvl_total l) = resting_at p (level_nodes (asks b)) \<and> (\<forall>n \<in> set (level_nodes (asks b)). p \<le> nprice n)"
    if "asks b = (p, l) # rest" for p l rest
    using view_of_level(1) [OF ok(2), of p l] head_price_best [OF sides(2) [unfolded that]]
    by (simp only: own that list.set insertI1) (auto simp: le_less)
  have "level_nodes (bids b) = [] \<longleftrightarrow> bids b = []" "level_nodes (asks b) = [] \<longleftrightarrow> asks b = []"
    using side_ok_prices [OF sides(1)] side_ok_prices [OF sides(2)] by (metis image_is_empty set_empty)+
  with bid ask sep show ?thesis
    by (auto simp: best_bid_def best_ask_def split: list.splits prod.splits)
qed

theorem quotes_not_crossed_witness:
  "best_ask sample_book = Some \<lparr>q_price = Price 100, q_quantity = Quantity 12\<rparr> \<and>
   resting_at (Price 100) (level_nodes (asks sample_book)) = 12"
proof
  show ask: "best_ask sample_book = Some \<lparr>q_price = Price 100, q_quantity = Quantity 12\<rparr>" by code_simp
  show "resting_at (Price 100) (level_nodes (asks sample_book)) = 12"
    using quotes_not_crossed [OF sample_book_ok] by (auto simp: ask)
qed

end
