(* ===== verification/Order_Book_Runs.thy ===== *)
theory Order_Book_Runs
  imports Order_Book_Queries
begin

text \<open>
  Histories of an order book: every sequence of submissions and cancellations from the empty book,
  allocation failures included, with the trades the calls returned and the ids they accepted.
\<close>

section \<open>Histories\<close>

inductive book_run :: "Trade list \<Rightarrow> OrderId list \<Rightarrow> OrderBook \<Rightarrow> bool" where
  run_new: "book_run [] [] new_order_book"
| run_submit: "book_run ts ids b \<Longrightarrow> submit faults b order = (b', Done r) \<Longrightarrow>
    book_run (ts @ sr_trades r) (if accepted r then ids @ [nlo_id order] else ids) b'"
| run_throw: "book_run ts ids b \<Longrightarrow> submit faults b order = (b', Throws) \<Longrightarrow> book_run ts ids b'"
| run_cancel: "book_run ts ids b \<Longrightarrow> cancel b oid = (b', r) \<Longrightarrow> book_run ts ids b'"

lemma book_run_ok: "book_run ts ids b \<Longrightarrow> book_ok b"
proof (induction rule: book_run.induct)
  case run_new
  show ?case by (rule book_ok_new)
next
  case (run_submit ts ids b faults order b' r)
  with submit_safe [of b faults order] show ?case by simp
next
  case (run_throw ts ids b faults order b')
  with submit_safe [of b faults order] show ?case by simp
next
  case (run_cancel ts ids b oid b' r)
  with cancel_effect [of b oid] show ?case by auto
qed

section \<open>What the operations do to the counters\<close>

text \<open>The next trade id after a number of trades; \<open>0\<close> means that the ids are used up.\<close>

lemma next_trade_id_cases:
  assumes "issue_loop n t" and "t' = t + of_nat n"
  shows "t' = 0 \<or> t \<le> t' \<and> unat t' = unat t + n"
proof (cases "n = 0")
  case True
  with assms(2) show ?thesis by simp
next
  case False
  with assms(1) have le: "unat t + n \<le> 2 ^ 64" by (simp add: issue_loop_iff)
  show ?thesis
  proof (cases "unat t + n = 2 ^ 64")
    case True
    have "t' = of_nat (unat t + n)" by (simp add: assms(2))
    also have "\<dots> = 0" unfolding True by (simp add: word_unat_eq_iff unat_of_nat)
    finally show ?thesis by simp
  next
    case False
    with le have "unat t' = unat t + n"
      by (simp add: assms(2) unat_word_ariths unat_of_nat)
    then show ?thesis by (simp add: word_le_nat_alt)
  qed
qed

definition later :: "u64 \<Rightarrow> u64 \<Rightarrow> bool" where
  "later t t' \<longleftrightarrow> t' = t \<or> t \<noteq> 0 \<and> (t' = 0 \<or> t \<le> t')"

lemma later_issued: "issue_loop n t \<Longrightarrow> later t (t + of_nat n)"
  using next_trade_id_cases [of n t] by (cases "n = 0") (auto simp: later_def issue_loop_iff)

text \<open>The ids handed out so far are increasing and below the next one.\<close>

definition ids_below :: "Trade list \<Rightarrow> u64 \<Rightarrow> bool" where
  "ids_below ts t \<longleftrightarrow>
     sorted_wrt (<) (map tr_id ts) \<and> (t \<noteq> 0 \<longrightarrow> (\<forall>tr \<in> set ts. tr_id tr < TradeId t))"

lemma ids_below_later: "ids_below ts t \<Longrightarrow> later t t' \<Longrightarrow> ids_below ts t'"
  by (force simp: ids_below_def later_def less_TradeId_def)

lemma trades_of_ids:
  assumes "issue_loop (length fs) t"
  shows "ids_below (trades_of order t fs) (t + of_nat (length fs)) \<and>
    (\<forall>tr \<in> set (trades_of order t fs). TradeId t \<le> tr_id tr)"
proof -
  have id: "unat (trade_id_value (tr_id (trades_of order t fs ! i))) = unat t + i" if "i < length fs" for i
  proof -
    have "unat t + i < 2 ^ 64" using that assms by (auto simp: issue_loop_iff)
    with that show ?thesis by (simp add: trades_of_nth trade_of_def unat_word_ariths unat_of_nat)
  qed
  have "sorted_wrt (<) (map tr_id (trades_of order t fs))"
    by (simp add: sorted_wrt_iff_nth_less less_TradeId_def word_less_nat_alt id)
  moreover have "tr_id (trades_of order t fs ! i) < TradeId (t + of_nat (length fs))"
    if "i < length fs" "t + of_nat (length fs) \<noteq> 0" for i
    using next_trade_id_cases [OF assms refl] that by (simp add: less_TradeId_def word_less_nat_alt id)
  moreover have "TradeId t \<le> tr_id (trades_of order t fs ! i)" if "i < length fs" for i
    using that by (simp add: less_eq_TradeId_def word_le_nat_alt id)
  ultimately show ?thesis by (auto simp: ids_below_def in_set_conv_nth)
qed

lemma ids_below_append:
  assumes "ids_below ts t" and "issue_loop (length fs) t"
  shows "ids_below (ts @ trades_of order t fs) (t + of_nat (length fs))"
proof (cases "fs = []")
  case True
  with assms(1) show ?thesis by simp
next
  case False
  with assms(2) have "t \<noteq> 0" by (simp add: issue_loop_iff)
  with assms(1) have "\<forall>tr \<in> set ts. tr_id tr < TradeId t" by (simp add: ids_below_def)
  moreover have "ids_below ts (t + of_nat (length fs))"
    by (rule ids_below_later [OF assms(1) later_issued [OF assms(2)]])
  ultimately show ?thesis
    using trades_of_ids [OF assms(2), of order]
    by (auto simp: ids_below_def sorted_wrt_append intro: less_le_trans)
qed

lemma spec_rejection_none:
  assumes "spec_rejection (flat b) order = None"
  shows "issue_loop (length (fills (flat b) order)) (next_trade_id b)" "nlo_id order \<notin> seen_order_ids b"
  using assms by (auto simp: spec_rejection_def issue_loop_iff split: if_splits)

lemma flat_fields:
  "flat b' = f \<Longrightarrow> next_trade_id b' = fb_trade_id f \<and> seen_order_ids b' = fb_seen f"
  by (auto simp: flat_def)

lemma submit_accept_counters:
  assumes "book_ok b" and "submit faults b order = (b', Done r)" and "accepted r"
  shows "next_trade_id b' = next_trade_id b + of_nat (length (fills (flat b) order))"
    "seen_order_ids b' = insert (nlo_id order) (seen_order_ids b)"
  using flat_fields [OF accepted_result(6) [OF assms]] by (simp_all add: spec_execute_def Let_def)

lemma submit_throw_counters:
  assumes "book_ok b" and "submit faults b order = (b', Throws)"
  shows "later (next_trade_id b) (next_trade_id b')" "seen_order_ids b \<subseteq> seen_order_ids b'"
proof -
  have none: "spec_rejection (flat b) order = None"
    using submit_cases [OF assms(1), of order faults] assms(2) by (auto split: option.splits)
  then have ex: "b' = b \<or> (\<exists>addr. flat b' = spec_interrupted (flat b) order addr)"
    using submit_cases [OF assms(1), of order faults] assms(2) by (auto simp: execution_ok_def)
  then have "later (next_trade_id b) (next_trade_id b') \<and> seen_order_ids b \<subseteq> seen_order_ids b'"
  proof (elim disjE exE)
    fix addr assume "flat b' = spec_interrupted (flat b) order addr"
    from flat_fields [OF this] later_issued [OF spec_rejection_none(1) [OF none]] show ?thesis
      by (simp add: spec_interrupted_def Let_def subset_insertI)
  qed (simp add: later_def)
  then show "later (next_trade_id b) (next_trade_id b')" "seen_order_ids b \<subseteq> seen_order_ids b'"
    by simp_all
qed

lemma cancel_counters:
  assumes "book_ok b" and "cancel b oid = (b', r)"
  shows "next_trade_id b' = next_trade_id b" "seen_order_ids b' = seen_order_ids b"
proof -
  obtain r' where "(flat b', r') = spec_cancel (flat b) oid"
    using cancel_effect [OF assms(1), of oid] assms(2) by auto
  then have "flat b' = fst (spec_cancel (flat b) oid)" by (metis fst_conv)
  from flat_fields [OF this] show "next_trade_id b' = next_trade_id b" "seen_order_ids b' = seen_order_ids b"
    by (simp_all add: spec_cancel_def split: option.splits)
qed

section \<open>Properties of histories\<close>

lemma book_run_history:
  "book_run ts ids b \<Longrightarrow> ids_below ts (next_trade_id b) \<and> distinct ids \<and> set ids \<subseteq> seen_order_ids b"
proof (induction rule: book_run.induct)
  case run_new
  then show ?case by (simp add: ids_below_def new_order_book_def)
next
  case (run_submit ts ids b faults order b' r)
  have ok: "book_ok b" by (rule book_run_ok [OF run_submit.hyps(1)])
  show ?case
  proof (cases "accepted r")
    case True
    note acc = accepted_result [OF ok run_submit.hyps(2) True]
    note cnt = submit_accept_counters [OF ok run_submit.hyps(2) True]
    show ?thesis
      using run_submit.IH True ids_below_append [OF _ spec_rejection_none(1) [OF acc(2)], of ts order]
        spec_rejection_none(2) [OF acc(2)] by (auto simp: acc(3) cnt)
  next
    case False
    have "\<exists>reason. spec_rejection (flat b) order = Some reason"
      using submit_done [OF ok run_submit.hyps(2)] False spec_submit_accepted [of "flat b" order]
      by (metis not_None_eq snd_conv)
    then have "b' = b" "sr_trades r = []"
      using submit_cases [OF ok, of order faults] run_submit.hyps(2) by (auto simp: rejected_def)
    with run_submit.IH False show ?thesis by simp
  qed
next
  case (run_throw ts ids b faults order b')
  with submit_throw_counters [OF book_run_ok [OF run_throw.hyps(1)] run_throw.hyps(2)] ids_below_later
  show ?case by blast
next
  case (run_cancel ts ids b oid b' r)
  with cancel_counters [OF book_run_ok [OF run_cancel.hyps(1)] run_cancel.hyps(2)] show ?case by simp
qed

text \<open>
  C24. In every history of an order book, the trade ids that were reported increase strictly, and no
  order id is accepted twice, not even after the order was filled or cancelled.
\<close>

theorem history_ids_unique:
  assumes "book_run ts ids b"
  shows "sorted_wrt (<) (map tr_id ts) \<and> distinct ids"
  using book_run_history [OF assms] by (simp add: ids_below_def)

theorem history_ids_unique_witness:
  "\<exists>ids. sorted_wrt (<) (map tr_id (sr_trades sample_result)) \<and> length (sr_trades sample_result) = 2 \<and> distinct ids \<and>
     book_run (sr_trades sample_result) ids (after_submit sample_book sample_buy)"
proof -
  have step: "\<exists>ids'. book_run ts ids' (after_submit b order)"
    if run: "book_run ts ids b" and no: "sr_trades (result_of (snd (submit no_faults b order))) = []" for ts ids b order
  proof -
    obtain b' r where s: "submit no_faults b order = (b', Done r)" by (rule submit_total [OF book_run_ok [OF run]])
    from run_submit [OF run s] no s show ?thesis by (auto simp: after_submit_def result_of_def)
  qed
  let ?b1 = "after_submit new_order_book (limit_order 1 Sell 100 5)"
  let ?b2 = "after_submit ?b1 (limit_order 2 Sell 100 7)"
  have "sr_trades (result_of (snd (submit no_faults new_order_book (limit_order 1 Sell 100 5)))) = []" by code_simp
  then obtain i1 where "book_run [] i1 ?b1" using step [OF run_new] by blast
  moreover have "sr_trades (result_of (snd (submit no_faults ?b1 (limit_order 2 Sell 100 7)))) = []" by code_simp
  ultimately obtain i2 where "book_run [] i2 ?b2" using step by blast
  moreover have "sr_trades (result_of (snd (submit no_faults ?b2 (limit_order 3 Sell 101 4)))) = []" by code_simp
  ultimately obtain i3 where "book_run [] i3 sample_book" using step unfolding sample_book_def by blast
  from run_submit [OF this sample_submit] obtain i4 where
    run: "book_run (sr_trades sample_result) i4 (after_submit sample_book sample_buy)" by auto
  moreover have "length (sr_trades sample_result) = 2" by code_simp
  ultimately show ?thesis using history_ids_unique [OF run] by blast
qed

text \<open>
  C21. Every state of every history passes the code's own consistency check \<open>invariants_hold\<close>, and from
  every such state \<open>submit\<close>, \<open>cancel\<close> and \<open>find\<close> are safe: no \<open>std::terminate\<close>, no failed
  assertion, no dangling iterator.
\<close>

theorem history_always_safe:
  assumes "book_run ts ids b"
  shows "invariants_hold b \<and> safe_outcome (snd (submit faults b order)) \<and>
    (\<exists>r. snd (cancel b oid) = Done r) \<and> (\<exists>v. find_order b oid = Done v)"
proof -
  have ok: "book_ok b" by (rule book_run_ok [OF assms])
  obtain b' r where "cancel b oid = (b', Done r)" using cancel_effect [OF ok, of oid] by blast
  with ok submit_safe [OF ok, of faults order] show ?thesis
    by (simp add: book_ok_invariants_hold find_effect)
qed

theorem history_always_safe_witness:
  "invariants_hold new_order_book \<and> safe_outcome (snd (submit no_faults new_order_book sample_buy))"
  using history_always_safe [OF run_new] by blast

text \<open>
  C27. The consistency check is exact: on any book whose index has no duplicate keys, \<open>invariants_hold\<close>
  returns true exactly when both sides are well-formed and uncrossed, the index maps every resting
  order to its node and contains nothing else, and every resting id has been seen.
\<close>

theorem invariants_hold_exact:
  assumes "distinct (map fst (active_orders b))"
  shows "invariants_hold b \<longleftrightarrow>
    side_ok (\<lambda>a b. a > b) Buy (bids b) \<and> side_ok (\<lambda>a b. a < b) Sell (asks b) \<and>
    (\<forall>p \<in> fst ` set (bids b). \<forall>q \<in> fst ` set (asks b). p < q) \<and>
    index_ok (active_orders b) (live_nodes b) \<and> nid ` set (live_nodes b) \<subseteq> seen_order_ids b"
  by (rule invariants_hold_iff [OF assms])

theorem invariants_hold_exact_witness:
  "\<not> invariants_hold (sample_book\<lparr>active_orders := []\<rparr>) \<and>
   \<not> index_ok [] (live_nodes (sample_book\<lparr>active_orders := []\<rparr>))"
proof -
  let ?b = "sample_book\<lparr>active_orders := []\<rparr>"
  have "length (live_nodes ?b) = 3" by code_simp
  then have "\<not> index_ok [] (live_nodes ?b)" using index_ok_length by fastforce
  then show ?thesis using invariants_hold_exact [of ?b] by simp
qed

end
