(* ===== verification/Byte_Codec.thy ===== *)
theory Byte_Codec
  imports Market_Types
begin

text \<open>
  Big-endian integers in byte sequences, shared by the journal and the wire codec. \<open>be_bytes\<close> and
  \<open>be_value\<close> are the reference encoding; the locale \<open>big_endian\<close> is what a codec's \<open>append_uN\<close> and
  \<open>read_uN\<close> promise, and both codecs interpret it at each width. Reading outside the span is
  \<open>Undefined\<close>, so that a decoder that is shown to return has read only bytes it was given.
\<close>

section \<open>Access to a span\<close>

definition byte_at :: "byte list \<Rightarrow> nat \<Rightarrow> byte outcome" where
  "byte_at bytes i = (if i < length bytes then Done (bytes ! i) else Undefined)"

definition subspan :: "byte list \<Rightarrow> nat \<Rightarrow> nat \<Rightarrow> byte list outcome" where
  "subspan bytes offset count =
     (if offset \<le> length bytes \<and> count \<le> length bytes - offset
      then Done (take count (drop offset bytes)) else Undefined)"

fun obind :: "'a outcome \<Rightarrow> ('a \<Rightarrow> 'b outcome) \<Rightarrow> 'b outcome" where
  "obind (Done x) f = f x"
| "obind Throws f = Throws"
| "obind Terminates f = Terminates"
| "obind Undefined f = Undefined"

lemma obind_Done [simp]: "obind r Done = r"
  by (cases r) simp_all

lemma obind_assoc: "obind (obind r f) g = obind r (\<lambda>x. obind (f x) g)"
  by (cases r) simp_all

lemma obind_eq_Done: "obind r f = Done y \<longleftrightarrow> (\<exists>x. r = Done x \<and> f x = Done y)"
  by (cases r) simp_all

lemma subspan_prefix:
  "offset + count \<le> length bytes \<Longrightarrow> subspan (bytes @ tail) offset count = subspan bytes offset count"
  by (simp add: subspan_def)

text \<open>
  A decoder's verdict on a prefix of the input is settled when it is not the error \<open>e\<close> that asks for
  more bytes: then the verdict on the whole input is the same.
\<close>

definition settled :: "'e \<Rightarrow> ('e + 'a) outcome \<Rightarrow> ('e + 'a) outcome \<Rightarrow> bool" where
  "settled e r r' \<longleftrightarrow> r = Done (Inl e) \<or> r' = r"

lemma settled_refl: "settled e r r"
  by (simp add: settled_def)

lemma settled_asks [simp]: "settled e (Done (Inl e)) r"
  by (simp add: settled_def)

lemma settled_more:
  "(b' \<Longrightarrow> b) \<Longrightarrow> (\<not> b \<Longrightarrow> settled e x x') \<Longrightarrow>
   settled e (if b then Done (Inl e) else x) (if b' then Done (Inl e) else x')"
  by (auto simp: settled_def)

lemma settled_if:
  "(c \<Longrightarrow> settled e y y') \<Longrightarrow> (\<not> c \<Longrightarrow> settled e x x') \<Longrightarrow>
   settled e (if c then y else x) (if c then y' else x')"
  by simp

lemma settled_bind: "r' = r \<Longrightarrow> (\<And>v. r = Done v \<Longrightarrow> settled e (f v) (f' v)) \<Longrightarrow> settled e (obind r f) (obind r' f')"
  by (cases r) (simp_all add: settled_def)

lemma settled_option:
  "settled e x x' \<Longrightarrow> (\<And>v. settled e (f v) (f' v)) \<Longrightarrow>
   settled e (case v of None \<Rightarrow> x | Some v \<Rightarrow> f v) (case v of None \<Rightarrow> x' | Some v \<Rightarrow> f' v)"
  by (simp split: option.split)

section \<open>The reference encoding\<close>

definition be_bytes :: "nat \<Rightarrow> 'a::len word \<Rightarrow> byte list" where
  "be_bytes n v = map (\<lambda>i. ucast (drop_bit (8 * i) v)) (rev [0..<n])"

definition be_push :: "'a::len word \<Rightarrow> byte \<Rightarrow> 'a word" where
  "be_push v b = (push_bit 8 v) OR ucast b"

definition be_value :: "byte list \<Rightarrow> 'a::len word" where
  "be_value bytes = foldl be_push 0 bytes"

lemma length_be_bytes [simp]: "length (be_bytes n v) = n"
  by (simp add: be_bytes_def)

lemma be_bytes_0 [simp]: "be_bytes 0 v = []"
  by (simp add: be_bytes_def)

lemma be_bytes_Suc: "be_bytes (Suc n) v = be_bytes n (drop_bit 8 v) @ [ucast v]"
proof -
  have "rev [0..<Suc n] = map Suc (rev [0..<n]) @ [0]"
    by (simp flip: rev_map add: map_Suc_upt upt_conv_Cons)
  then show ?thesis by (simp add: be_bytes_def comp_def add.commute)
qed

lemma be_bytes_top: "be_bytes (Suc n) v = ucast (drop_bit (8 * n) v) # be_bytes n v"
  by (simp add: be_bytes_def)

lemma be_value_snoc: "be_value (bs @ [b]) = be_push (be_value bs) b"
  by (simp add: be_value_def)

lemma be_push_drop: "be_push (drop_bit 8 v) (ucast v) = v"
  by (rule bit_word_eqI)
     (auto simp: be_push_def bit_or_iff bit_push_bit_iff bit_drop_bit_eq bit_ucast_iff not_le)

lemma be_value_bytes_drop:
  fixes v :: "'a::len word"
  shows "be_value (be_bytes n v) = (if LENGTH('a) \<le> 8 * n then v else take_bit (8 * n) v)"
proof (induction n arbitrary: v)
  case 0
  then show ?case by (simp add: be_value_def)
next
  case (Suc n)
  have "be_value (be_bytes (Suc n) v) = be_push (be_value (be_bytes n (drop_bit 8 v))) (ucast v)"
    by (simp add: be_bytes_Suc be_value_snoc)
  also have "\<dots> = (if LENGTH('a) \<le> 8 * Suc n then v else take_bit (8 * Suc n) v)"
    unfolding Suc
    by (rule bit_word_eqI)
       (auto simp: be_push_def bit_or_iff bit_push_bit_iff bit_drop_bit_eq bit_ucast_iff bit_take_bit_iff not_le)
  finally show ?case .
qed

lemma be_value_bytes: "LENGTH('a) = 8 * n \<Longrightarrow> be_value (be_bytes n v) = (v :: 'a::len word)"
  by (simp add: be_value_bytes_drop)

lemma be_bytes_value:
  fixes bs :: "byte list"
  assumes "8 * length bs \<le> LENGTH('a)"
  shows "be_bytes (length bs) (be_value bs :: 'a::len word) = bs \<and>
         (\<forall>i. bit (be_value bs :: 'a word) i \<longrightarrow> i < 8 * length bs)"
  using assms
proof (induction bs rule: rev_induct)
  case Nil
  then show ?case by (simp add: be_value_def)
next
  case (snoc b bs)
  let ?v = "be_value bs :: 'a word"
  from snoc have IH: "be_bytes (length bs) ?v = bs" "\<forall>i. bit ?v i \<longrightarrow> i < 8 * length bs" by simp_all
  have "drop_bit 8 (be_push ?v b) = ?v"
    using IH(2) snoc.prems
    by (intro bit_word_eqI)
       (auto simp: be_push_def bit_or_iff bit_push_bit_iff bit_drop_bit_eq bit_ucast_iff dest: bit_imp_le_length)
  moreover have "ucast (be_push ?v b) = b"
    using snoc.prems
    by (intro bit_word_eqI)
       (auto simp: be_push_def bit_or_iff bit_push_bit_iff bit_ucast_iff dest: bit_imp_le_length)
  moreover have "i < 8 * length (bs @ [b])" if "bit (be_push ?v b) i" for i
    using that IH(2) [rule_format, of "i - 8"] bit_imp_le_length [of b i]
    by (auto simp: be_push_def bit_or_iff bit_push_bit_iff bit_ucast_iff)
  ultimately show ?case using IH(1) by (simp add: be_value_snoc be_bytes_Suc)
qed

section \<open>The interface of a codec\<close>

text \<open>What \<open>append_uN\<close> and \<open>read_uN\<close> of a codec promise for one width of \<open>width\<close> bytes.\<close>

locale big_endian =
  fixes append_word :: "byte list \<Rightarrow> 'a::len word \<Rightarrow> byte list"
    and read_word :: "byte list \<Rightarrow> nat \<Rightarrow> 'a word outcome"
    and width :: nat
  assumes width: "LENGTH('a) = 8 * width"
    and append_word: "append_word bytes v = bytes @ be_bytes width v"
    and read_word: "read_word bytes offset =
      (if offset + width \<le> length bytes then Done (be_value (take width (drop offset bytes))) else Undefined)"
begin

lemma read_in_range: "offset + width \<le> length bytes \<Longrightarrow> \<exists>v. read_word bytes offset = Done v"
  by (simp add: read_word)

lemma read_encoded:
  "length xs = offset \<Longrightarrow> read_word (xs @ be_bytes width v @ ys) offset = Done v"
  by (simp add: read_word be_value_bytes [OF width])

lemma read_append: "length xs = offset \<Longrightarrow> read_word (append_word xs v @ ys) offset = Done v"
  by (simp add: append_word read_encoded)

lemma read_prefix: "offset + width \<le> length bytes \<Longrightarrow> read_word (bytes @ tail) offset = read_word bytes offset"
  by (simp add: read_word)

lemma read_determines:
  assumes "read_word bytes offset = Done v"
  shows "take width (drop offset bytes) = be_bytes width v" "offset + width \<le> length bytes"
proof -
  show le: "offset + width \<le> length bytes" using assms by (simp add: read_word split: if_splits)
  then have len: "length (take width (drop offset bytes)) = width" by simp
  from assms le have v: "v = be_value (take width (drop offset bytes))" by (simp add: read_word)
  have "8 * length (take width (drop offset bytes)) \<le> LENGTH('a)" using len width by simp
  from be_bytes_value [OF this] len show "take width (drop offset bytes) = be_bytes width v" by (simp add: v)
qed

end

section \<open>The reading loop\<close>

text \<open>\<open>value = (value << 8) | byte\<close> for the next \<open>n\<close> bytes, as both codecs read integers.\<close>

fun read_loop :: "byte list \<Rightarrow> nat \<Rightarrow> nat \<Rightarrow> 'a::len word \<Rightarrow> 'a word outcome" where
  "read_loop bytes offset 0 value = Done value"
| "read_loop bytes offset (Suc n) value =
     obind (byte_at bytes offset)
       (\<lambda>b. read_loop bytes (Suc offset) n ((push_bit 8 value) OR ucast b))"

lemma read_loop_eq:
  "0 < n \<Longrightarrow> read_loop bytes offset n v =
     (if offset + n \<le> length bytes then Done (foldl be_push v (take n (drop offset bytes))) else Undefined)"
proof (induction n arbitrary: offset v)
  case (Suc n)
  show ?case
  proof (cases "offset < length bytes")
    case True
    then have drop: "drop offset bytes = bytes ! offset # drop (Suc offset) bytes" by (simp add: Cons_nth_drop_Suc)
    have "read_loop bytes offset (Suc n) v = read_loop bytes (Suc offset) n (be_push v (bytes ! offset))"
      using True by (simp add: byte_at_def be_push_def)
    with True drop Suc.IH [of "Suc offset" "be_push v (bytes ! offset)"] show ?thesis
      by (cases "n = 0") simp_all
  next
    case False
    then show ?thesis by (simp add: byte_at_def)
  qed
qed simp

end
