(* ===== verification/Reference_Order_Book.thy ===== *)
theory Reference_Order_Book
  imports Order_Book_Queries Byte_Codec
begin

text \<open>
  The order book that the tests compare the production one with: \<open>ReferenceOrderBook\<close> of
  \<^verbatim>\<open>tests/reference_order_book.hpp\<close>, which keeps its orders in plain queues, has no locators and cancels
  by a linear scan. It is related to the production book by a simulation, \<open>mirrors\<close>, that every submission
  and cancellation keeps and under which all queries agree.
\<close>

section \<open>The reference book\<close>

record RefOrder =
  rfo_id :: u64
  rfo_side :: Side
  rfo_price :: u64
  rfo_original :: u64
  rfo_remaining :: u64

record RefLevel =
  rfl_orders :: "RefOrder list"
  rfl_total :: u64

type_synonym RefLevels = "(u64 \<times> RefLevel) list"

type_synonym RefActive = "(u64 \<times> OrderView) list"

record ReferenceOrderBook =
  rf_bids :: RefLevels
  rf_asks :: RefLevels
  rf_active :: RefActive
  rf_seen :: "u64 set"
  rf_next_arrival :: u64
  rf_next_trade_id :: u64

definition new_reference_book :: ReferenceOrderBook where
  "new_reference_book =
     \<lparr>rf_bids = [], rf_asks = [], rf_active = [], rf_seen = {}, rf_next_arrival = 1, rf_next_trade_id = 1\<rparr>"

definition ref_reject :: "RejectionReason \<Rightarrow> SubmitResult" where
  "ref_reject reason =
     \<lparr>sr_status = Rejected, sr_reason = Some reason, sr_executed = Quantity 0, sr_resting = Quantity 0, sr_trades = []\<rparr>"

definition ref_would_overflow :: "u64 \<Rightarrow> u64 \<Rightarrow> bool" where
  "ref_would_overflow current addition \<longleftrightarrow> current > u64_max - addition"

text \<open>The inner and the outer loop of \<open>preview\<close>: what remains and the number of trades.\<close>

fun preview_queue :: "RefOrder list \<Rightarrow> u64 \<Rightarrow> size_t \<Rightarrow> u64 \<times> size_t" where
  "preview_queue [] remaining trade_count = (remaining, trade_count)"
| "preview_queue (maker # orders) remaining trade_count =
     (let remaining = remaining - min remaining (rfo_remaining maker);
          trade_count = trade_count + 1
      in if remaining = 0 then (remaining, trade_count) else preview_queue orders remaining trade_count)"

fun preview :: "(u64 \<Rightarrow> u64 \<Rightarrow> bool) \<Rightarrow> RefLevels \<Rightarrow> u64 \<Rightarrow> u64 \<Rightarrow> size_t \<Rightarrow> u64 \<times> size_t" where
  "preview crosses [] incoming_price remaining trade_count = (remaining, trade_count)"
| "preview crosses ((price, level) # levels) incoming_price remaining trade_count =
     (if remaining = 0 \<or> \<not> crosses price incoming_price then (remaining, trade_count)
      else case preview_queue (rfl_orders level) remaining trade_count of
          (remaining, trade_count) \<Rightarrow> preview crosses levels incoming_price remaining trade_count)"

text \<open>The first argument counts the iterations that are left.\<close>

fun ref_issue_loop :: "nat \<Rightarrow> u64 \<Rightarrow> bool" where
  "ref_issue_loop 0 candidate = True"
| "ref_issue_loop (Suc n) candidate = (if candidate = 0 then False else ref_issue_loop n (candidate + 1))"

definition ref_can_issue_trade_ids :: "ReferenceOrderBook \<Rightarrow> size_t \<Rightarrow> bool" where
  "ref_can_issue_trade_ids r trade_count = ref_issue_loop (unat trade_count) (rf_next_trade_id r)"

definition would_overflow_at_resting_level :: "ReferenceOrderBook \<Rightarrow> NewLimitOrder \<Rightarrow> u64 \<Rightarrow> bool" where
  "would_overflow_at_resting_level r incoming remaining =
     (case map_of (if nlo_side incoming = Buy then rf_bids r else rf_asks r) (ticks (nlo_price incoming)) of
        None \<Rightarrow> False
      | Some level \<Rightarrow> ref_would_overflow (rfl_total level) remaining)"

text \<open>\<open>front\<close> of an empty deque is undefined, and so is the first level of an empty map.\<close>

fun remove_filled_front :: "RefLevels \<Rightarrow> RefActive \<Rightarrow> (RefLevels \<times> RefActive) outcome" where
  "remove_filled_front [] active = Undefined"
| "remove_filled_front ((price, level) # levels) active =
     (case rfl_orders level of
        [] \<Rightarrow> Undefined
      | maker # others \<Rightarrow>
          Done (if others = [] then levels else (price, level\<lparr>rfl_orders := others\<rparr>) # levels,
                AList.delete (rfo_id maker) active))"

record RefMatch =
  rm_levels :: RefLevels
  rm_active :: RefActive
  rm_next_trade_id :: u64
  rm_remaining :: u64
  rm_trades :: "Trade list"

text \<open>The body of the loops of \<open>match_buy\<close> and \<open>match_sell\<close>; \<open>at\<close> throws for an unknown id.\<close>

definition ref_match_step :: "NewLimitOrder \<Rightarrow> u64 \<Rightarrow> RefLevel \<Rightarrow> RefLevels \<Rightarrow> RefMatch \<Rightarrow> RefMatch outcome" where
  "ref_match_step incoming price level levels st =
     (case rfl_orders level of
        [] \<Rightarrow> Undefined
      | maker # others \<Rightarrow>
          let executed = min (rm_remaining st) (rfo_remaining maker);
              trade = \<lparr>tr_id = TradeId (rm_next_trade_id st), tr_maker = OrderId (rfo_id maker), tr_taker = nlo_id incoming,
                       tr_price = Price (rfo_price maker), tr_quantity = Quantity executed\<rparr>;
              maker = maker\<lparr>rfo_remaining := rfo_remaining maker - executed\<rparr>;
              level = level\<lparr>rfl_orders := maker # others, rfl_total := rfl_total level - executed\<rparr>;
              st = st\<lparr>rm_next_trade_id := rm_next_trade_id st + 1, rm_trades := rm_trades st @ [trade],
                      rm_remaining := rm_remaining st - executed\<rparr>
          in if rfo_remaining maker = 0
             then obind (remove_filled_front ((price, level) # levels) (rm_active st))
                    (\<lambda>(levels, active). Done (st\<lparr>rm_levels := levels, rm_active := active\<rparr>))
             else case map_of (rm_active st) (rfo_id maker) of
                 None \<Rightarrow> Throws
               | Some view \<Rightarrow>
                   Done (st\<lparr>rm_levels := (price, level) # levels,
                            rm_active := map_modify (rfo_id maker)
                              (\<lambda>view. view\<lparr>ov_remaining := Quantity (rfo_remaining maker)\<rparr>) (rm_active st)\<rparr>))"

text \<open>Every iteration executes something or removes an order.\<close>

definition queued :: "RefLevels \<Rightarrow> nat" where
  "queued levels = sum_list (map (\<lambda>(price, level). length (rfl_orders level)) levels)"

lemma ref_match_step_less:
  assumes "ref_match_step incoming price level levels st = Done st'" "rm_levels st = (price, level) # levels" "rm_remaining st \<noteq> 0"
  shows "rm_remaining st' < rm_remaining st \<or> rm_remaining st' = rm_remaining st \<and> queued (rm_levels st') < queued (rm_levels st)"
proof (cases "rfl_orders level")
  case (Cons maker others)
  let ?x = "min (rm_remaining st) (rfo_remaining maker)"
  have rem: "rm_remaining st' = rm_remaining st - ?x"
    using assms(1) Cons by (auto simp: ref_match_step_def Let_def obind_eq_Done split: if_splits option.splits)
  show ?thesis
  proof (cases "?x = 0")
    case True
    then have "rfo_remaining maker = 0" using assms(3) by (auto simp: min_def split: if_splits)
    with assms Cons rem True show ?thesis by (auto simp: ref_match_step_def Let_def obind_eq_Done queued_def)
  next
    case False
    then have "0 < unat ?x" by (simp only: unat_gt_0 not_False_eq_True)
    moreover have "?x \<le> rm_remaining st" by simp
    ultimately show ?thesis using rem by (simp add: word_less_nat_alt unat_sub_le word_le_nat_alt)
  qed
qed (use assms in \<open>simp add: ref_match_step_def\<close>)

function ref_match_loop :: "(u64 \<Rightarrow> u64 \<Rightarrow> bool) \<Rightarrow> NewLimitOrder \<Rightarrow> RefMatch \<Rightarrow> RefMatch outcome" where
  "ref_match_loop crosses incoming st =
     (case rm_levels st of
        [] \<Rightarrow> Done st
      | (price, level) # levels \<Rightarrow>
          if rm_remaining st > 0 \<and> crosses price (ticks (nlo_price incoming))
          then (case ref_match_step incoming price level levels st of
                  Done st \<Rightarrow> ref_match_loop crosses incoming st
                | Throws \<Rightarrow> Throws | Terminates \<Rightarrow> Terminates | Undefined \<Rightarrow> Undefined)
          else Done st)"
  by pat_completeness auto
termination
  by (relation "measures [\<lambda>(crosses, incoming, st). unat (rm_remaining st), \<lambda>(crosses, incoming, st). queued (rm_levels st)]")
     (auto simp: word_less_nat_alt dest!: ref_match_step_less)

declare ref_match_loop.simps [simp del]

definition match_buy :: "NewLimitOrder \<Rightarrow> RefMatch \<Rightarrow> RefMatch outcome" where
  "match_buy = ref_match_loop (\<lambda>best limit. best \<le> limit)"

definition match_sell :: "NewLimitOrder \<Rightarrow> RefMatch \<Rightarrow> RefMatch outcome" where
  "match_sell = ref_match_loop (\<lambda>best limit. best \<ge> limit)"

text \<open>\<open>operator[]\<close> of the map makes an empty level if there is none.\<close>

definition push_order :: "(u64 \<Rightarrow> u64 \<Rightarrow> bool) \<Rightarrow> NewLimitOrder \<Rightarrow> u64 \<Rightarrow> RefLevels \<Rightarrow> RefLevels" where
  "push_order precedes incoming remaining levels =
     map_modify (ticks (nlo_price incoming))
       (\<lambda>level. level\<lparr>rfl_orders := rfl_orders level @
            [\<lparr>rfo_id = order_id_value (nlo_id incoming), rfo_side = nlo_side incoming, rfo_price = ticks (nlo_price incoming),
              rfo_original = units (nlo_quantity incoming), rfo_remaining = remaining\<rparr>],
          rfl_total := rfl_total level + remaining\<rparr>)
       (fst (try_emplace precedes (ticks (nlo_price incoming)) \<lparr>rfl_orders = [], rfl_total = 0\<rparr> levels))"

definition ref_rest :: "NewLimitOrder \<Rightarrow> u64 \<Rightarrow> ReferenceOrderBook \<Rightarrow> ReferenceOrderBook" where
  "ref_rest incoming remaining r =
     (if nlo_side incoming = Buy then r\<lparr>rf_bids := push_order (\<lambda>a b. a > b) incoming remaining (rf_bids r)\<rparr>
      else r\<lparr>rf_asks := push_order (\<lambda>a b. a < b) incoming remaining (rf_asks r)\<rparr>)
     \<lparr>rf_active := emplace (order_id_value (nlo_id incoming))
        \<lparr>ov_id = nlo_id incoming, ov_side = nlo_side incoming, ov_price = nlo_price incoming,
         ov_original = nlo_quantity incoming, ov_remaining = Quantity remaining\<rparr> (rf_active r),
      rf_next_arrival := rf_next_arrival r + 1\<rparr>"

text \<open>The part of \<open>submit\<close> after the checks.\<close>

definition ref_execute :: "ReferenceOrderBook \<Rightarrow> NewLimitOrder \<Rightarrow> ReferenceOrderBook \<times> SubmitResult outcome" where
  "ref_execute r incoming =
     (let r = r\<lparr>rf_seen := insert (order_id_value (nlo_id incoming)) (rf_seen r)\<rparr>;
          start = \<lparr>rm_levels = (if nlo_side incoming = Buy then rf_asks r else rf_bids r), rm_active = rf_active r,
                   rm_next_trade_id = rf_next_trade_id r, rm_remaining = units (nlo_quantity incoming), rm_trades = []\<rparr>
      in case (if nlo_side incoming = Buy then match_buy incoming start else match_sell incoming start) of
           Done st \<Rightarrow>
             let r = (if nlo_side incoming = Buy then r\<lparr>rf_asks := rm_levels st\<rparr> else r\<lparr>rf_bids := rm_levels st\<rparr>)
                       \<lparr>rf_active := rm_active st, rf_next_trade_id := rm_next_trade_id st\<rparr>;
                 remaining = rm_remaining st
             in (if remaining > 0 then ref_rest incoming remaining r else r,
                 Done \<lparr>sr_status = Accepted, sr_reason = None,
                       sr_executed = Quantity (units (nlo_quantity incoming) - remaining),
                       sr_resting = Quantity remaining, sr_trades = rm_trades st\<rparr>)
         | Throws \<Rightarrow> (r, Throws) | Terminates \<Rightarrow> (r, Terminates) | Undefined \<Rightarrow> (r, Undefined))"

definition ref_submit :: "ReferenceOrderBook \<Rightarrow> NewLimitOrder \<Rightarrow> ReferenceOrderBook \<times> SubmitResult outcome" where
  "ref_submit r incoming =
     (if order_id_value (nlo_id incoming) = 0 then (r, Done (ref_reject InvalidOrderId))
      else if nlo_side incoming \<noteq> Buy \<and> nlo_side incoming \<noteq> Sell then (r, Done (ref_reject InvalidSide))
      else if ticks (nlo_price incoming) = 0 then (r, Done (ref_reject InvalidPrice))
      else if units (nlo_quantity incoming) = 0 then (r, Done (ref_reject InvalidQuantity))
      else if order_id_value (nlo_id incoming) \<in> rf_seen r then (r, Done (ref_reject DuplicateOrderId))
      else
        let (plan_remaining, plan_trade_count) =
              (if nlo_side incoming = Buy
               then preview (\<lambda>best limit. best \<le> limit) (rf_asks r) (ticks (nlo_price incoming)) (units (nlo_quantity incoming)) 0
               else preview (\<lambda>best limit. best \<ge> limit) (rf_bids r) (ticks (nlo_price incoming)) (units (nlo_quantity incoming)) 0)
        in if \<not> ref_can_issue_trade_ids r plan_trade_count then (r, Done (ref_reject TradeIdExhausted))
           else if plan_remaining > 0 \<and> rf_next_arrival r = 0 then (r, Done (ref_reject SequenceExhausted))
           else if plan_remaining > 0 \<and> would_overflow_at_resting_level r incoming plan_remaining
           then (r, Done (ref_reject QuantityOverflow))
           else ref_execute r incoming)"

text \<open>The scan of one queue, and of the levels.\<close>

fun erase_from_queue :: "u64 \<Rightarrow> RefOrder list \<Rightarrow> (RefOrder \<times> RefOrder list) option" where
  "erase_from_queue oid [] = None"
| "erase_from_queue oid (order # orders) =
     (if rfo_id order \<noteq> oid then map_option (\<lambda>(found, rest). (found, order # rest)) (erase_from_queue oid orders)
      else Some (order, orders))"

fun cancel_from :: "RefLevels \<Rightarrow> RefActive \<Rightarrow> u64 \<Rightarrow> (RefLevels \<times> RefActive \<times> Quantity) option" where
  "cancel_from [] active oid = None"
| "cancel_from ((price, level) # levels) active oid =
     (case erase_from_queue oid (rfl_orders level) of
        None \<Rightarrow> map_option (\<lambda>(levels, rest). ((price, level) # levels, rest)) (cancel_from levels active oid)
      | Some (order, orders) \<Rightarrow>
          Some (if orders = [] then levels
                else (price, level\<lparr>rfl_total := rfl_total level - rfo_remaining order, rfl_orders := orders\<rparr>) # levels,
                AList.delete oid active, Quantity (rfo_remaining order)))"

definition ref_cancel :: "ReferenceOrderBook \<Rightarrow> OrderId \<Rightarrow> ReferenceOrderBook \<times> CancelResult" where
  "ref_cancel r oid =
     (case cancel_from (rf_bids r) (rf_active r) (order_id_value oid) of
        Some (levels, active, cancelled) \<Rightarrow>
          (r\<lparr>rf_bids := levels, rf_active := active\<rparr>, \<lparr>cr_status = Cancelled, cr_cancelled = cancelled\<rparr>)
      | None \<Rightarrow>
          (case cancel_from (rf_asks r) (rf_active r) (order_id_value oid) of
             Some (levels, active, cancelled) \<Rightarrow>
               (r\<lparr>rf_asks := levels, rf_active := active\<rparr>, \<lparr>cr_status = Cancelled, cr_cancelled = cancelled\<rparr>)
           | None \<Rightarrow> (r, \<lparr>cr_status = NotFound, cr_cancelled = Quantity 0\<rparr>)))"

definition best_from :: "RefLevels \<Rightarrow> Quote option" where
  "best_from levels =
     (case levels of [] \<Rightarrow> None | (price, level) # _ \<Rightarrow> Some \<lparr>q_price = Price price, q_quantity = Quantity (rfl_total level)\<rparr>)"

definition ref_best_bid :: "ReferenceOrderBook \<Rightarrow> Quote option" where
  "ref_best_bid r = best_from (rf_bids r)"

definition ref_best_ask :: "ReferenceOrderBook \<Rightarrow> Quote option" where
  "ref_best_ask r = best_from (rf_asks r)"

definition ref_find :: "ReferenceOrderBook \<Rightarrow> OrderId \<Rightarrow> OrderView option" where
  "ref_find r oid = map_of (rf_active r) (order_id_value oid)"

definition ref_depth_from :: "RefLevels \<Rightarrow> PriceLevelView list" where
  "ref_depth_from levels =
     map (\<lambda>(price, level). \<lparr>plv_price = Price price, plv_total = Quantity (rfl_total level),
                            plv_count = of_nat (length (rfl_orders level))\<rparr>) levels"

definition ref_depth :: "ReferenceOrderBook \<Rightarrow> Side \<Rightarrow> PriceLevelView list" where
  "ref_depth r side =
     (if side = Buy then ref_depth_from (rf_bids r) else if side = Sell then ref_depth_from (rf_asks r) else [])"

definition ref_active_order_count :: "ReferenceOrderBook \<Rightarrow> nat" where
  "ref_active_order_count r = length (rf_active r)"

section \<open>The two books side by side\<close>

definition ref_order :: "ListNode \<Rightarrow> RefOrder" where
  "ref_order n =
     \<lparr>rfo_id = order_id_value (nid n), rfo_side = ro_side (node_order n), rfo_price = ticks (nprice n),
      rfo_original = units (ro_original (node_order n)), rfo_remaining = units (ro_remaining (node_order n))\<rparr>"

definition ref_level :: "PriceLevel \<Rightarrow> RefLevel" where
  "ref_level l = \<lparr>rfl_orders = map ref_order (lvl_orders l), rfl_total = units (lvl_total l)\<rparr>"

definition ref_levels :: "Levels \<Rightarrow> RefLevels" where
  "ref_levels levels = map (\<lambda>(p, l). (ticks p, ref_level l)) levels"

definition same_keys :: "ActiveOrders \<Rightarrow> RefActive \<Rightarrow> bool" where
  "same_keys active views \<longleftrightarrow> map fst views = map (order_id_value \<circ> fst) active"

definition views_of :: "ListNode list \<Rightarrow> RefActive \<Rightarrow> bool" where
  "views_of ns views \<longleftrightarrow> (\<forall>n \<in> set ns. map_of views (order_id_value (nid n)) = Some (view_of (node_order n)))"

definition mirrors :: "OrderBook \<Rightarrow> ReferenceOrderBook \<Rightarrow> bool" where
  "mirrors b r \<longleftrightarrow>
     rf_bids r = ref_levels (bids b) \<and> rf_asks r = ref_levels (asks b) \<and> rf_seen r = order_id_value ` seen_order_ids b \<and>
     rf_next_arrival r = next_arrival_sequence b \<and> rf_next_trade_id r = next_trade_id b \<and>
     same_keys (active_orders b) (rf_active r) \<and> views_of (live_nodes b) (rf_active r)"

lemma ref_levels_simps [simp]:
  "ref_levels [] = []" "ref_levels ((p, l) # levels) = (ticks p, ref_level l) # ref_levels levels"
  "ref_levels (xs @ ys) = ref_levels xs @ ref_levels ys" "ref_levels levels = [] \<longleftrightarrow> levels = []"
  by (simp_all add: ref_levels_def)

lemma strong_eq_iff:
  "order_id_value a = order_id_value c \<longleftrightarrow> a = c" "ticks p = ticks q \<longleftrightarrow> p = q" "units x = units y \<longleftrightarrow> x = y"
  by (auto intro: OrderId.expand Price.expand Quantity.expand)

lemma seen_mirrored: "order_id_value oid \<in> order_id_value ` ids \<longleftrightarrow> oid \<in> ids"
  by (auto simp: strong_eq_iff)

lemma map_of_ref_levels: "map_of (ref_levels levels) (ticks p) = map_option ref_level (map_of levels p)"
  by (induction levels) (auto simp: strong_eq_iff)

lemma same_keys_delete:
  "same_keys active views \<Longrightarrow> same_keys (AList.delete oid active) (AList.delete (order_id_value oid) views)"
proof (induction active arbitrary: views)
  case (Cons a active)
  then obtain v views' where "views = v # views'" "fst v = order_id_value (fst a)" "same_keys active views'"
    by (cases views) (auto simp: same_keys_def)
  with Cons.IH [of views'] show ?case by (cases a, cases v) (auto simp: same_keys_def strong_eq_iff)
qed (simp add: same_keys_def)

lemma same_keys_emplace:
  assumes "same_keys active views"
  shows "same_keys (emplace oid x active) (emplace (order_id_value oid) v views)"
proof -
  have "fst ` set views = order_id_value ` fst ` set active"
    using assms unfolding same_keys_def by (metis image_comp list.set_map)
  then have "order_id_value oid \<in> fst ` set views \<longleftrightarrow> oid \<in> fst ` set active" by (simp add: seen_mirrored)
  with assms show ?thesis by (simp add: same_keys_def emplace_def)
qed

lemma map_fst_map_modify [simp]: "map fst (map_modify k f m) = map fst m"
  by (induction m) (auto simp: map_modify_def)

lemma map_of_map_modify: "map_of (map_modify k f m) j = (if j = k then map_option f (map_of m j) else map_of m j)"
  by (induction m) (auto simp: map_modify_def)

section \<open>Matching\<close>

text \<open>A submission in progress; \<open>other\<close> are the orders of the side that is not matched.\<close>

definition match_mirrors :: "ListNode list \<Rightarrow> MatchState \<Rightarrow> RefMatch \<Rightarrow> bool" where
  "match_mirrors other st rst \<longleftrightarrow>
     rm_levels rst = ref_levels (ms_levels st) \<and> same_keys (ms_active st) (rm_active rst) \<and>
     views_of (level_nodes (ms_levels st) @ other) (rm_active rst) \<and>
     distinct (map nid (level_nodes (ms_levels st) @ other)) \<and> rm_next_trade_id rst = ms_next_trade_id st \<and>
     rm_remaining rst = units (ms_remaining st) \<and> rm_trades rst = ms_trades st"

lemma views_delete:
  assumes "views_of ns views" "oid \<notin> nid ` set ns"
  shows "views_of ns (AList.delete (order_id_value oid) views)"
  using assms by (force simp: views_of_def delete_conv strong_eq_iff)

lemma views_modify:
  assumes "views_of ns views" "oid \<notin> nid ` set ns"
  shows "views_of ns (map_modify (order_id_value oid) f views)"
  using assms by (force simp: views_of_def map_of_map_modify strong_eq_iff)

lemma match_step_mirrors:
  assumes step: "match_step incoming p level rest st = Done st'" and st: "ms_levels st = (p, level) # rest"
    and m: "match_mirrors other st rst"
  shows "\<exists>rst'. ref_match_step incoming (ticks p) (ref_level level) (ref_levels rest) rst = Done rst' \<and> match_mirrors other st' rst'"
proof (cases "lvl_orders level")
  case (Cons n ns)
  let ?x = "min (units (ms_remaining st)) (units (ro_remaining (node_order n)))"
  let ?v = "views_of (ns @ level_nodes rest @ other)"
  have views: "?v (rm_active rst)" "map_of (rm_active rst) (order_id_value (nid n)) = Some (view_of (node_order n))"
    and keys: "same_keys (ms_active st) (rm_active rst)" and fresh: "nid n \<notin> nid ` set (ns @ level_nodes rest @ other)"
      "distinct (map nid (ns @ level_nodes rest @ other))"
    using m by (auto simp: match_mirrors_def st Cons views_of_def)
  have eqs: "rm_remaining rst = units (ms_remaining st)" "rm_next_trade_id rst = ms_next_trade_id st" "rm_trades rst = ms_trades st"
    using m by (simp_all add: match_mirrors_def)
  let ?t = "\<lparr>tr_id = TradeId (ms_next_trade_id st), tr_maker = nid n, tr_taker = nlo_id incoming, tr_price = nprice n, tr_quantity = Quantity ?x\<rparr>"
  let ?rest = "units (ro_remaining (node_order n)) - ?x" and ?total = "units (lvl_total level) - ?x"
  let ?st = "st\<lparr>ms_trades := ms_trades st @ [?t], ms_next_trade_id := ms_next_trade_id st + 1, ms_remaining := Quantity (units (ms_remaining st) - ?x)\<rparr>"
  let ?rst = "rst\<lparr>rm_next_trade_id := rm_next_trade_id rst + 1, rm_trades := rm_trades rst @ [?t], rm_remaining := rm_remaining rst - ?x\<rparr>"
  show ?thesis
  proof (cases "?rest = 0")
    case True
    let ?levels = "if ns = [] then rest else (p, level\<lparr>lvl_orders := ns, lvl_total := Quantity ?total\<rparr>) # rest"
    have st': "st' = ?st\<lparr>ms_active := AList.delete (nid n) (ms_active st), ms_levels := ?levels\<rparr>"
      using step True by (simp add: match_step_def Cons Let_def split: if_splits)
    have "ref_match_step incoming (ticks p) (ref_level level) (ref_levels rest) rst =
        Done (?rst\<lparr>rm_levels := ref_levels ?levels, rm_active := AList.delete (order_id_value (nid n)) (rm_active rst)\<rparr>)"
      using True by (simp add: ref_match_step_def ref_level_def ref_order_def Cons Let_def eqs)
    moreover have "level_nodes ?levels = ns @ level_nodes rest" by simp
    ultimately show ?thesis
      using fresh(2) same_keys_delete [OF keys, of "nid n"] views_delete [OF views(1) fresh(1)]
      by (simp add: st' match_mirrors_def eqs)
  next
    case False
    let ?n = "ListNode (node_addr n) ((node_order n)\<lparr>ro_remaining := Quantity ?rest\<rparr>)"
    let ?levels = "(p, level\<lparr>lvl_orders := ?n # ns, lvl_total := Quantity ?total\<rparr>) # rest"
    let ?a = "map_modify (order_id_value (nid n)) (\<lambda>v. v\<lparr>ov_remaining := Quantity ?rest\<rparr>) (rm_active rst)"
    have st': "st' = ?st\<lparr>ms_levels := ?levels\<rparr>"
      using step False by (simp add: match_step_def Cons Let_def split: if_splits)
    have "ref_match_step incoming (ticks p) (ref_level level) (ref_levels rest) rst =
        Done (?rst\<lparr>rm_levels := ref_levels ?levels, rm_active := ?a\<rparr>)"
      using False views(2) by (simp add: ref_match_step_def ref_level_def ref_order_def Cons Let_def eqs)
    moreover have "same_keys (ms_active st) ?a" using keys by (simp add: same_keys_def)
    moreover have "?v ?a" by (rule views_modify [OF views(1) fresh(1)])
    moreover have "map_of ?a (order_id_value (nid ?n)) = Some (view_of (node_order ?n))"
      using views(2) by (simp add: map_of_map_modify view_of_def)
    ultimately have "match_mirrors other st' (?rst\<lparr>rm_levels := ref_levels ?levels, rm_active := ?a\<rparr>)"
      using fresh by (simp add: st' match_mirrors_def eqs views_of_def image_Un)
    with \<open>ref_match_step incoming _ _ _ rst = _\<close> show ?thesis by blast
  qed
qed (use step in \<open>simp add: match_step_def\<close>)

lemma match_loop_mirrors:
  assumes "match_loop crosses incoming st = Done st'" "match_mirrors other st rst"
    and "\<And>p. rcrosses (ticks p) (ticks (nlo_price incoming)) = crosses p (nlo_price incoming)"
  shows "\<exists>rst'. ref_match_loop rcrosses incoming rst = Done rst' \<and> match_mirrors other st' rst'"
  using assms
proof (induction crosses incoming st arbitrary: rst rule: match_loop.induct)
  case (1 crosses incoming st)
  have eqs: "rm_levels rst = ref_levels (ms_levels st)" "rm_remaining rst = units (ms_remaining st)"
    using "1.prems"(2) by (simp_all add: match_mirrors_def)
  show ?case
  proof (cases "ms_levels st")
    case Nil
    with 1 eqs show ?thesis by (auto simp: match_loop.simps [of crosses] ref_match_loop.simps [of rcrosses])
  next
    case (Cons pl rest)
    obtain p level where pl: "pl = (p, level)" by (cases pl)
    show ?thesis
    proof (cases "units (ms_remaining st) > 0 \<and> crosses p (nlo_price incoming)")
      case False
      with 1 Cons pl eqs show ?thesis
        by (auto simp: match_loop.simps [of crosses] ref_match_loop.simps [of rcrosses])
    next
      case True
      with "1.prems"(1) Cons pl obtain st1 where st1: "match_step incoming p level rest st = Done st1"
        "match_loop crosses incoming st1 = Done st'"
        by (cases "match_step incoming p level rest st") (simp_all add: match_loop.simps [of crosses incoming st])
      from match_step_mirrors [OF st1(1) Cons [unfolded pl] "1.prems"(2)] obtain rst1 where
        r1: "ref_match_step incoming (ticks p) (ref_level level) (ref_levels rest) rst = Done rst1" "match_mirrors other st1 rst1" by blast
      from "1.IH" [OF Cons pl [symmetric] True st1(1) st1(2) r1(2) "1.prems"(3)] r1(1) True Cons pl eqs "1.prems"(3)
      show ?thesis by (simp add: ref_match_loop.simps [of rcrosses incoming rst])
    qed
  qed
qed

section \<open>Checks before matching\<close>

lemma preview_queue_mirrors:
  "unat c + length ns < 2 ^ 64 \<Longrightarrow>
   \<exists>x c'. preview_orders ns q c = (False, x, c') \<and> preview_queue (map ref_order ns) (units q) c = (units x, c') \<and>
     unat c' \<le> unat c + length ns"
proof (induction ns arbitrary: q c)
  case (Cons n ns)
  have "c \<noteq> u64_max" using Cons.prems by (auto simp: unat_u64_max)
  moreover have "unat (c + 1) = unat c + 1" using Cons.prems by (simp add: unat_add_bounded)
  ultimately show ?case
    using Cons.IH [of "c + 1" "Quantity (units q - min (units q) (units (ro_remaining (node_order n))))"] Cons.prems
    by (auto simp: Let_def ref_order_def)
qed simp

lemma preview_mirrors:
  assumes "\<And>p. rcrosses (ticks p) (ticks price) = crosses p price"
  shows "unat c + length (level_nodes levels) < 2 ^ 64 \<Longrightarrow>
    preview rcrosses (ref_levels levels) (ticks price) (units q) c =
      (units (mp_remaining (preview_levels crosses price levels q c)), mp_trade_count (preview_levels crosses price levels q c))"
proof (induction levels arbitrary: q c)
  case (Cons pl levels)
  obtain p l where pl: "pl = (p, l)" by (cases pl)
  from preview_queue_mirrors [of c "lvl_orders l" q] Cons.prems pl obtain x c' where
    x: "preview_orders (lvl_orders l) q c = (False, x, c')" "preview_queue (map ref_order (lvl_orders l)) (units q) c = (units x, c')"
      "unat c' \<le> unat c + length (lvl_orders l)" by auto
  with Cons.IH [of c' x] Cons.prems pl assms show ?case
    by (cases "units q = 0"; cases "crosses p price") (simp_all add: ref_level_def word_gt_0)
qed simp

lemma issue_mirrors: "ref_issue_loop n t = issue_loop n t"
  by (induction n arbitrary: t) simp_all

lemma overflow_mirrors:
  assumes "mirrors b r" "is_valid_side (nlo_side order)"
  shows "would_overflow_at_resting_level r order (units q) = overflows_at_level (own_levels (nlo_side order) b) (nlo_price order) q"
  using assms
  by (auto simp: mirrors_def would_overflow_at_resting_level_def overflows_at_level_def own_levels_def map_of_ref_levels
      ref_would_overflow_def would_overflow_def ref_level_def split: option.split)

section \<open>Resting\<close>

lemma try_emplace_mirrors:
  assumes "\<And>a c. rprecedes (ticks a) (ticks c) = precedes a c"
  shows "fst (try_emplace rprecedes (ticks p) (ref_level v) (ref_levels levels)) = ref_levels (fst (try_emplace precedes p v levels))"
  using assms by (induction levels) (auto simp: strong_eq_iff split: prod.splits)

lemma map_modify_mirrors:
  assumes "\<And>l. rf (ref_level l) = ref_level (f l)"
  shows "map_modify (ticks p) rf (ref_levels levels) = ref_levels (map_modify p f levels)"
  using assms by (induction levels) (auto simp: map_modify_def strong_eq_iff)

lemma map_modify_map_modify: "map_modify k f (map_modify k g m) = map_modify k (f \<circ> g) m"
  by (auto simp: map_modify_def)

definition pushed :: "(Price \<Rightarrow> Price \<Rightarrow> bool) \<Rightarrow> ListNode \<Rightarrow> Levels \<Rightarrow> Levels" where
  "pushed precedes x levels =
     map_modify (nprice x) (\<lambda>l. l\<lparr>lvl_orders := lvl_orders l @ [x],
         lvl_total := Quantity (units (lvl_total l) + units (ro_remaining (node_order x)))\<rparr>)
       (fst (try_emplace precedes (nprice x) empty_level levels))"

lemma insert_without_faults:
  "insert_resting_order no_faults precedes levels active addr order q arrival =
     (let x = resting_node addr order q arrival
      in ((pushed precedes x levels, emplace (nid x) (locator_of x) active, Suc addr), Done ()))"
  by (simp add: insert_resting_order_def Let_def pushed_def map_modify_map_modify o_def resting_node_def locator_of_def
      split: prod.split)

lemma push_order_mirrors:
  assumes "\<And>a c. rprecedes (ticks a) (ticks c) = precedes a c"
  shows "push_order rprecedes order (units q) (ref_levels levels) = ref_levels (pushed precedes (resting_node addr order q arrival) levels)"
proof -
  have "\<lparr>rfl_orders = [], rfl_total = 0\<rparr> = ref_level empty_level" by (simp add: ref_level_def empty_level_def)
  then show ?thesis
    by (simp add: push_order_def pushed_def try_emplace_mirrors [of rprecedes precedes, OF assms])
      (rule map_modify_mirrors, simp add: ref_level_def ref_order_def resting_node_def)
qed

lemma level_nodes_emplace: "level_nodes (fst (try_emplace precedes p empty_level levels)) = level_nodes levels"
  by (induction levels) (auto simp: empty_level_def split: prod.splits)

lemma level_nodes_modify:
  assumes "\<And>l. lvl_orders (f l) = lvl_orders l @ [x]"
  shows "set (level_nodes (map_modify p f levels)) \<subseteq> insert x (set (level_nodes levels))"
proof (induction levels)
  case (Cons pl levels)
  obtain q l where "pl = (q, l)" by (cases pl)
  with Cons assms show ?case by (cases "q = p") (auto simp: map_modify_def)
qed (simp add: map_modify_def)

lemma pushed_nodes: "set (level_nodes (pushed precedes x levels)) \<subseteq> insert x (set (level_nodes levels))"
  using level_nodes_modify [where levels = "fst (try_emplace precedes (nprice x) empty_level levels)"]
  by (simp add: pushed_def level_nodes_emplace)

section \<open>Submission\<close>

lemma execute_done:
  fixes b order
  defines "s \<equiv> nlo_side order"
  assumes "execute_submission no_faults b order plan = (b', Done res)"
  shows "\<exists>st. match_loop (price_crosses s) order (match_start b order) = Done st \<and>
    res = \<lparr>sr_status = Accepted, sr_reason = None,
           sr_executed = Quantity (units (nlo_quantity order) - units (ms_remaining st)),
           sr_resting = ms_remaining st, sr_trades = ms_trades st\<rparr> \<and>
    b' = (let b2 = matched_book b order st; x = resting_node (next_node b) order (ms_remaining st) (next_arrival_sequence b)
          in if units (ms_remaining st) > 0
             then (rested_book b2 s (pushed (own_precedes s) x (own_levels s b2)) (emplace (nid x) (locator_of x) (active_orders b2))
                     (Suc (next_node b)))\<lparr>next_arrival_sequence := next_arrival_sequence b + 1\<rparr>
             else b2)"
proof -
  obtain st where st: "match_loop (price_crosses s) order (match_start b order) = Done st"
    "ms_remaining st = mp_remaining plan" "length (ms_trades st) = unat (mp_trade_count plan)"
    using assms(2) unfolding execute_submission_def match_start_def s_def
    by (auto simp: Let_def split: outcome.splits if_splits)
  with execute_unfold [of no_faults order b st plan] assms(2) show ?thesis
    by (auto simp: s_def insert_without_faults Let_def split: if_splits)
qed

lemma crosses_mirrors:
  "is_valid_side s \<Longrightarrow> (if s = Buy then (\<lambda>best limit. best \<le> limit) else (\<lambda>best limit. best \<ge> limit)) (ticks p) (ticks q) = price_crosses s p q"
  by (auto simp: is_valid_side_def price_crosses_def less_eq_Price_def)

lemma fresh_after_match:
  fixes b order
  defines "s \<equiv> nlo_side order"
  assumes ok: "book_ok_for s b" and adm: "admissible b order" and st: "match_loop (price_crosses s) order (match_start b order) = Done st"
  shows "nlo_id order \<notin> fst ` set (ms_active st)"
proof -
  let ?plan = "preview_match (price_crosses s) (opposite_levels s b) (nlo_price order) (nlo_quantity order)"
  note plan = plan_of_submit [OF ok [unfolded s_def], folded s_def]
  have rem: "mp_remaining ?plan = remainder b order" using plan(1) by (simp flip: qnat_eq_iff)
  from matched_exists [OF ok [unfolded s_def] adm rem plan(2)] st show ?thesis
    by (auto simp: matched_def Let_def s_def matched_book_def)
qed

lemma views_of_mono: "views_of ms views \<Longrightarrow> set ns \<subseteq> set ms \<Longrightarrow> views_of ns views"
  by (auto simp: views_of_def)

lemma live_nodes_sides: "is_valid_side s \<Longrightarrow> set (live_nodes b) = set (level_nodes (own_levels s b)) \<union> set (level_nodes (opposite_levels s b))"
  by (auto simp: is_valid_side_def live_nodes_def own_levels_def opposite_levels_def)

text \<open>The reference book after matching.\<close>

definition ref_matched :: "ReferenceOrderBook \<Rightarrow> NewLimitOrder \<Rightarrow> RefMatch \<Rightarrow> ReferenceOrderBook" where
  "ref_matched r order st =
     (let r = r\<lparr>rf_seen := insert (order_id_value (nlo_id order)) (rf_seen r)\<rparr>
      in (if nlo_side order = Buy then r\<lparr>rf_asks := rm_levels st\<rparr> else r\<lparr>rf_bids := rm_levels st\<rparr>)
           \<lparr>rf_active := rm_active st, rf_next_trade_id := rm_next_trade_id st\<rparr>)"

lemma matched_mirrors:
  assumes m: "mirrors b r" and st: "match_mirrors (level_nodes (own_levels (nlo_side order) b)) st rst" and valid: "is_valid_side (nlo_side order)"
  shows "mirrors (matched_book b order st) (ref_matched r order rst)"
proof -
  have "set (live_nodes (matched_book b order st)) \<subseteq> set (level_nodes (ms_levels st) @ level_nodes (own_levels (nlo_side order) b))"
    unfolding live_nodes_sides [OF valid] by (simp add: matched_book_def)
  then have "views_of (live_nodes (matched_book b order st)) (rm_active rst)"
    by (rule views_of_mono [rotated]) (use st in \<open>simp add: match_mirrors_def\<close>)
  with m st valid show ?thesis
    by (auto simp: mirrors_def match_mirrors_def ref_matched_def matched_book_def set_opposite_levels_def Let_def is_valid_side_def)
qed

lemma precedes_mirrors:
  "(\<lambda>a c. a > c) (ticks p) (ticks q) = (p > q)" "(\<lambda>a c. a < c) (ticks p) (ticks q) = (p < q)"
  by (simp_all add: less_Price_def)

lemma rest_mirrors:
  fixes b r order q
  defines "s \<equiv> nlo_side order"
  defines "x \<equiv> resting_node (next_node b) order q (next_arrival_sequence b)"
  assumes m: "mirrors b r" and valid: "is_valid_side s" and fresh: "nlo_id order \<notin> fst ` set (active_orders b)"
  shows "mirrors ((rested_book b s (pushed (own_precedes s) x (own_levels s b)) (emplace (nid x) (locator_of x) (active_orders b)) (Suc (next_node b)))
      \<lparr>next_arrival_sequence := next_arrival_sequence b + 1\<rparr>) (ref_rest order (units q) r)" (is "mirrors ?b ?r")
proof -
  have keys: "same_keys (active_orders b) (rf_active r)" and views: "views_of (live_nodes b) (rf_active r)" using m by (simp_all add: mirrors_def)
  have x: "nid x = nlo_id order" "view_of (node_order x) = \<lparr>ov_id = nlo_id order, ov_side = nlo_side order, ov_price = nlo_price order,
      ov_original = nlo_quantity order, ov_remaining = q\<rparr>" by (simp_all add: x_def resting_node_def view_of_def)
  have new: "order_id_value (nlo_id order) \<notin> fst ` set (rf_active r)"
    using fresh keys unfolding same_keys_def by (metis (no_types, lifting) image_comp list.set_map seen_mirrored)
  have active: "rf_active ?r = (order_id_value (nid x), view_of (node_order x)) # rf_active r"
    using new by (simp add: ref_rest_def emplace_def x)
  have "set (live_nodes ?b) \<subseteq> insert x (set (live_nodes b))"
    unfolding live_nodes_sides [OF valid] using pushed_nodes [of "own_precedes s" x "own_levels s b"] by (auto simp: rested_book_def)
  moreover have "nid n \<noteq> nid x" if "n \<in> set (live_nodes b)" for n
  proof -
    from views that have "map_of (rf_active r) (order_id_value (nid n)) \<noteq> None" by (simp add: views_of_def)
    then have "order_id_value (nid n) \<in> fst ` set (rf_active r)" by (simp only: map_of_eq_None_iff not_not)
    with new show ?thesis by (auto simp only: x(1))
  qed
  then have "views_of (x # live_nodes b) (rf_active ?r)" using views unfolding active by (simp add: views_of_def strong_eq_iff)
  ultimately have 1: "views_of (live_nodes ?b) (rf_active ?r)" using views_of_mono [of "x # live_nodes b"] by simp
  have 2: "same_keys (active_orders ?b) (rf_active ?r)"
    using same_keys_emplace [OF keys, of "nid x"] by (simp add: rested_book_def ref_rest_def x)
  have 3: "rf_bids ?r = ref_levels (bids ?b) \<and> rf_asks ?r = ref_levels (asks ?b)"
    using m valid push_order_mirrors [of "\<lambda>a c. a > c" "\<lambda>a c. a > c" order q _ "next_node b" "next_arrival_sequence b", OF precedes_mirrors(1)]
      push_order_mirrors [of "\<lambda>a c. a < c" "\<lambda>a c. a < c" order q _ "next_node b" "next_arrival_sequence b", OF precedes_mirrors(2)]
    by (auto simp: mirrors_def ref_rest_def s_def x_def is_valid_side_def rested_book_def set_own_levels_def own_levels_def)
  show ?thesis using m 1 2 3 by (auto simp: mirrors_def ref_rest_def rested_book_def)
qed

text \<open>Both books reject or execute a submission, with the same result.\<close>

lemma execute_mirrors:
  fixes b r order
  defines "s \<equiv> nlo_side order"
  assumes ok: "book_ok_for s b" and valid: "is_valid_side s" and adm: "admissible b order" and m: "mirrors b r"
    and e: "execute_submission no_faults b order plan = (b', Done res)"
  shows "\<exists>r'. ref_execute r order = (r', Done res) \<and> mirrors b' r'"
proof -
  from execute_done [OF e, folded s_def] obtain st where st: "match_loop (price_crosses s) order (match_start b order) = Done st"
    and res: "res = \<lparr>sr_status = Accepted, sr_reason = None, sr_executed = Quantity (units (nlo_quantity order) - units (ms_remaining st)),
           sr_resting = ms_remaining st, sr_trades = ms_trades st\<rparr>"
    and b': "b' = (let b2 = matched_book b order st; x = resting_node (next_node b) order (ms_remaining st) (next_arrival_sequence b)
          in if units (ms_remaining st) > 0
             then (rested_book b2 s (pushed (own_precedes s) x (own_levels s b2)) (emplace (nid x) (locator_of x) (active_orders b2))
                     (Suc (next_node b)))\<lparr>next_arrival_sequence := next_arrival_sequence b + 1\<rparr>
             else b2)"
    by blast
  let ?cross = "if s = Buy then (\<lambda>best limit :: u64. best \<le> limit) else (\<lambda>best limit. best \<ge> limit)"
  define start where "start = \<lparr>rm_levels = (if s = Buy then rf_asks r else rf_bids r), rm_active = rf_active r,
      rm_next_trade_id = rf_next_trade_id r, rm_remaining = units (nlo_quantity order), rm_trades = []\<rparr>"
  have "distinct (map nid (level_nodes (opposite_levels s b) @ level_nodes (own_levels s b)))"
    using ok by (auto simp: book_ok_for_def index_ok_def)
  moreover have "views_of (level_nodes (opposite_levels s b) @ level_nodes (own_levels s b)) (rf_active r)"
    using m live_nodes_sides [OF valid, of b] by (auto simp: mirrors_def intro: views_of_mono)
  ultimately have "match_mirrors (level_nodes (own_levels s b)) (match_start b order) start"
    using m by (auto simp: match_mirrors_def match_start_def start_def mirrors_def s_def opposite_levels_def)
  from match_loop_mirrors [OF st this, of ?cross] crosses_mirrors [OF valid] obtain rst where
    rst: "ref_match_loop ?cross order start = Done rst" "match_mirrors (level_nodes (own_levels s b)) st rst" by auto
  have eqs: "rm_remaining rst = units (ms_remaining st)" "rm_trades rst = ms_trades st" using rst(2) by (simp_all add: match_mirrors_def)
  let ?r = "if rm_remaining rst > 0 then ref_rest order (rm_remaining rst) (ref_matched r order rst) else ref_matched r order rst"
  have "ref_execute r order = (?r, Done res)"
    using rst(1) by (cases "s = Buy") (simp_all add: ref_execute_def ref_matched_def start_def match_buy_def match_sell_def Let_def s_def eqs res)
  moreover note m2 = matched_mirrors [OF m rst(2) [unfolded s_def] valid [unfolded s_def]]
  have "nlo_id order \<notin> fst ` set (active_orders (matched_book b order st))"
    using fresh_after_match [OF ok [unfolded s_def] adm st [unfolded s_def]] by (simp add: matched_book_def)
  from rest_mirrors [OF m2 valid [unfolded s_def] this, of "ms_remaining st"] m2 b' have "mirrors b' ?r"
    by (simp add: eqs Let_def s_def)
  ultimately show ?thesis by blast
qed

lemma submit_mirrors:
  assumes ok: "book_ok b" and m: "mirrors b r" and sub: "submit no_faults b order = (b', Done res)"
  shows "\<exists>r'. ref_submit r order = (r', Done res) \<and> mirrors b' r'"
proof (cases "order_id_value (nlo_id order) = 0 \<or> \<not> is_valid_side (nlo_side order) \<or> ticks (nlo_price order) = 0 \<or>
    units (nlo_quantity order) = 0 \<or> nlo_id order \<in> seen_order_ids b")
  case True
  have "rf_seen r = order_id_value ` seen_order_ids b" using m by (simp add: mirrors_def)
  with True m sub show ?thesis
    by (auto simp: submit_def ref_submit_def is_valid_side_def ref_reject_def rejected_def seen_mirrored split: if_splits)
next
  case False
  let ?s = "nlo_side order"
  let ?cross = "if ?s = Buy then (\<lambda>best limit :: u64. best \<le> limit) else (\<lambda>best limit. best \<ge> limit)"
  define plan where "plan = preview_match (price_crosses ?s) (opposite_levels ?s b) (nlo_price order) (nlo_quantity order)"
  have valid: "is_valid_side ?s" using False by simp
  then have ok_for: "book_ok_for ?s b" using ok by (simp add: book_ok_for_iff)
  have unseen: "nlo_id order \<notin> seen_order_ids b" using False by simp
  have seen: "order_id_value (nlo_id order) \<notin> rf_seen r" using m False by (simp add: mirrors_def seen_mirrored)
  have "preview ?cross (ref_levels (opposite_levels ?s b)) (ticks (nlo_price order)) (units (nlo_quantity order)) 0 =
      (units (mp_remaining plan), mp_trade_count plan)"
    unfolding plan_def preview_match_def
    by (rule preview_mirrors) (use crosses_mirrors [OF valid] book_nodes_bounded [OF ok_for] in simp_all)
  then have prev: "(if ?s = Buy then preview (\<lambda>best limit. best \<le> limit) (rf_asks r) (ticks (nlo_price order)) (units (nlo_quantity order)) 0
      else preview (\<lambda>best limit. best \<ge> limit) (rf_bids r) (ticks (nlo_price order)) (units (nlo_quantity order)) 0) =
      (units (mp_remaining plan), mp_trade_count plan)"
    using m by (simp add: mirrors_def opposite_levels_def split: if_splits)
  have issue: "ref_can_issue_trade_ids r c = can_issue_trade_ids (next_trade_id b) c" for c
    using m by (simp add: ref_can_issue_trade_ids_def can_issue_trade_ids_def issue_mirrors mirrors_def)
  note over = overflow_mirrors [OF m valid, of "mp_remaining plan"]
  have arr: "rf_next_arrival r = next_arrival_sequence b" using m by (simp add: mirrors_def)
  have nz: "order_id_value (nlo_id order) \<noteq> 0" "\<not> (?s \<noteq> Buy \<and> ?s \<noteq> Sell)" "ticks (nlo_price order) \<noteq> 0" "units (nlo_quantity order) \<noteq> 0"
    using False by (auto simp: is_valid_side_def)
  have prod: "(if \<not> can_issue_trade_ids (next_trade_id b) (mp_trade_count plan) then (b, Done (rejected TradeIdExhausted))
      else if units (mp_remaining plan) > 0 \<and> next_arrival_sequence b = 0 then (b, Done (rejected SequenceExhausted))
      else if units (mp_remaining plan) > 0 \<and> overflows_at_level (own_levels ?s b) (nlo_price order) (mp_remaining plan)
      then (b, Done (rejected QuantityOverflow)) else execute_submission no_faults b order plan) = (b', Done res)"
    using sub nz valid unseen by (simp only: submit_def Let_def plan_def if_False not_True_eq_False)
  show ?thesis
  proof (cases "can_issue_trade_ids (next_trade_id b) (mp_trade_count plan) \<and>
      \<not> (units (mp_remaining plan) > 0 \<and> next_arrival_sequence b = 0) \<and>
      \<not> (units (mp_remaining plan) > 0 \<and> overflows_at_level (own_levels ?s b) (nlo_price order) (mp_remaining plan))")
    case True
    with prod have e: "execute_submission no_faults b order plan = (b', Done res)" by auto
    have "sr_status res = Accepted" using execute_done [OF e] by auto
    with submit_cases [OF ok, of order no_faults] sub have adm: "admissible b order"
      by (auto simp: rejected_def split: option.splits)
    from execute_mirrors [OF ok_for valid adm m e] True nz seen show ?thesis
      by (auto simp: ref_submit_def prev issue over arr)
  next
    case False
    with prod m nz seen show ?thesis
      by (auto simp: ref_submit_def prev issue over arr ref_reject_def rejected_def split: if_splits)
  qed
qed

section \<open>Cancellation\<close>

lemma erase_from_queue_absent: "oid \<notin> nid ` set ns \<Longrightarrow> erase_from_queue (order_id_value oid) (map ref_order ns) = None"
  by (induction ns) (auto simp: ref_order_def strong_eq_iff)

lemma erase_from_queue_present:
  "nid n \<notin> nid ` set xs \<Longrightarrow> erase_from_queue (order_id_value (nid n)) (map ref_order (xs @ n # ys)) = Some (ref_order n, map ref_order (xs @ ys))"
  by (induction xs) (auto simp: ref_order_def strong_eq_iff)

lemma cancel_from_absent: "oid \<notin> nid ` set (level_nodes levels) \<Longrightarrow> cancel_from (ref_levels levels) active (order_id_value oid) = None"
proof (induction levels)
  case (Cons pl levels)
  obtain p l where "pl = (p, l)" by (cases pl)
  with Cons erase_from_queue_absent [of oid "lvl_orders l"] show ?case by (simp add: ref_level_def image_Un)
qed simp

lemma cancel_from_present:
  assumes "lvl_orders l = xs @ n # ys" "distinct (map nid (level_nodes (A @ (p, l) # B)))"
  shows "cancel_from (ref_levels (A @ (p, l) # B)) active (order_id_value (nid n)) =
    Some (ref_levels (if xs @ ys = [] then A @ B
            else A @ (p, l\<lparr>lvl_total := Quantity (units (lvl_total l) - units (ro_remaining (node_order n))), lvl_orders := xs @ ys\<rparr>) # B),
          AList.delete (order_id_value (nid n)) active, ro_remaining (node_order n))"
  using assms
proof (induction A)
  case Nil
  then have "nid n \<notin> nid ` set xs" by auto
  from erase_from_queue_present [OF this, of ys] Nil show ?case by (simp add: ref_level_def ref_order_def)
next
  case (Cons pl A)
  obtain q k where pl: "pl = (q, k)" by (cases pl)
  have "nid n \<notin> nid ` set (lvl_orders k)" using Cons.prems pl by auto
  from erase_from_queue_absent [OF this] Cons pl show ?case by (simp add: ref_level_def)
qed

lemma cancel_done:
  assumes "map_of (active_orders b) oid = Some loc" "cancel_resting_order (own_levels (loc_side loc) b) (live_nodes b) loc oid = Done (levels, q)"
    and "cancel b oid = (b', Done res)"
  shows "b' = (set_own_levels (loc_side loc) levels b)\<lparr>active_orders := AList.delete oid (active_orders b)\<rparr>"
    "res = \<lparr>cr_status = Cancelled, cr_cancelled = q\<rparr>"
  using assms by (auto simp: cancel_def Let_def split: if_splits)

lemma cancel_keeps_views:
  assumes ok: "book_ok b" and c: "cancel b oid = (b', Done res)" and v: "views_of (live_nodes b) views"
  shows "views_of (live_nodes b') (AList.delete (order_id_value oid) views)"
proof -
  have "(flat b', res) = spec_cancel (flat b) oid" using cancel_effect [OF ok, of oid] c by auto
  then have "live_nodes b' = filter (\<lambda>m. nid m \<noteq> oid) (live_nodes b) \<or> live_nodes b' = live_nodes b \<and> oid \<notin> nid ` set (live_nodes b)"
    using spec_find_none_iff [of "flat b" oid] by (auto simp: spec_cancel_def flat_def live_nodes_def flat_nodes_def split: option.splits)
  then have "oid \<notin> nid ` set (live_nodes b')" "set (live_nodes b') \<subseteq> set (live_nodes b)" by auto
  with v show ?thesis by (intro views_delete) (auto intro: views_of_mono)
qed

lemma cancel_mirrors:
  assumes ok: "book_ok b" and m: "mirrors b r" and c: "cancel b oid = (b', Done res)"
  shows "\<exists>r'. ref_cancel r oid = (r', res) \<and> mirrors b' r'"
proof (rule lookup_cases [OF ok, of oid])
  assume "map_of (active_orders b) oid = None" and absent: "oid \<notin> nid ` set (live_nodes b)"
  then have "b' = b" "res = \<lparr>cr_status = NotFound, cr_cancelled = Quantity 0\<rparr>" using c by (simp_all add: cancel_def)
  moreover have "oid \<notin> nid ` set (level_nodes (bids b))" "oid \<notin> nid ` set (level_nodes (asks b))"
    using absent by (simp_all add: live_nodes_def image_Un)
  ultimately show ?thesis using m by (simp add: ref_cancel_def mirrors_def cancel_from_absent)
next
  fix n
  assume n: "n \<in> set (live_nodes b)" "nid n = oid" and loc: "map_of (active_orders b) oid = Some (locator_of n)"
  let ?s = "ro_side (node_order n)" and ?live = "live_nodes b"
  note own = nodes_of_side [OF ok n(1)]
  have "book_ok_for ?s b" using ok own(1) by (simp add: book_ok_for_iff)
  then have side: "side_ok (own_precedes ?s) ?s (own_levels ?s b)" and addrs: "distinct (map node_addr (level_nodes (own_levels ?s b)))"
    and ids: "distinct (map nid (level_nodes (own_levels ?s b)))"
    "nid ` set (level_nodes (own_levels ?s b)) \<inter> nid ` set (level_nodes (opposite_levels ?s b)) = {}"
    by (auto simp: book_ok_for_def nodes_ok_def index_ok_def)
  show ?thesis
  proof (rule cancel_resting_shape [OF side own(2) addrs deref_live [OF ok n(1)]])
    fix A B xs ys and l :: PriceLevel
    let ?levels = "if xs @ ys = [] then A @ B
      else A @ (nprice n, l\<lparr>lvl_total := Quantity (units (lvl_total l) - units (ro_remaining (node_order n))), lvl_orders := xs @ ys\<rparr>) # B"
    assume L: "own_levels ?s b = A @ (nprice n, l) # B" and ord: "lvl_orders l = xs @ n # ys"
      and eq: "cancel_resting_order (own_levels ?s b) ?live (locator_of n) (nid n) = Done (?levels, ro_remaining (node_order n))"
    have side_loc: "loc_side (locator_of n) = ?s" by (simp add: locator_of_def)
    note d = cancel_done [OF loc _ c, unfolded side_loc, OF eq [unfolded n(2)]]
    have present: "cancel_from (ref_levels (own_levels ?s b)) active (order_id_value oid) =
        Some (ref_levels ?levels, AList.delete (order_id_value oid) active, ro_remaining (node_order n))" for active
      using cancel_from_present [OF ord ids(1) [unfolded L]] by (simp only: L n(2))
    have none: "cancel_from (ref_levels (opposite_levels ?s b)) active (order_id_value oid) = None" for active
      by (rule cancel_from_absent) (use own(2) ids(2) n(2) in blast)
    let ?active = "AList.delete (order_id_value oid) (rf_active r)"
    have keys: "same_keys (AList.delete oid (active_orders b)) ?active"
      by (rule same_keys_delete) (use m in \<open>simp add: mirrors_def\<close>)
    have views: "views_of (live_nodes b') ?active"
      by (rule cancel_keeps_views [OF ok c]) (use m in \<open>simp add: mirrors_def\<close>)
    show ?thesis
    proof (cases "?s = Buy")
      case True
      then have "ref_cancel r oid = (r\<lparr>rf_bids := ref_levels ?levels, rf_active := ?active\<rparr>, res)"
        using present m d(2) by (simp add: ref_cancel_def mirrors_def own_levels_def)
      with True m keys views d(1) show ?thesis by (auto simp: mirrors_def set_own_levels_def simp del: append_is_Nil_conv)
    next
      case False
      then have "ref_cancel r oid = (r\<lparr>rf_asks := ref_levels ?levels, rf_active := ?active\<rparr>, res)"
        using present none m d(2) by (simp add: ref_cancel_def mirrors_def own_levels_def opposite_levels_def)
      with False m keys views d(1) show ?thesis by (auto simp: mirrors_def set_own_levels_def simp del: append_is_Nil_conv)
    qed
  qed
qed

section \<open>Queries\<close>

lemma mirrors_new: "mirrors new_order_book new_reference_book"
  by (simp add: mirrors_def new_order_book_def new_reference_book_def same_keys_def views_of_def live_nodes_def)

lemma best_mirrors:
  assumes "mirrors b r"
  shows "ref_best_bid r = best_bid b" "ref_best_ask r = best_ask b"
  using assms by (auto simp: mirrors_def ref_best_bid_def ref_best_ask_def best_from_def best_bid_def best_ask_def ref_level_def split: list.split)

lemma count_mirrors: "mirrors b r \<Longrightarrow> ref_active_order_count r = active_order_count b"
  unfolding mirrors_def same_keys_def ref_active_order_count_def active_order_count_def by (metis length_map)

lemma levels_bounded: "side_ok precedes s levels \<Longrightarrow> length levels \<le> length (level_nodes levels)"
proof (induction levels)
  case (Cons pl levels)
  obtain p l where pl: "pl = (p, l)" by (cases pl)
  with Cons.prems have "lvl_orders l \<noteq> []" "side_ok precedes s levels" by (auto simp: side_ok_Cons level_ok_def)
  then show ?case using Cons.IH pl by (cases "lvl_orders l") auto
qed simp

lemma depth_mirrors:
  assumes ok: "book_ok b" and m: "mirrors b r"
  shows "ref_depth r side = depth b side u64_max"
proof -
  have full: "ref_depth_from (ref_levels levels) = depth_from levels u64_max" if "length levels \<le> unat u64_max" for levels
    using that by (induction levels) (auto simp: ref_depth_from_def depth_from_def ref_level_def)
  have "length (live_nodes b) < 2 ^ 64"
    by (rule distinct_ids_length) (use ok in \<open>auto simp: book_ok_def index_ok_def nodes_ok_def\<close>)
  moreover have "length (bids b) \<le> length (level_nodes (bids b))" "length (asks b) \<le> length (level_nodes (asks b))"
    using ok levels_bounded by (auto simp: book_ok_def)
  ultimately have "length (bids b) \<le> unat u64_max" "length (asks b) \<le> unat u64_max" by (simp_all add: live_nodes_def unat_u64_max)
  with full m show ?thesis by (simp add: mirrors_def ref_depth_def depth_def is_valid_side_def)
qed

lemma find_mirrors:
  assumes ok: "book_ok b" and m: "mirrors b r"
  shows "find_order b oid = Done (ref_find r oid)"
proof (rule lookup_cases [OF ok, of oid])
  assume none: "map_of (active_orders b) oid = None"
  have "fst ` set (rf_active r) = order_id_value ` fst ` set (active_orders b)"
    using m unfolding mirrors_def same_keys_def by (metis image_comp list.set_map)
  with none have "ref_find r oid = None" by (simp add: ref_find_def map_of_eq_None_iff seen_mirrored)
  with none show ?thesis by (simp add: find_order_def)
next
  fix n
  assume n: "n \<in> set (live_nodes b)" "nid n = oid" and loc: "map_of (active_orders b) oid = Some (locator_of n)"
  from m n have "ref_find r oid = Some (view_of (node_order n))" by (auto simp: mirrors_def views_of_def ref_find_def)
  with loc deref_live [OF ok n(1)] show ?thesis by (simp add: find_order_def locator_of_def)
qed

end
