(* ===== verification/Differential_Test.thy ===== *)
theory Differential_Test
  imports Reference_Order_Book
begin

text \<open>
  The differential test of the order book: \<open>TraceRunner\<close> of \<^verbatim>\<open>tests/order_book_differential_test.cpp\<close>
  executes every command on the production book and on the reference book, compares the two results, the
  accounting of the trades and then everything that can be asked of the books. The runner is modelled with
  all its comparisons; the history, the accepted ids and the last comparison, which it keeps only to print or
  to draw random commands, are left out. The tests run it on some thousands of commands; here it is shown to
  find no difference on any sequence of them.
\<close>

section \<open>Comparisons\<close>

datatype Command = SubmitCommand NewLimitOrder | CancelCommand OrderId

definition same_trade :: "Trade \<Rightarrow> Trade \<Rightarrow> bool" where
  "same_trade left right \<longleftrightarrow>
     tr_id left = tr_id right \<and> tr_maker left = tr_maker right \<and> tr_taker left = tr_taker right \<and>
     tr_price left = tr_price right \<and> tr_quantity left = tr_quantity right"

definition same_submit_result :: "SubmitResult \<Rightarrow> SubmitResult \<Rightarrow> bool" where
  "same_submit_result left right \<longleftrightarrow>
     \<not> (sr_status left \<noteq> sr_status right \<or> sr_reason left \<noteq> sr_reason right \<or> sr_executed left \<noteq> sr_executed right \<or>
        sr_resting left \<noteq> sr_resting right \<or> length (sr_trades left) \<noteq> length (sr_trades right)) \<and>
     list_all2 same_trade (sr_trades left) (sr_trades right)"

definition same_cancel_result :: "CancelResult \<Rightarrow> CancelResult \<Rightarrow> bool" where
  "same_cancel_result left right \<longleftrightarrow> cr_status left = cr_status right \<and> cr_cancelled left = cr_cancelled right"

fun same_quote :: "Quote option \<Rightarrow> Quote option \<Rightarrow> bool" where
  "same_quote None None = True"
| "same_quote (Some left) (Some right) = (q_price left = q_price right \<and> q_quantity left = q_quantity right)"
| "same_quote _ _ = False"

fun same_order_view :: "OrderView option \<Rightarrow> OrderView option \<Rightarrow> bool" where
  "same_order_view None None = True"
| "same_order_view (Some left) (Some right) =
     (ov_id left = ov_id right \<and> ov_side left = ov_side right \<and> ov_price left = ov_price right \<and>
      ov_original left = ov_original right \<and> ov_remaining left = ov_remaining right)"
| "same_order_view _ _ = False"

definition same_depth :: "PriceLevelView list \<Rightarrow> PriceLevelView list \<Rightarrow> bool" where
  "same_depth left right \<longleftrightarrow>
     length left = length right \<and>
     list_all2 (\<lambda>l r. plv_price l = plv_price r \<and> plv_total l = plv_total r \<and> plv_count l = plv_count r) left right"

section \<open>The runner\<close>

record TraceRunner =
  tn_production :: OrderBook
  tn_reference :: ReferenceOrderBook
  tn_known_ids :: "u64 list"
  tn_expected_next_trade_id :: u64

definition new_trace_runner :: TraceRunner where
  "new_trace_runner =
     \<lparr>tn_production = new_order_book, tn_reference = new_reference_book, tn_known_ids = [], tn_expected_next_trade_id = 1\<rparr>"

definition remember :: "u64 \<Rightarrow> TraceRunner \<Rightarrow> TraceRunner" where
  "remember oid t = (if oid \<in> set (tn_known_ids t) then t else t\<lparr>tn_known_ids := tn_known_ids t @ [oid]\<rparr>)"

text \<open>
  The loop over the trades: the next expected id, and the total quantity unless a trade is refused.
\<close>

fun check_trades :: "Trade list \<Rightarrow> u64 \<Rightarrow> u64 \<Rightarrow> u64 \<times> u64 option" where
  "check_trades [] trade_quantity expected = (expected, Some trade_quantity)"
| "check_trades (trade # trades) trade_quantity expected =
     (if trade_id_value (tr_id trade) \<noteq> expected \<or> trade_id_value (tr_id trade) = 0 \<or>
         order_id_value (tr_maker trade) = 0 \<or> order_id_value (tr_taker trade) = 0 \<or>
         ticks (tr_price trade) = 0 \<or> units (tr_quantity trade) = 0 \<or>
         trade_quantity > u64_max - units (tr_quantity trade)
      then (expected, None)
      else check_trades trades (trade_quantity + units (tr_quantity trade)) (expected + 1))"

definition check_submission_accounting :: "NewLimitOrder \<Rightarrow> SubmitResult \<Rightarrow> u64 \<Rightarrow> u64 \<times> string" where
  "check_submission_accounting submitted result expected =
     (if \<not> accepted result then (expected, '''')
      else case check_trades (sr_trades result) 0 expected of
          (expected, None) \<Rightarrow> (expected, ''invalid or non-monotonic trade emitted'')
        | (expected, Some trade_quantity) \<Rightarrow>
            if units (sr_executed result) \<noteq> trade_quantity \<or>
               units (sr_executed result) > units (nlo_quantity submitted) \<or>
               units (sr_resting result) > units (nlo_quantity submitted) - units (sr_executed result) \<or>
               units (sr_executed result) + units (sr_resting result) \<noteq> units (nlo_quantity submitted)
            then (expected, ''submission quantity conservation failed'')
            else (expected, ''''))"

text \<open>\<open>std::to_string\<close>.\<close>

fun to_string :: "nat \<Rightarrow> string" where
  "to_string n = (if n < 10 then [char_of (48 + n)] else to_string (n div 10) @ [char_of (48 + n mod 10)])"

declare to_string.simps [simp del]

fun compare_finds :: "OrderBook \<Rightarrow> ReferenceOrderBook \<Rightarrow> u64 list \<Rightarrow> string outcome" where
  "compare_finds production reference [] = Done ''''"
| "compare_finds production reference (oid # oids) =
     obind (find_order production (OrderId oid)) (\<lambda>view.
       if \<not> same_order_view view (ref_find reference (OrderId oid))
       then Done (''find mismatch for id='' @ to_string (unat oid))
       else compare_finds production reference oids)"

definition compare_state :: "TraceRunner \<Rightarrow> string outcome" where
  "compare_state t =
     (let production = tn_production t; reference = tn_reference t
      in if \<not> invariants_hold production then Done ''production invariant check failed''
         else if \<not> same_quote (best_bid production) (ref_best_bid reference) \<or>
                 \<not> same_quote (best_ask production) (ref_best_ask reference)
         then Done ''best quote mismatch''
         else if \<not> same_depth (depth production Buy u64_max) (ref_depth reference Buy) \<or>
                 \<not> same_depth (depth production Sell u64_max) (ref_depth reference Sell)
         then Done ''depth mismatch''
         else if active_order_count production \<noteq> ref_active_order_count reference then Done ''active order count mismatch''
         else compare_finds production reference (tn_known_ids t))"

text \<open>\<open>execute\<close> returns the issue it found, empty for none. Allocation does not fail in the tests.\<close>

fun execute_command :: "Command \<Rightarrow> TraceRunner \<Rightarrow> (TraceRunner \<times> string) outcome" where
  "execute_command (SubmitCommand order) t =
     (let t = remember (order_id_value (nlo_id order)) t
      in case submit no_faults (tn_production t) order of
           (production, production_outcome) \<Rightarrow>
             obind production_outcome (\<lambda>production_result.
               case ref_submit (tn_reference t) order of
                 (reference, reference_outcome) \<Rightarrow>
                   obind reference_outcome (\<lambda>reference_result.
                     let t = t\<lparr>tn_production := production, tn_reference := reference\<rparr>
                     in if \<not> same_submit_result production_result reference_result then Done (t, ''submit result mismatch'')
                        else case check_submission_accounting order production_result (tn_expected_next_trade_id t) of
                            (expected, accounting_error) \<Rightarrow>
                              let t = t\<lparr>tn_expected_next_trade_id := expected\<rparr>
                              in if accounting_error \<noteq> '''' then Done (t, accounting_error)
                                 else obind (compare_state t) (\<lambda>issue. Done (t, issue)))))"
| "execute_command (CancelCommand oid) t =
     (let t = remember (order_id_value oid) t
      in case cancel (tn_production t) oid of
           (production, production_outcome) \<Rightarrow>
             obind production_outcome (\<lambda>production_result.
               case ref_cancel (tn_reference t) oid of
                 (reference, reference_result) \<Rightarrow>
                   let t = t\<lparr>tn_production := production, tn_reference := reference\<rparr>
                   in if \<not> same_cancel_result production_result reference_result then Done (t, ''cancel result mismatch'')
                      else obind (compare_state t) (\<lambda>issue. Done (t, issue))))"

text \<open>A trace, with the issue of every command.\<close>

fun run_trace :: "Command list \<Rightarrow> TraceRunner \<Rightarrow> string list outcome" where
  "run_trace [] t = Done []"
| "run_trace (command # commands) t =
     obind (execute_command command t) (\<lambda>(t, issue).
       obind (run_trace commands t) (\<lambda>issues. Done (issue # issues)))"

section \<open>What the runner relies on\<close>

definition runner_ok :: "TraceRunner \<Rightarrow> bool" where
  "runner_ok t \<longleftrightarrow>
     book_ok (tn_production t) \<and> mirrors (tn_production t) (tn_reference t) \<and>
     (\<forall>n \<in> set (live_nodes (tn_production t)). ticks (nprice n) \<noteq> 0) \<and>
     tn_expected_next_trade_id t = next_trade_id (tn_production t)"

lemma same_refl [simp]:
  "same_trade a a" "same_submit_result b b" "same_cancel_result c c" "same_quote d d" "same_order_view e e" "same_depth f f"
proof -
  show "same_trade a a" for a by (simp add: same_trade_def)
  then show "same_submit_result b b" by (simp add: same_submit_result_def list_all2_same)
  show "same_cancel_result c c" by (simp add: same_cancel_result_def)
  show "same_quote d d" by (cases d) simp_all
  show "same_order_view e e" by (cases e) simp_all
  show "same_depth f f" by (simp add: same_depth_def list_all2_same)
qed

lemma compare_finds_ok: "book_ok b \<Longrightarrow> mirrors b r \<Longrightarrow> compare_finds b r oids = Done ''''"
  by (induction oids) (simp_all add: find_mirrors)

lemma compare_state_ok: "book_ok (tn_production t) \<Longrightarrow> mirrors (tn_production t) (tn_reference t) \<Longrightarrow> compare_state t = Done ''''"
  using best_mirrors [of "tn_production t" "tn_reference t"]
  by (simp add: compare_state_def book_ok_invariants_hold depth_mirrors count_mirrors compare_finds_ok)

section \<open>The accounting of the trades\<close>

lemma check_trades_ok:
  assumes "order_id_value (nlo_id order) \<noteq> 0"
  shows "issue_loop (length fs) t \<Longrightarrow> unat q + sum_list (map snd fs) < 2 ^ 64 \<Longrightarrow>
    \<forall>(n, x) \<in> set fs. 0 < x \<and> order_id_value (nid n) \<noteq> 0 \<and> ticks (nprice n) \<noteq> 0 \<Longrightarrow>
    check_trades (trades_of order t fs) q t = (t + of_nat (length fs), Some (q + of_nat (sum_list (map snd fs))))"
proof (induction fs arbitrary: t q)
  case (Cons f fs)
  obtain n x where f: "f = (n, x)" by (cases f)
  have x: "unat (of_nat x :: u64) = x" using Cons.prems(2) f by (simp add: unat_of_nat)
  then have "(of_nat x :: u64) \<noteq> 0" using Cons.prems(3) f by auto
  moreover have "\<not> would_overflow (Quantity q) (Quantity (of_nat x))" using Cons.prems(2) f x by (simp add: would_overflow_iff)
  moreover have "unat (q + of_nat x) = unat q + x" using Cons.prems(2) f x by (simp add: unat_add_bounded)
  moreover have "t \<noteq> 0" "issue_loop (length fs) (t + 1)" using Cons.prems(1) by (simp_all split: if_splits)
  ultimately show ?case
    using Cons.IH [of "t + 1" "q + of_nat x"] Cons.prems assms f by (simp add: trade_of_def would_overflow_def add.assoc)
qed simp

lemma rejected_unchanged:
  assumes ok: "book_ok b" and sub: "submit no_faults b order = (b', Done res)" and "\<not> accepted res"
  shows "b' = b"
proof -
  have "(flat b', res) = spec_submit (flat b) order" using submit_done [OF ok sub] by simp
  with assms(3) spec_submit_accepted [of "flat b" order] obtain reason where "spec_rejection (flat b) order = Some reason"
    by (metis not_None_eq snd_conv)
  with submit_cases [OF ok, of order no_faults] sub show ?thesis by simp
qed

lemma accounting_ok:
  assumes ok: "book_ok b" and priced: "\<forall>n \<in> set (live_nodes b). ticks (nprice n) \<noteq> 0"
    and sub: "submit no_faults b order = (b', Done res)"
  shows "check_submission_accounting order res (next_trade_id b) = (next_trade_id b', '''')"
proof (cases "accepted res")
  case True
  note acc = accepted_result [OF ok sub True]
  let ?fs = "fills (flat b) order" and ?q = "qnat (nlo_quantity order)"
  have adm: "admissible b order" using submit_cases [OF ok, of order no_faults] acc(2) by simp
  have id: "order_id_value (nlo_id order) \<noteq> 0" using acc(2) by (auto simp: spec_rejection_def split: if_splits)
  have sum: "sum_list (map snd ?fs) = qnat (sr_executed res)"
    using sweep_conserves [of ?q "makers (flat b) order"] acc(5) by (simp add: fills_def unfilled_def)
  have le: "unfilled (flat b) order \<le> ?q" by (rule unfilled_bound)
  have fs: "0 < x \<and> order_id_value (nid n) \<noteq> 0 \<and> ticks (nprice n) \<noteq> 0" if "(n, x) \<in> set ?fs" for n x
  proof -
    note bounds = fills_bounds [OF ok acc(1) that]
    have "n \<in> set (live_nodes b)" using makers_ok(2) [OF ok acc(1) bounds(1)] by (simp add: live_nodes_sides [OF acc(1)])
    moreover from this have "nid n \<in> seen_order_ids b" "OrderId 0 \<notin> seen_order_ids b" using ok by (auto simp: book_ok_def nodes_ok_def)
    ultimately show ?thesis using priced bounds(2) by (cases "nid n") auto
  qed
  have "check_trades (trades_of order (next_trade_id b) ?fs) 0 (next_trade_id b) =
      (next_trade_id b + of_nat (length ?fs), Some (0 + of_nat (sum_list (map snd ?fs))))"
    by (rule check_trades_ok [OF id]) (use adm fs sum unat_less_u64 [of "units (sr_executed res)"] in \<open>auto simp: admissible_def\<close>)
  moreover have "next_trade_id b' = next_trade_id b + of_nat (length ?fs)"
    using arg_cong [OF acc(6), of fb_trade_id] by (simp add: spec_execute_def Let_def)
  moreover have "\<not> units (sr_executed res) > units (nlo_quantity order)"
    "\<not> units (sr_resting res) > units (nlo_quantity order) - units (sr_executed res)"
    "units (sr_executed res) + units (sr_resting res) = units (nlo_quantity order)"
    using acc(4,5) le unat_add_bounded [of "units (sr_executed res)" "units (sr_resting res)"] unat_less_u64 [of "units (nlo_quantity order)"]
    by (simp_all add: word_less_nat_alt unat_sub_le word_le_nat_alt flip: word_unat_eq_iff)
  ultimately show ?thesis using True acc(3) sum by (simp add: check_submission_accounting_def)
next
  case False
  with rejected_unchanged [OF ok sub] show ?thesis by (simp add: check_submission_accounting_def)
qed

section \<open>Every trace\<close>

text \<open>No order without a price comes to rest.\<close>

lemma submit_keeps_priced:
  assumes ok: "book_ok b" and priced: "\<forall>n \<in> set (live_nodes b). ticks (nprice n) \<noteq> 0"
    and sub: "submit no_faults b order = (b', Done res)"
  shows "\<forall>n \<in> set (live_nodes b'). ticks (nprice n) \<noteq> 0"
proof (cases "accepted res")
  case True
  note acc = accepted_result [OF ok sub True]
  let ?s = "nlo_side order" and ?mk = "makers (flat b) order"
  have price: "ticks (nlo_price order) \<noteq> 0" using acc(2) by (auto simp: spec_rejection_def split: if_splits)
  have opp: "n \<in> set (live_nodes b)" if "n \<in> set (level_nodes (opposite_levels ?s b)) \<union> set (level_nodes (own_levels ?s b))" for n
    using that by (auto simp: live_nodes_sides [OF acc(1)])
  have "ticks (nprice n) \<noteq> 0" if "n \<in> set (sweep_left (qnat (nlo_quantity order)) ?mk)" for n
  proof -
    from that sweep_keeps_prices [of _ ?mk] obtain m where "m \<in> set ?mk" "nprice m = nprice n" by fastforce
    with priced opp makers_ok(2) [OF ok acc(1)] show ?thesis by (metis UnI1)
  qed
  moreover have "set (not_crossing (price_crosses ?s) (nlo_price order) (level_nodes (opposite_levels ?s b))) \<subseteq>
      set (level_nodes (opposite_levels ?s b))" by (auto simp: not_crossing_def dest: set_dropWhileD)
  ultimately have "\<forall>n \<in> set (flat_nodes (fst (spec_execute (flat b) order))). ticks (nprice n) \<noteq> 0"
    unfolding executed_nodes [OF acc(1)] using priced opp price by (auto simp: resting_node_def split: if_splits)
  then show ?thesis by (simp flip: acc(6) flat_nodes_flat)
next
  case False
  with rejected_unchanged [OF ok sub] priced show ?thesis by simp
qed

lemma execute_command_ok:
  assumes "runner_ok t"
  shows "\<exists>t'. execute_command c t = Done (t', '''') \<and> runner_ok t'"
proof (cases c)
  case (SubmitCommand order)
  let ?b = "tn_production t" and ?r = "tn_reference t"
  have t: "book_ok ?b" "mirrors ?b ?r" "\<forall>n \<in> set (live_nodes ?b). ticks (nprice n) \<noteq> 0" "tn_expected_next_trade_id t = next_trade_id ?b"
    using assms by (simp_all add: runner_ok_def)
  obtain b' res where sub: "submit no_faults ?b order = (b', Done res)" by (rule submit_total [OF t(1)])
  from submit_mirrors [OF t(1,2) sub] obtain r' where r': "ref_submit ?r order = (r', Done res)" "mirrors b' r'" by blast
  have ok': "book_ok b'" using submit_done [OF t(1) sub] by simp
  let ?t = "(remember (order_id_value (nlo_id order)) t)\<lparr>tn_production := b', tn_reference := r', tn_expected_next_trade_id := next_trade_id b'\<rparr>"
  have rem: "tn_production (remember i t) = ?b" "tn_reference (remember i t) = ?r"
    "tn_expected_next_trade_id (remember i t) = next_trade_id ?b" for i by (simp_all add: remember_def t(4))
  have "execute_command c t = Done (?t, '''')"
    using accounting_ok [OF t(1,3) sub] compare_state_ok [of ?t] ok' r' by (simp add: SubmitCommand rem sub Let_def)
  moreover have "runner_ok ?t" using ok' r'(2) submit_keeps_priced [OF t(1,3) sub] by (simp add: runner_ok_def)
  ultimately show ?thesis by blast
next
  case (CancelCommand oid)
  let ?b = "tn_production t" and ?r = "tn_reference t"
  have t: "book_ok ?b" "mirrors ?b ?r" "\<forall>n \<in> set (live_nodes ?b). ticks (nprice n) \<noteq> 0" "tn_expected_next_trade_id t = next_trade_id ?b"
    using assms by (simp_all add: runner_ok_def)
  from cancel_effect [OF t(1), of oid] obtain b' res where c: "cancel ?b oid = (b', Done res)" "book_ok b'" "(flat b', res) = spec_cancel (flat ?b) oid"
    by blast
  from cancel_mirrors [OF t(1,2) c(1)] obtain r' where r': "ref_cancel ?r oid = (r', res)" "mirrors b' r'" by blast
  let ?t = "(remember (order_id_value oid) t)\<lparr>tn_production := b', tn_reference := r'\<rparr>"
  have rem: "tn_production (remember i t) = ?b" "tn_reference (remember i t) = ?r"
    "tn_expected_next_trade_id (remember i t) = next_trade_id ?b" for i by (simp_all add: remember_def t(4))
  have "execute_command c t = Done (?t, '''')"
    using compare_state_ok [of ?t] c(2) r' by (simp add: CancelCommand rem c(1) Let_def)
  moreover have "set (live_nodes b') \<subseteq> set (live_nodes ?b)" "next_trade_id b' = next_trade_id ?b"
    using c(3) by (auto simp: spec_cancel_def flat_def live_nodes_def split: option.splits)
  then have "runner_ok ?t" using t(3) c(2) r'(2) by (auto simp: runner_ok_def rem)
  ultimately show ?thesis by blast
qed

text \<open>
  C3. The differential test passes on every sequence of commands. Whatever is submitted and cancelled, in
  whatever order, the production book and the reference book return the same results; the trades are
  numbered consecutively and account for the executed quantity; and after every command the production book
  satisfies \<open>invariants_hold\<close> and the two books agree on both best quotes, both depths, the number of active
  orders, and the view of every order id that was ever used.
\<close>
theorem differential_test_passes: "run_trace commands new_trace_runner = Done (replicate (length commands) '''')"
proof -
  have "run_trace commands t = Done (replicate (length commands) '''')" if "runner_ok t" for t
    using that
  proof (induction commands arbitrary: t)
    case (Cons c commands)
    from execute_command_ok [OF Cons.prems, of c] obtain t' where "execute_command c t = Done (t', '''')" "runner_ok t'" by blast
    with Cons.IH [of t'] show ?case by simp
  qed simp
  moreover have "runner_ok new_trace_runner"
    using book_ok_new mirrors_new by (simp add: runner_ok_def new_trace_runner_def) (simp add: new_order_book_def live_nodes_def)
  ultimately show ?thesis by blast
qed

end
