(* ===== verification/Journal_Codec.thy ===== *)
theory Journal_Codec
  imports Byte_Codec
begin

text \<open>
  The model of \<^verbatim>\<open>include/matching/journal.hpp\<close> and \<^verbatim>\<open>src/journal.cpp\<close>: the file header, the
  framed records and CRC-32C. \<open>std::vector<std::byte>\<close> and \<open>std::span\<close> are byte lists; a codec
  error is the left injection of the \<open>std::variant\<close> result; reading or writing out of range
  is \<open>Undefined\<close>.
\<close>

section \<open>Types\<close>

datatype JournalSequence = JournalSequence (sequence_value: u64)

datatype JournalCommand = SubmitLimitOrderCommand NewLimitOrder | CancelOrderCommand OrderId

datatype JournalRecordType = SubmitLimitOrderRecord | CancelOrderRecord

fun record_type_value :: "JournalRecordType \<Rightarrow> u8" where
  "record_type_value SubmitLimitOrderRecord = 1"
| "record_type_value CancelOrderRecord = 2"

datatype JournalCodecError =
    InvalidFileMagic | UnsupportedJournalVersion | UnsupportedMatchingRulesVersion | InvalidReservedBytes
  | InvalidFrameMagic | UnsupportedRecordVersion | UnsupportedRecordType | InvalidFlags
  | InvalidPayloadLength | InvalidJournalSequence | ChecksumMismatch | TruncatedInput
  | UnexpectedTrailingBytes

definition kJournalFileMagic :: "byte list" where
  "kJournalFileMagic = [0x4D, 0x41, 0x54, 0x43, 0x48, 0x4A, 0x4E, 0x4C]"

definition kJournalFrameMagic :: "byte list" where
  "kJournalFrameMagic = [0x4D, 0x4A, 0x52, 0x31]"

abbreviation (input) kJournalFormatVersion :: u16 where "kJournalFormatVersion \<equiv> 1"
abbreviation (input) kMatchingRulesVersion :: u16 where "kMatchingRulesVersion \<equiv> 1"
abbreviation (input) kJournalRecordVersion :: u8 where "kJournalRecordVersion \<equiv> 1"
abbreviation (input) kJournalFileHeaderSize :: nat where "kJournalFileHeaderSize \<equiv> 16"
abbreviation (input) kJournalFrameHeaderSize :: nat where "kJournalFrameHeaderSize \<equiv> 24"
abbreviation (input) kJournalMaximumPayloadLength :: nat where "kJournalMaximumPayloadLength \<equiv> 64"
abbreviation (input) kSubmitLimitOrderPayloadSize :: nat where "kSubmitLimitOrderPayloadSize \<equiv> 25"
abbreviation (input) kCancelOrderPayloadSize :: nat where "kCancelOrderPayloadSize \<equiv> 8"

record JournalFileHeader =
  journal_format_version :: u16
  matching_rules_version :: u16

record JournalRecord =
  rec_sequence :: JournalSequence
  rec_command :: JournalCommand

record DecodedJournalRecord =
  dec_record :: JournalRecord
  dec_consumed :: nat

abbreviation (input) kFormatVersionOffset :: nat where "kFormatVersionOffset \<equiv> 8"
abbreviation (input) kMatchingRulesVersionOffset :: nat where "kMatchingRulesVersionOffset \<equiv> 10"
abbreviation (input) kReservedOffset :: nat where "kReservedOffset \<equiv> 12"
abbreviation (input) kRecordVersionOffset :: nat where "kRecordVersionOffset \<equiv> 4"
abbreviation (input) kRecordTypeOffset :: nat where "kRecordTypeOffset \<equiv> 5"
abbreviation (input) kFlagsOffset :: nat where "kFlagsOffset \<equiv> 6"
abbreviation (input) kPayloadLengthOffset :: nat where "kPayloadLengthOffset \<equiv> 8"
abbreviation (input) kSequenceOffset :: nat where "kSequenceOffset \<equiv> 12"
abbreviation (input) kChecksumOffset :: nat where "kChecksumOffset \<equiv> 20"
abbreviation (input) kPayloadOffset :: nat where "kPayloadOffset \<equiv> 24"
abbreviation (input) kCrcHeaderLength :: nat where "kCrcHeaderLength \<equiv> 16"

section \<open>Integers\<close>

definition append_u8 :: "byte list \<Rightarrow> u8 \<Rightarrow> byte list" where
  "append_u8 bytes value = bytes @ [value]"

definition append_u16 :: "byte list \<Rightarrow> u16 \<Rightarrow> byte list" where
  "append_u16 bytes value =
     append_u8 (append_u8 bytes (ucast (drop_bit 8 value))) (ucast value)"

text \<open>\<open>for (shift = first; shift > 0; shift -= 8)\<close>, then the lowest byte.\<close>

fun append_shifts :: "byte list \<Rightarrow> 'a::len word \<Rightarrow> nat \<Rightarrow> byte list" where
  "append_shifts bytes value shift =
     (if shift > 0
      then append_shifts (append_u8 bytes (ucast (drop_bit shift value))) value (shift - 8)
      else append_u8 bytes (ucast value))"

declare append_shifts.simps [simp del]

definition append_u32 :: "byte list \<Rightarrow> u32 \<Rightarrow> byte list" where
  "append_u32 bytes value = append_shifts bytes value 24"

definition append_u64 :: "byte list \<Rightarrow> u64 \<Rightarrow> byte list" where
  "append_u64 bytes value = append_shifts bytes value 56"

definition has_bytes :: "byte list \<Rightarrow> nat \<Rightarrow> nat \<Rightarrow> bool" where
  "has_bytes bytes offset count \<longleftrightarrow> offset \<le> length bytes \<and> count \<le> length bytes - offset"

definition read_u16 :: "byte list \<Rightarrow> nat \<Rightarrow> u16 outcome" where
  "read_u16 bytes offset =
     obind (byte_at bytes offset)
       (\<lambda>hi. obind (byte_at bytes (offset + 1)) (\<lambda>lo. Done ((push_bit 8 (ucast hi)) OR ucast lo)))"

definition read_u32 :: "byte list \<Rightarrow> nat \<Rightarrow> u32 outcome" where
  "read_u32 bytes offset = read_loop bytes offset 4 0"

definition read_u64 :: "byte list \<Rightarrow> nat \<Rightarrow> u64 outcome" where
  "read_u64 bytes offset = read_loop bytes offset 8 0"

definition starts_with :: "byte list \<Rightarrow> byte list \<Rightarrow> bool" where
  "starts_with bytes magic \<longleftrightarrow> length bytes \<ge> length magic \<and> take (length magic) bytes = magic"

section \<open>CRC-32C\<close>

definition crc_bit :: "u32 \<Rightarrow> u32" where
  "crc_bit crc = (let mask = 0 - (crc AND 1) in (drop_bit 1 crc) XOR (0x82F63B78 AND mask))"

definition crc_byte :: "u32 \<Rightarrow> byte \<Rightarrow> u32" where
  "crc_byte crc b = (crc_bit ^^ 8) (crc XOR ucast b)"

definition crc32c_update :: "u32 \<Rightarrow> byte list \<Rightarrow> u32" where
  "crc32c_update state bytes = foldl crc_byte state bytes"

definition crc32c :: "byte list \<Rightarrow> u32" where
  "crc32c bytes = NOT (crc32c_update u32_max bytes)"

definition frame_crc :: "byte list \<Rightarrow> nat \<Rightarrow> u32 outcome" where
  "frame_crc header_and_payload payload_length =
     obind (subspan header_and_payload kRecordVersionOffset kCrcHeaderLength)
       (\<lambda>header. obind (subspan header_and_payload kPayloadOffset payload_length)
          (\<lambda>payload. Done (NOT (crc32c_update (crc32c_update u32_max header) payload))))"

section \<open>Records\<close>

fun expected_payload_length :: "JournalRecordType \<Rightarrow> nat" where
  "expected_payload_length SubmitLimitOrderRecord = kSubmitLimitOrderPayloadSize"
| "expected_payload_length CancelOrderRecord = kCancelOrderPayloadSize"

definition decode_record_type :: "u8 \<Rightarrow> JournalCodecError + JournalRecordType" where
  "decode_record_type raw_type =
     (if raw_type = record_type_value SubmitLimitOrderRecord then Inr SubmitLimitOrderRecord
      else if raw_type = record_type_value CancelOrderRecord then Inr CancelOrderRecord
      else Inl UnsupportedRecordType)"

fun encode_payload :: "JournalCommand \<Rightarrow> byte list" where
  "encode_payload (SubmitLimitOrderCommand order) =
     append_u64 (append_u64 (append_u8 (append_u64 [] (order_id_value (nlo_id order))) (nlo_side order))
       (ticks (nlo_price order))) (units (nlo_quantity order))"
| "encode_payload (CancelOrderCommand oid) = append_u64 [] (order_id_value oid)"

fun record_type_for :: "JournalCommand \<Rightarrow> JournalRecordType" where
  "record_type_for (SubmitLimitOrderCommand order) = SubmitLimitOrderRecord"
| "record_type_for (CancelOrderCommand oid) = CancelOrderRecord"

definition encode_file_header :: "byte list" where
  "encode_file_header =
     append_u32 (append_u16 (append_u16 kJournalFileMagic kJournalFormatVersion) kMatchingRulesVersion) 0"

definition decode_file_header :: "byte list \<Rightarrow> (JournalCodecError + JournalFileHeader) outcome" where
  "decode_file_header bytes =
     (if length bytes < kJournalFileHeaderSize then Done (Inl TruncatedInput)
      else if length bytes > kJournalFileHeaderSize then Done (Inl UnexpectedTrailingBytes)
      else if \<not> starts_with bytes kJournalFileMagic then Done (Inl InvalidFileMagic)
      else obind (read_u16 bytes kFormatVersionOffset) (\<lambda>format_version.
        if format_version \<noteq> kJournalFormatVersion then Done (Inl UnsupportedJournalVersion)
        else obind (read_u16 bytes kMatchingRulesVersionOffset) (\<lambda>rules_version.
          if rules_version \<noteq> kMatchingRulesVersion then Done (Inl UnsupportedMatchingRulesVersion)
          else obind (read_u32 bytes kReservedOffset) (\<lambda>reserved.
            if reserved \<noteq> 0 then Done (Inl InvalidReservedBytes)
            else Done (Inr \<lparr>journal_format_version = kJournalFormatVersion,
                            matching_rules_version = kMatchingRulesVersion\<rparr>)))))"

text \<open>\<open>bytes[index] = value\<close>\<close>

definition write_at :: "nat \<Rightarrow> byte \<Rightarrow> byte list \<Rightarrow> byte list outcome" where
  "write_at i b bytes = (if i < length bytes then Done (bytes[i := b]) else Undefined)"

definition encode_record :: "JournalSequence \<Rightarrow> JournalCommand \<Rightarrow> (JournalCodecError + byte list) outcome" where
  "encode_record sequence command =
     (if sequence_value sequence = 0 then Done (Inl InvalidJournalSequence)
      else
        let type = record_type_for command;
            payload = encode_payload command;
            bytes = append_u8 (append_u8 kJournalFrameMagic kJournalRecordVersion) (record_type_value type);
            bytes = append_u32 (append_u16 bytes 0) (of_nat (length payload));
            bytes = append_u32 (append_u64 bytes (sequence_value sequence)) 0 @ payload
        in obind (frame_crc bytes (length payload)) (\<lambda>checksum.
           obind (write_at kChecksumOffset (ucast (drop_bit 24 checksum)) bytes) (\<lambda>bytes.
           obind (write_at (kChecksumOffset + 1) (ucast (drop_bit 16 checksum)) bytes) (\<lambda>bytes.
           obind (write_at (kChecksumOffset + 2) (ucast (drop_bit 8 checksum)) bytes) (\<lambda>bytes.
           obind (write_at (kChecksumOffset + 3) (ucast checksum) bytes) (\<lambda>bytes.
             Done (Inr bytes)))))))"

fun decode_command :: "JournalRecordType \<Rightarrow> byte list \<Rightarrow> JournalCommand outcome" where
  "decode_command SubmitLimitOrderRecord bytes =
     obind (read_u64 bytes kPayloadOffset) (\<lambda>i.
     obind (byte_at bytes (kPayloadOffset + 8)) (\<lambda>s.
     obind (read_u64 bytes (kPayloadOffset + 9)) (\<lambda>p.
     obind (read_u64 bytes (kPayloadOffset + 17)) (\<lambda>q.
       Done (SubmitLimitOrderCommand \<lparr>nlo_id = OrderId i, nlo_side = s, nlo_price = Price p,
                                      nlo_quantity = Quantity q\<rparr>)))))"
| "decode_command CancelOrderRecord bytes =
     obind (read_u64 bytes kPayloadOffset) (\<lambda>i. Done (CancelOrderCommand (OrderId i)))"

definition decode_record_prefix :: "byte list \<Rightarrow> (JournalCodecError + DecodedJournalRecord) outcome" where
  "decode_record_prefix bytes =
     (if length bytes < kJournalFrameHeaderSize then Done (Inl TruncatedInput)
      else if \<not> starts_with bytes kJournalFrameMagic then Done (Inl InvalidFrameMagic)
      else obind (byte_at bytes kRecordVersionOffset) (\<lambda>record_version.
        if record_version \<noteq> kJournalRecordVersion then Done (Inl UnsupportedRecordVersion)
        else obind (byte_at bytes kRecordTypeOffset) (\<lambda>raw_type.
          case decode_record_type raw_type of
            Inl error \<Rightarrow> Done (Inl error)
          | Inr type \<Rightarrow> obind (read_u16 bytes kFlagsOffset) (\<lambda>flags.
              if flags \<noteq> 0 then Done (Inl InvalidFlags)
              else obind (read_u32 bytes kPayloadLengthOffset) (\<lambda>raw_payload_length.
                if unat raw_payload_length > kJournalMaximumPayloadLength \<or>
                   unat raw_payload_length \<noteq> expected_payload_length type
                then Done (Inl InvalidPayloadLength)
                else
                  let payload_length = unat raw_payload_length
                  in if \<not> has_bytes bytes kPayloadOffset payload_length then Done (Inl TruncatedInput)
                     else obind (read_u64 bytes kSequenceOffset) (\<lambda>sequence.
                       if sequence = 0 then Done (Inl InvalidJournalSequence)
                       else obind (read_u32 bytes kChecksumOffset) (\<lambda>checksum.
                         obind (frame_crc bytes payload_length) (\<lambda>crc.
                           if checksum \<noteq> crc then Done (Inl ChecksumMismatch)
                           else obind (decode_command type bytes) (\<lambda>command.
                             Done (Inr \<lparr>dec_record = \<lparr>rec_sequence = JournalSequence sequence,
                                                    rec_command = command\<rparr>,
                                        dec_consumed = kJournalFrameHeaderSize + payload_length\<rparr>))))))))))"

definition decode_record :: "byte list \<Rightarrow> (JournalCodecError + DecodedJournalRecord) outcome" where
  "decode_record bytes =
     obind (decode_record_prefix bytes) (\<lambda>result.
       case result of
         Inl error \<Rightarrow> Done (Inl error)
       | Inr decoded \<Rightarrow>
           if dec_consumed decoded \<noteq> length bytes then Done (Inl UnexpectedTrailingBytes)
           else Done (Inr decoded))"

end
