(* ===== verification/Posix_Files.thy ===== *)
theory Posix_Files
  imports Byte_Codec
begin

text \<open>
  The file interface of the operating system, which is not part of the repository: a record of the
  calls the journal makes, over an arbitrary type of system states. The definitions that do file
  I/O take it as an argument. What they rely on is \<open>posix_laws\<close>, the documented behaviour of
  \<open>open\<close>, \<open>write\<close>, \<open>pread\<close>, \<open>fstat\<close>, \<open>ftruncate\<close>, \<open>fsync\<close> and \<open>close\<close> on files that only this
  process uses: a write to an \<open>O_APPEND\<close> descriptor appends a prefix of its buffer, a read returns
  bytes of the file and nothing only at its end, a successful \<open>fsync\<close> makes the contents stable.
  Every call may fail, and calls may be interrupted, though not without end.
\<close>

section \<open>The calls\<close>

datatype errno = ENOENT | EEXIST | EINTR | EIO | EOVERFLOW | EAGAIN | OtherErrno int

text \<open>The flag combinations in use.\<close>

datatype OpenMode =
    OpenCreate \<comment> \<open>\<open>O_WRONLY | O_APPEND | O_CREAT | O_EXCL | O_CLOEXEC\<close>\<close>
  | OpenAppend \<comment> \<open>\<open>O_RDWR | O_APPEND | O_CLOEXEC\<close>\<close>
  | OpenRead \<comment> \<open>\<open>O_RDONLY | O_CLOEXEC\<close>\<close>
  | OpenDirectory \<comment> \<open>\<open>O_RDONLY | O_DIRECTORY | O_CLOEXEC\<close>\<close>

type_synonym path = string

text \<open>A left injection is the value of \<open>errno\<close> after the call returned -1.\<close>

record 's posix =
  sys_open :: "path \<Rightarrow> OpenMode \<Rightarrow> 's \<Rightarrow> 's \<times> (errno + int)"
  sys_write :: "int \<Rightarrow> byte list \<Rightarrow> 's \<Rightarrow> 's \<times> (errno + nat)"
  sys_pread :: "int \<Rightarrow> nat \<Rightarrow> nat \<Rightarrow> 's \<Rightarrow> 's \<times> (errno + byte list)"
  sys_fstat_size :: "int \<Rightarrow> 's \<Rightarrow> 's \<times> (errno + int)"
  sys_ftruncate :: "int \<Rightarrow> nat \<Rightarrow> 's \<Rightarrow> 's \<times> errno option"
  sys_fsync :: "int \<Rightarrow> 's \<Rightarrow> 's \<times> errno option"
  sys_close :: "int \<Rightarrow> 's \<Rightarrow> 's"

section \<open>What is relied on\<close>

text \<open>
  The observations the laws speak about: the contents of every file, the file an open descriptor
  refers to, the contents that are known to have reached the device, and a bound on how many calls
  will still be interrupted.
\<close>

record 's file_views =
  content :: "'s \<Rightarrow> path \<Rightarrow> byte list option"
  target :: "'s \<Rightarrow> int \<Rightarrow> path option"
  synced :: "'s \<Rightarrow> path \<Rightarrow> byte list"
  interrupts :: "'s \<Rightarrow> nat"

definition same_files :: "'s file_views \<Rightarrow> 's \<Rightarrow> 's \<Rightarrow> bool" where
  "same_files V s s' \<longleftrightarrow> content V s' = content V s \<and> target V s' = target V s \<and> synced V s' = synced V s"

definition interrupted_less :: "'s file_views \<Rightarrow> 's \<Rightarrow> 's \<Rightarrow> errno + 'a \<Rightarrow> bool" where
  "interrupted_less V s s' r \<longleftrightarrow>
     interrupts V s' \<le> interrupts V s \<and> (r = Inl EINTR \<longrightarrow> interrupts V s' < interrupts V s)"

definition open_law :: "'s posix \<Rightarrow> 's file_views \<Rightarrow> bool" where
  "open_law os V \<longleftrightarrow> (\<forall>path mode s s' r. sys_open os path mode s = (s', r) \<longrightarrow>
     interrupts V s' \<le> interrupts V s \<and>
     (case r of
        Inl e \<Rightarrow> same_files V s s'
      | Inr fd \<Rightarrow> 0 \<le> fd \<and> target V s fd = None \<and> target V s' = (target V s)(fd \<mapsto> path) \<and>
          (if mode = OpenCreate
           then content V s path = None \<and> content V s' = (content V s)(path \<mapsto> []) \<and> synced V s' = (synced V s)(path := [])
           else content V s' = content V s \<and> synced V s' = synced V s \<and>
                (mode = OpenAppend \<or> mode = OpenRead \<longrightarrow> content V s path \<noteq> None) \<and>
                (mode = OpenDirectory \<longrightarrow> content V s path = None))))"

definition write_law :: "'s posix \<Rightarrow> 's file_views \<Rightarrow> bool" where
  "write_law os V \<longleftrightarrow> (\<forall>fd path c bytes s s' r.
     sys_write os fd bytes s = (s', r) \<longrightarrow> target V s fd = Some path \<longrightarrow> content V s path = Some c \<longrightarrow>
     interrupted_less V s s' r \<and> target V s' = target V s \<and> synced V s' = synced V s \<and>
     (case r of
        Inl e \<Rightarrow> content V s' = content V s
      | Inr n \<Rightarrow> n \<le> length bytes \<and> content V s' = (content V s)(path \<mapsto> c @ take n bytes)))"

definition pread_law :: "'s posix \<Rightarrow> 's file_views \<Rightarrow> bool" where
  "pread_law os V \<longleftrightarrow> (\<forall>fd path c count offset s s' r.
     sys_pread os fd count offset s = (s', r) \<longrightarrow> target V s fd = Some path \<longrightarrow> content V s path = Some c \<longrightarrow>
     interrupted_less V s s' r \<and> same_files V s s' \<and>
     (case r of
        Inl e \<Rightarrow> True
      | Inr bytes \<Rightarrow> length bytes \<le> count \<and> bytes = take (length bytes) (drop offset c) \<and>
          (bytes = [] \<longrightarrow> count = 0 \<or> length c \<le> offset)))"

definition fstat_law :: "'s posix \<Rightarrow> 's file_views \<Rightarrow> bool" where
  "fstat_law os V \<longleftrightarrow> (\<forall>fd path c s s' r.
     sys_fstat_size os fd s = (s', r) \<longrightarrow> target V s fd = Some path \<longrightarrow> content V s path = Some c \<longrightarrow>
     interrupts V s' \<le> interrupts V s \<and> same_files V s s' \<and> (\<forall>size. r = Inr size \<longrightarrow> size = int (length c)))"

definition ftruncate_law :: "'s posix \<Rightarrow> 's file_views \<Rightarrow> bool" where
  "ftruncate_law os V \<longleftrightarrow> (\<forall>fd path c n s s' r.
     sys_ftruncate os fd n s = (s', r) \<longrightarrow> target V s fd = Some path \<longrightarrow> content V s path = Some c \<longrightarrow> n \<le> length c \<longrightarrow>
     interrupts V s' \<le> interrupts V s \<and> target V s' = target V s \<and>
     (case r of
        Some e \<Rightarrow> content V s' = content V s \<and> synced V s' = synced V s
      | None \<Rightarrow> content V s' = (content V s)(path \<mapsto> take n c) \<and>
                synced V s' = (synced V s)(path := take n (synced V s path))))"

definition fsync_law :: "'s posix \<Rightarrow> 's file_views \<Rightarrow> bool" where
  "fsync_law os V \<longleftrightarrow> (\<forall>fd s s' r. sys_fsync os fd s = (s', r) \<longrightarrow>
     interrupts V s' \<le> interrupts V s \<and> content V s' = content V s \<and> target V s' = target V s \<and>
     synced V s' =
       (case r of
          Some e \<Rightarrow> synced V s
        | None \<Rightarrow> (case target V s fd of
                     None \<Rightarrow> synced V s
                   | Some path \<Rightarrow> (case content V s path of
                                     None \<Rightarrow> synced V s
                                   | Some c \<Rightarrow> (synced V s)(path := c)))))"

definition close_law :: "'s posix \<Rightarrow> 's file_views \<Rightarrow> bool" where
  "close_law os V \<longleftrightarrow> (\<forall>fd s. content V (sys_close os fd s) = content V s \<and>
     target V (sys_close os fd s) = (target V s)(fd := None) \<and> synced V (sys_close os fd s) = synced V s \<and>
     interrupts V (sys_close os fd s) \<le> interrupts V s)"

text \<open>The size of a file fits into \<open>off_t\<close>, a signed 64-bit integer.\<close>

definition size_law :: "'s file_views \<Rightarrow> bool" where
  "size_law V \<longleftrightarrow> (\<forall>s path c. content V s path = Some c \<longrightarrow> length c < 2 ^ 63)"

definition posix_laws :: "'s posix \<Rightarrow> 's file_views \<Rightarrow> bool" where
  "posix_laws os V \<longleftrightarrow> open_law os V \<and> write_law os V \<and> pread_law os V \<and> fstat_law os V \<and>
     ftruncate_law os V \<and> fsync_law os V \<and> close_law os V \<and> size_law V"

end
