(* ===== verification/Journal_Storage.thy ===== *)
theory Journal_Storage
  imports Journal_Codec Posix_Files
begin

text \<open>
  The model of \<^verbatim>\<open>include/matching/journal_storage.hpp\<close> and \<^verbatim>\<open>src/journal_storage.cpp\<close>: scanning a
  journal file, creating and reopening it, cutting off a torn tail, and appending a batch with one
  \<open>fsync\<close>. A function that does I/O takes the operating system and its state and returns the new
  state with its result; \<open>None\<close> means that it does not return, because a call is interrupted for ever
  or because the codec has read outside its buffer. Descriptors owned by a \<open>FileDescriptor\<close> are closed
  on every path that leaves its scope. The fault injection for tests is switched off.
\<close>

section \<open>Types\<close>

datatype JournalStorageErrorCode =
    FileAlreadyExists | FileNotFound | OpenFailed | ReadFailed | WriteFailed | SyncFailed
  | DirectorySyncFailed | TruncateFailed | InvalidJournal | SequenceViolation | JournalSequenceExhausted
  | TruncatedTailRequiresRepair | NoTruncatedTail | WriterFailed | CodecFailure | EmptyBatch

record JournalStorageError =
  jse_code :: JournalStorageErrorCode
  jse_system_error :: "errno option"
  jse_codec_error :: "JournalCodecError option"

record JournalScan =
  scan_records :: "JournalRecord list"
  scan_valid_size :: nat
  scan_has_truncated_tail :: bool
  scan_next_sequence :: "JournalSequence option"

record JournalWriter =
  wr_descriptor :: int
  wr_next_sequence :: "JournalSequence option"
  wr_failed :: bool

abbreviation (input) off_t_max :: nat where "off_t_max \<equiv> 9223372036854775807"
abbreviation (input) size_t_max :: nat where "size_t_max \<equiv> 18446744073709551615"

definition make_error ::
  "JournalStorageErrorCode \<Rightarrow> errno option \<Rightarrow> JournalCodecError option \<Rightarrow> JournalStorageError" where
  "make_error code system_error codec_error =
     \<lparr>jse_code = code, jse_system_error = system_error, jse_codec_error = codec_error\<rparr>"

definition open_error :: "errno \<Rightarrow> JournalStorageError" where
  "open_error error_number =
     (if error_number = ENOENT then make_error FileNotFound (Some error_number) None
      else make_error OpenFailed (Some error_number) None)"

definition close_descriptor :: "'s posix \<Rightarrow> int \<Rightarrow> 's \<Rightarrow> 's" where
  "close_descriptor os descriptor s = (if descriptor \<ge> 0 then sys_close os descriptor s else s)"

section \<open>Reading and writing\<close>

partial_function (option) write_all ::
  "'s posix \<Rightarrow> int \<Rightarrow> byte list \<Rightarrow> nat \<Rightarrow> 's \<Rightarrow> ('s \<times> JournalStorageError option) option" where
  "write_all os descriptor bytes written s =
     (if written < length bytes
      then case sys_write os descriptor (drop written bytes) s of
          (s, Inr result) \<Rightarrow>
            if result > 0 then write_all os descriptor bytes (written + result) s
            else Some (s, Some (make_error WriteFailed (Some EIO) None))
        | (s, Inl error) \<Rightarrow>
            if error = EINTR then write_all os descriptor bytes written s
            else Some (s, Some (make_error WriteFailed (Some error) None))
      else Some (s, None))"

partial_function (option) pread_loop ::
  "'s posix \<Rightarrow> int \<Rightarrow> nat \<Rightarrow> nat \<Rightarrow> byte list \<Rightarrow> 's \<Rightarrow> ('s \<times> (JournalStorageError + byte list)) option" where
  "pread_loop os descriptor offset byte_count bytes s =
     (if length bytes < byte_count
      then case sys_pread os descriptor (byte_count - length bytes) (offset + length bytes) s of
          (s, Inr chunk) \<Rightarrow>
            if chunk \<noteq> [] then pread_loop os descriptor offset byte_count (bytes @ chunk) s
            else Some (s, Inr bytes)
        | (s, Inl error) \<Rightarrow>
            if error = EINTR then pread_loop os descriptor offset byte_count bytes s
            else Some (s, Inl (make_error ReadFailed (Some error) None))
      else Some (s, Inr bytes))"

definition pread_at_most ::
  "'s posix \<Rightarrow> int \<Rightarrow> nat \<Rightarrow> nat \<Rightarrow> 's \<Rightarrow> ('s \<times> (JournalStorageError + byte list)) option" where
  "pread_at_most os descriptor offset byte_count s =
     (if offset > off_t_max then Some (s, Inl (make_error ReadFailed (Some EOVERFLOW) None))
      else pread_loop os descriptor offset byte_count [] s)"

definition file_size :: "'s posix \<Rightarrow> int \<Rightarrow> 's \<Rightarrow> 's \<times> (JournalStorageError + nat)" where
  "file_size os descriptor s =
     (case sys_fstat_size os descriptor s of
        (s, Inl error) \<Rightarrow> (s, Inl (make_error ReadFailed (Some error) None))
      | (s, Inr st_size) \<Rightarrow>
          if st_size < 0 then (s, Inl (make_error ReadFailed (Some EOVERFLOW) None))
          else if nat st_size > size_t_max then (s, Inl (make_error ReadFailed (Some EOVERFLOW) None))
          else (s, Inr (nat st_size)))"

section \<open>Scanning\<close>

text \<open>The records of the journal, with \<open>expected\<close> the sequence number that has to come next.\<close>

partial_function (option) scan_loop ::
  "'s posix \<Rightarrow> int \<Rightarrow> nat \<Rightarrow> JournalScan \<Rightarrow> u64 \<Rightarrow> 's \<Rightarrow> ('s \<times> (JournalStorageError + JournalScan)) option" where
  "scan_loop os descriptor len scan expected s =
     (if scan_valid_size scan < len
      then let remaining = len - scan_valid_size scan;
               read_size = min remaining (kJournalFrameHeaderSize + kJournalMaximumPayloadLength)
           in Option.bind (pread_at_most os descriptor (scan_valid_size scan) read_size s) (\<lambda>(s, bytes_result).
              case bytes_result of
                Inl error \<Rightarrow> Some (s, Inl error)
              | Inr bytes \<Rightarrow>
                  if length bytes \<noteq> read_size then Some (s, Inl (make_error ReadFailed (Some EIO) None))
                  else case decode_record_prefix bytes of
                      Done (Inl error) \<Rightarrow>
                        if error = TruncatedInput then Some (s, Inr (scan\<lparr>scan_has_truncated_tail := True\<rparr>))
                        else Some (s, Inl (make_error InvalidJournal None (Some error)))
                    | Done (Inr record) \<Rightarrow>
                        if sequence_value (rec_sequence (dec_record record)) \<noteq> expected
                        then Some (s, Inl (make_error SequenceViolation None None))
                        else let scan = scan\<lparr>scan_records := scan_records scan @ [dec_record record],
                                             scan_valid_size := scan_valid_size scan + dec_consumed record\<rparr>
                             in if expected = u64_max
                                then let scan = scan\<lparr>scan_next_sequence := None\<rparr>
                                     in if scan_valid_size scan \<noteq> len
                                        then Some (s, Inl (make_error SequenceViolation None None))
                                        else Some (s, Inr scan)
                                else scan_loop os descriptor len
                                       (scan\<lparr>scan_next_sequence := Some (JournalSequence (expected + 1))\<rparr>)
                                       (expected + 1) s
                    | _ \<Rightarrow> None)
      else Some (s, Inr scan))"

definition scan_descriptor ::
  "'s posix \<Rightarrow> int \<Rightarrow> 's \<Rightarrow> ('s \<times> (JournalStorageError + JournalScan)) option" where
  "scan_descriptor os descriptor s =
     (case file_size os descriptor s of
        (s, Inl error) \<Rightarrow> Some (s, Inl error)
      | (s, Inr len) \<Rightarrow>
          if len < kJournalFileHeaderSize
          then Some (s, Inl (make_error InvalidJournal None (Some TruncatedInput)))
          else Option.bind (pread_at_most os descriptor 0 kJournalFileHeaderSize s) (\<lambda>(s, header_result).
               case header_result of
                 Inl error \<Rightarrow> Some (s, Inl error)
               | Inr header_bytes \<Rightarrow>
                   if length header_bytes \<noteq> kJournalFileHeaderSize
                   then Some (s, Inl (make_error ReadFailed (Some EIO) None))
                   else case decode_file_header header_bytes of
                       Done (Inl error) \<Rightarrow> Some (s, Inl (make_error InvalidJournal None (Some error)))
                     | Done (Inr header) \<Rightarrow>
                         scan_loop os descriptor len
                           \<lparr>scan_records = [], scan_valid_size = kJournalFileHeaderSize,
                            scan_has_truncated_tail = False, scan_next_sequence = Some (JournalSequence 1)\<rparr> 1 s
                     | _ \<Rightarrow> None))"

definition journal_scan ::
  "'s posix \<Rightarrow> path \<Rightarrow> 's \<Rightarrow> ('s \<times> (JournalStorageError + JournalScan)) option" where
  "journal_scan os path s =
     (case sys_open os path OpenRead s of
        (s, Inl error) \<Rightarrow> Some (s, Inl (open_error error))
      | (s, Inr descriptor) \<Rightarrow>
          Option.bind (scan_descriptor os descriptor s) (\<lambda>(s, result).
          Some (close_descriptor os descriptor s, result)))"

section \<open>Opening\<close>

text \<open>
  \<open>std::filesystem::path::parent_path\<close>: the path up to its last separator, without trailing
  separators, and the root for a file in the root directory.
\<close>

definition parent_path :: "path \<Rightarrow> path" where
  "parent_path path =
     (let parent = rev (dropWhile (\<lambda>c. c = CHR ''/'') (dropWhile (\<lambda>c. c \<noteq> CHR ''/'') (rev path)))
      in if parent = [] then takeWhile (\<lambda>c. c = CHR ''/'') path else parent)"

definition sync_directory :: "'s posix \<Rightarrow> path \<Rightarrow> 's \<Rightarrow> 's \<times> JournalStorageError option" where
  "sync_directory os path s =
     (let parent = (if parent_path path \<noteq> [] then parent_path path else ''.'')
      in case sys_open os parent OpenDirectory s of
           (s, Inl error) \<Rightarrow> (s, Some (make_error DirectorySyncFailed (Some error) None))
         | (s, Inr directory) \<Rightarrow>
             (case sys_fsync os directory s of
                (s, Some error) \<Rightarrow>
                  (close_descriptor os directory s, Some (make_error DirectorySyncFailed (Some error) None))
              | (s, None) \<Rightarrow> (close_descriptor os directory s, None)))"

definition open_existing_for_append :: "'s posix \<Rightarrow> path \<Rightarrow> 's \<Rightarrow> 's \<times> (JournalStorageError + int)" where
  "open_existing_for_append os path s =
     (case sys_open os path OpenAppend s of
        (s, Inl error) \<Rightarrow> (s, Inl (open_error error))
      | (s, Inr descriptor) \<Rightarrow> (s, Inr descriptor))"

definition new_writer :: "int \<Rightarrow> JournalSequence option \<Rightarrow> JournalWriter" where
  "new_writer descriptor next_sequence =
     \<lparr>wr_descriptor = descriptor, wr_next_sequence = next_sequence, wr_failed = False\<rparr>"

definition writer_create ::
  "'s posix \<Rightarrow> path \<Rightarrow> 's \<Rightarrow> ('s \<times> (JournalStorageError + JournalWriter)) option" where
  "writer_create os path s =
     (case sys_open os path OpenCreate s of
        (s, Inl error) \<Rightarrow>
          Some (s, Inl (if error = EEXIST then make_error FileAlreadyExists (Some error) None else open_error error))
      | (s, Inr file) \<Rightarrow>
          Option.bind (write_all os file encode_file_header 0 s) (\<lambda>(s, write_error).
          case write_error of
            Some error \<Rightarrow> Some (close_descriptor os file s, Inl error)
          | None \<Rightarrow>
              (case sys_fsync os file s of
                 (s, Some error) \<Rightarrow>
                   Some (close_descriptor os file s, Inl (make_error SyncFailed (Some error) None))
               | (s, None) \<Rightarrow>
                   (case sync_directory os path s of
                      (s, Some error) \<Rightarrow> Some (close_descriptor os file s, Inl error)
                    | (s, None) \<Rightarrow> Some (s, Inr (new_writer file (Some (JournalSequence 1))))))))"

definition writer_open_recovered ::
  "'s posix \<Rightarrow> path \<Rightarrow> 's \<Rightarrow> ('s \<times> (JournalStorageError + JournalWriter)) option" where
  "writer_open_recovered os path s =
     (case open_existing_for_append os path s of
        (s, Inl error) \<Rightarrow> Some (s, Inl error)
      | (s, Inr file) \<Rightarrow>
          Option.bind (scan_descriptor os file s) (\<lambda>(s, scan_result).
          case scan_result of
            Inl error \<Rightarrow> Some (close_descriptor os file s, Inl error)
          | Inr scan \<Rightarrow>
              if scan_has_truncated_tail scan
              then Some (close_descriptor os file s, Inl (make_error TruncatedTailRequiresRepair None None))
              else Some (s, Inr (new_writer file (scan_next_sequence scan)))))"

definition writer_repair_and_open ::
  "'s posix \<Rightarrow> path \<Rightarrow> 's \<Rightarrow> ('s \<times> (JournalStorageError + JournalWriter)) option" where
  "writer_repair_and_open os path s =
     (case open_existing_for_append os path s of
        (s, Inl error) \<Rightarrow> Some (s, Inl error)
      | (s, Inr file) \<Rightarrow>
          Option.bind (scan_descriptor os file s) (\<lambda>(s, scan_result).
          case scan_result of
            Inl error \<Rightarrow> Some (close_descriptor os file s, Inl error)
          | Inr scan \<Rightarrow>
              if \<not> scan_has_truncated_tail scan
              then Some (close_descriptor os file s, Inl (make_error NoTruncatedTail None None))
              else if scan_valid_size scan > off_t_max
              then Some (close_descriptor os file s, Inl (make_error TruncateFailed (Some EOVERFLOW) None))
              else (case sys_ftruncate os file (scan_valid_size scan) s of
                 (s, Some error) \<Rightarrow>
                   Some (close_descriptor os file s, Inl (make_error TruncateFailed (Some error) None))
               | (s, None) \<Rightarrow>
                   (case sys_fsync os file s of
                      (s, Some error) \<Rightarrow>
                        Some (close_descriptor os file s, Inl (make_error SyncFailed (Some error) None))
                    | (s, None) \<Rightarrow> Some (s, Inr (new_writer file (scan_next_sequence scan)))))))"

section \<open>The writer\<close>

definition writer_moved_from :: JournalWriter where
  "writer_moved_from = \<lparr>wr_descriptor = -1, wr_next_sequence = None, wr_failed = True\<rparr>"

text \<open>Move construction and move assignment return the new value of the target and of the source.\<close>

definition writer_move :: "JournalWriter \<Rightarrow> JournalWriter \<times> JournalWriter" where
  "writer_move other = (other, writer_moved_from)"

definition writer_assign ::
  "'s posix \<Rightarrow> JournalWriter \<Rightarrow> JournalWriter \<Rightarrow> 's \<Rightarrow> 's \<times> JournalWriter \<times> JournalWriter" where
  "writer_assign os this other s = (close_descriptor os (wr_descriptor this) s, other, writer_moved_from)"

definition writer_destroy :: "'s posix \<Rightarrow> JournalWriter \<Rightarrow> 's \<Rightarrow> 's" where
  "writer_destroy os w s = close_descriptor os (wr_descriptor w) s"

text \<open>
  The frames of a batch with their sequence numbers. \<open>None\<close> would be an access outside the frame;
  the encoder has none.
\<close>

fun prepare_frames ::
  "u64 \<Rightarrow> nat \<Rightarrow> JournalCommand list \<Rightarrow> nat \<Rightarrow> byte list list \<Rightarrow> JournalSequence list \<Rightarrow>
   (JournalStorageError + byte list list \<times> JournalSequence list) option" where
  "prepare_frames first_sequence index [] total_size encoded_frames assigned_sequences =
     Some (Inr (encoded_frames, assigned_sequences))"
| "prepare_frames first_sequence index (command # commands) total_size encoded_frames assigned_sequences =
     (let sequence = JournalSequence (first_sequence + of_nat index)
      in case encode_record sequence command of
           Done (Inl codec_error) \<Rightarrow> Some (Inl (make_error CodecFailure None (Some codec_error)))
         | Done (Inr frame) \<Rightarrow>
             if length frame > size_t_max - total_size then Some (Inl (make_error CodecFailure None None))
             else prepare_frames first_sequence (Suc index) commands (total_size + length frame)
                    (encoded_frames @ [frame]) (assigned_sequences @ [sequence])
         | _ \<Rightarrow> None)"

fun write_frames ::
  "'s posix \<Rightarrow> int \<Rightarrow> byte list list \<Rightarrow> 's \<Rightarrow> ('s \<times> JournalStorageError option) option" where
  "write_frames os descriptor [] s = Some (s, None)"
| "write_frames os descriptor (frame # frames) s =
     Option.bind (write_all os descriptor frame 0 s) (\<lambda>(s, write_error).
     case write_error of
       Some error \<Rightarrow> Some (s, Some error)
     | None \<Rightarrow> write_frames os descriptor frames s)"

text \<open>\<open>out_of_memory\<close> says that an allocation throws while the frames are prepared.\<close>

definition append_batch_and_sync ::
  "'s posix \<Rightarrow> bool \<Rightarrow> JournalWriter \<Rightarrow> JournalCommand list \<Rightarrow> 's \<Rightarrow>
   ('s \<times> JournalWriter \<times> (JournalStorageError + JournalSequence list)) option" where
  "append_batch_and_sync os out_of_memory w commands s =
     (if wr_failed w then Some (s, w, Inl (make_error WriterFailed None None))
      else if commands = [] then Some (s, w, Inl (make_error EmptyBatch None None))
      else case wr_next_sequence w of
        None \<Rightarrow> Some (s, w, Inl (make_error JournalSequenceExhausted None None))
      | Some next_sequence \<Rightarrow>
          (let first_sequence = sequence_value next_sequence;
               available = u64_max - first_sequence + 1
           in if length commands > unat available
              then Some (s, w, Inl (make_error JournalSequenceExhausted None None))
              else if out_of_memory then Some (s, w, Inl (make_error CodecFailure None None))
              else Option.bind (prepare_frames first_sequence 0 commands 0 [] []) (\<lambda>prepared.
                case prepared of
                  Inl error \<Rightarrow> Some (s, w, Inl error)
                | Inr (encoded_frames, assigned_sequences) \<Rightarrow>
                    Option.bind (write_frames os (wr_descriptor w) encoded_frames s) (\<lambda>(s, write_error).
                    case write_error of
                      Some error \<Rightarrow> Some (s, w\<lparr>wr_failed := True\<rparr>, Inl error)
                    | None \<Rightarrow>
                        (case sys_fsync os (wr_descriptor w) s of
                           (s, Some error) \<Rightarrow>
                             Some (s, w\<lparr>wr_failed := True\<rparr>, Inl (make_error SyncFailed (Some error) None))
                         | (s, None) \<Rightarrow>
                             Some (s, w\<lparr>wr_next_sequence :=
                                        (if length commands = unat available then None
                                         else Some (JournalSequence (first_sequence + of_nat (length commands))))\<rparr>,
                                   Inr assigned_sequences))))))"

definition append_and_sync ::
  "'s posix \<Rightarrow> bool \<Rightarrow> JournalWriter \<Rightarrow> JournalCommand \<Rightarrow> 's \<Rightarrow>
   ('s \<times> JournalWriter \<times> (JournalStorageError + JournalSequence)) option" where
  "append_and_sync os out_of_memory w command s =
     Option.bind (append_batch_and_sync os out_of_memory w [command] s) (\<lambda>(s, w, result).
     case result of
       Inl error \<Rightarrow> Some (s, w, Inl error)
     | Inr [] \<Rightarrow> None
     | Inr (sequence # _) \<Rightarrow> Some (s, w, Inr sequence))"

end
