(* ===== verification/Journal_Records.thy ===== *)
theory Journal_Records
  imports Journal_Codec
begin

text \<open>
  Properties of the journal codec: encoding and decoding are inverse to each other, a record that
  is cut short is reported as truncated, a record with a corrupted byte is never accepted, and
  no input makes a decoder read outside of it.
\<close>

section \<open>Integers\<close>

lemma append_shifts_be: "append_shifts bytes v (8 * n) = bytes @ be_bytes (Suc n) v"
proof (induction n arbitrary: bytes)
  case 0
  then show ?case by (simp add: append_shifts.simps append_u8_def be_bytes_def)
next
  case (Suc n)
  have "append_shifts bytes v (8 * Suc n) =
      append_shifts (append_u8 bytes (ucast (drop_bit (8 * Suc n) v))) v (8 * n)"
    by (subst append_shifts.simps) simp
  also have "\<dots> = bytes @ be_bytes (Suc (Suc n)) v"
    unfolding Suc append_u8_def by (simp add: be_bytes_top [of "Suc n"])
  finally show ?case .
qed

interpretation ju16: big_endian append_u16 read_u16 2
proof
  show "LENGTH(16) = 8 * 2" by simp
  show "append_u16 bytes v = bytes @ be_bytes 2 v" for bytes v
    by (simp add: append_u16_def append_u8_def be_bytes_def upt_rec)
  show "read_u16 bytes offset = (if offset + 2 \<le> length bytes
      then Done (be_value (take 2 (drop offset bytes))) else Undefined)" for bytes offset
  proof -
    have "read_u16 bytes offset = read_loop bytes offset 2 0"
      by (simp add: read_u16_def numeral_2_eq_2)
    then show ?thesis by (simp add: read_loop_eq be_value_def)
  qed
qed

interpretation ju32: big_endian append_u32 read_u32 4
proof
  show "LENGTH(32) = 8 * 4" by simp
  show "append_u32 bytes v = bytes @ be_bytes 4 v" for bytes v
    using append_shifts_be [of bytes v 3] by (simp add: append_u32_def)
  show "read_u32 bytes offset = (if offset + 4 \<le> length bytes
      then Done (be_value (take 4 (drop offset bytes))) else Undefined)" for bytes offset
    by (simp add: read_u32_def read_loop_eq be_value_def)
qed

interpretation ju64: big_endian append_u64 read_u64 8
proof
  show "LENGTH(64) = 8 * 8" by simp
  show "append_u64 bytes v = bytes @ be_bytes 8 v" for bytes v
    using append_shifts_be [of bytes v 7] by (simp add: append_u64_def)
  show "read_u64 bytes offset = (if offset + 8 \<le> length bytes
      then Done (be_value (take 8 (drop offset bytes))) else Undefined)" for bytes offset
    by (simp add: read_u64_def read_loop_eq be_value_def)
qed

lemmas journal_append = append_u8_def ju16.append_word ju32.append_word ju64.append_word

section \<open>CRC-32C\<close>

text \<open>
  The polynomial has its top bit set, so the bit that is shifted out can be read off the result:
  a step loses nothing, and two different states stay different whatever bytes follow.
\<close>

lemma crc_bit_top: "bit (crc_bit c) 31 \<longleftrightarrow> bit c 0"
proof -
  have "bit (drop_bit 1 c) 31 = False" by (auto simp: bit_drop_bit_eq dest: bit_imp_le_length)
  moreover have "bit (0x82F63B78 :: u32) 31" by simp
  moreover have "0 - (c AND 1) = (if bit c 0 then - 1 else 0)"
    by (simp add: and_one_eq bit_0 mod_2_eq_odd)
  ultimately show ?thesis by (simp add: crc_bit_def Let_def bit_xor_iff bit_and_iff)
qed

lemma word_xor_cancel: "a XOR m = b XOR m \<longleftrightarrow> a = (b :: 'a::len word)"
  by (metis xor.assoc xor.right_neutral xor_self_eq)

lemma inj_crc_bit: "inj crc_bit"
proof (rule injI)
  fix c d assume eq: "crc_bit c = crc_bit d"
  then have low: "bit c 0 = bit d 0" using crc_bit_top by metis
  then have "c AND 1 = d AND 1" by (simp add: and_one_eq bit_0 mod_2_eq_odd)
  with eq have "drop_bit 1 c = drop_bit 1 d"
    using word_xor_cancel [of "drop_bit 1 c" _ "drop_bit 1 d"] by (simp add: crc_bit_def Let_def)
  then have "bit c (Suc n) = bit d (Suc n)" for n by (metis bit_drop_bit_eq comp_apply plus_1_eq_Suc)
  with low show "c = d" by (intro bit_word_eqI) (metis old.nat.exhaust)
qed

lemma inj_crc_bits: "inj (crc_bit ^^ n)"
  by (rule inj_fn [OF inj_crc_bit])

lemma crc_byte_state: "crc_byte c b = crc_byte d b \<longleftrightarrow> c = d"
  unfolding crc_byte_def inj_eq [OF inj_crc_bits] by (rule word_xor_cancel)

lemma crc_byte_input: "crc_byte c a = crc_byte c b \<longleftrightarrow> a = b"
proof
  assume "crc_byte c a = crc_byte c b"
  then have "c XOR ucast a = c XOR ucast b" unfolding crc_byte_def inj_eq [OF inj_crc_bits] .
  then have eq: "(ucast a :: u32) = ucast b" by (simp add: word_xor_cancel xor.commute [of c])
  have "ucast (ucast z :: u32) = z" for z :: byte
    by (rule bit_word_eqI) (auto simp: bit_ucast_iff dest: bit_imp_le_length)
  then show "a = b" using eq by metis
qed simp

lemma crc_update_state: "crc32c_update c bs = crc32c_update d bs \<longleftrightarrow> c = d"
  unfolding crc32c_update_def by (induction bs arbitrary: c d) (simp_all add: crc_byte_state)

lemma crc_update_append: "crc32c_update c (xs @ ys) = crc32c_update (crc32c_update c xs) ys"
  by (simp add: crc32c_update_def)

lemma crc_update_one_byte:
  "crc32c_update c (xs @ a # ys) = crc32c_update c (xs @ b # ys) \<longleftrightarrow> a = b"
proof -
  have step: "crc32c_update c (xs @ z # ys) = crc32c_update (crc_byte (crc32c_update c xs) z) ys" for z
    by (simp add: crc32c_update_def)
  show ?thesis unfolding step crc_update_state by (rule crc_byte_input)
qed

section \<open>The layout of a record\<close>

text \<open>The 16 bytes of the header that the checksum covers.\<close>

definition frame_header :: "u8 \<Rightarrow> u8 \<Rightarrow> u16 \<Rightarrow> u32 \<Rightarrow> u64 \<Rightarrow> byte list" where
  "frame_header version type flags len sequence =
     [version, type] @ be_bytes 2 flags @ be_bytes 4 len @ be_bytes 8 sequence"

lemma length_frame_header [simp]: "length (frame_header v t fl len sq) = 16"
  by (simp add: frame_header_def)

definition checksum_of :: "byte list \<Rightarrow> byte list \<Rightarrow> u32" where
  "checksum_of header payload = NOT (crc32c_update u32_max (header @ payload))"

lemma length_frame_magic [simp]: "length kJournalFrameMagic = 4"
  by (simp add: kJournalFrameMagic_def)

lemma frame_reads:
  fixes m v t fl len sq ck rest
  defines "bs \<equiv> m @ frame_header v t fl len sq @ be_bytes 4 ck @ rest"
  assumes m: "length m = 4"
  shows "length bs = 24 + length rest" "starts_with bs kJournalFrameMagic \<longleftrightarrow> m = kJournalFrameMagic"
    "byte_at bs 4 = Done v" "byte_at bs 5 = Done t" "read_u16 bs 6 = Done fl" "read_u32 bs 8 = Done len"
    "read_u64 bs 12 = Done sq" "read_u32 bs 20 = Done ck" "has_bytes bs 24 n \<longleftrightarrow> n \<le> length rest"
    "n \<le> length rest \<Longrightarrow> frame_crc bs n = Done (checksum_of (frame_header v t fl len sq) (take n rest))"
proof -
  show "length bs = 24 + length rest" "starts_with bs kJournalFrameMagic \<longleftrightarrow> m = kJournalFrameMagic"
    "has_bytes bs 24 n \<longleftrightarrow> n \<le> length rest"
    using m by (auto simp: bs_def starts_with_def has_bytes_def)
  show "byte_at bs 4 = Done v" "byte_at bs 5 = Done t"
    using m by (simp_all add: bs_def byte_at_def frame_header_def nth_append)
  show "read_u16 bs 6 = Done fl"
    using ju16.read_encoded [of "m @ [v, t]" 6 fl] m by (simp add: bs_def frame_header_def)
  show "read_u32 bs 8 = Done len"
    using ju32.read_encoded [of "m @ [v, t] @ be_bytes 2 fl" 8 len] m by (simp add: bs_def frame_header_def)
  show "read_u64 bs 12 = Done sq"
    using ju64.read_encoded [of "m @ [v, t] @ be_bytes 2 fl @ be_bytes 4 len" 12 sq] m
    by (simp add: bs_def frame_header_def)
  show "read_u32 bs 20 = Done ck"
    using ju32.read_encoded [of "m @ frame_header v t fl len sq" 20 ck] m by (simp add: bs_def)
  show "frame_crc bs n = Done (checksum_of (frame_header v t fl len sq) (take n rest))" if "n \<le> length rest"
    using that m by (simp add: frame_crc_def subspan_def bs_def checksum_of_def crc_update_append)
qed

text \<open>Every input of at least 24 bytes has this shape.\<close>

lemma be_split:
  fixes bs :: "byte list"
  assumes "LENGTH('a::len) = 8 * n" and "n \<le> length bs"
  obtains v :: "'a::len word" and rest where "bs = be_bytes n v @ rest"
proof -
  have len: "length (take n bs) = n" using assms(2) by simp
  with be_bytes_value [of "take n bs", where 'a = 'a] assms(1)
  have "be_bytes n (be_value (take n bs) :: 'a word) = take n bs" by simp
  with that [of "be_value (take n bs)" "drop n bs"] show thesis by simp
qed

lemma frame_split:
  assumes "24 \<le> length bs"
  obtains m v t fl len sq and ck :: u32 and rest where
    "bs = m @ frame_header v t fl len sq @ be_bytes 4 ck @ rest" "length m = 4"
proof -
  let ?b1 = "drop 4 bs"
  have "?b1 = [?b1 ! 0, ?b1 ! 1] @ drop 6 bs"
    using assms by (simp add: Cons_nth_drop_Suc flip: Cons_nth_drop_Suc)
  obtain fl :: u16 and b2 where b2: "drop 6 bs = be_bytes 2 fl @ b2"
    by (rule be_split [of 2 "drop 6 bs", where 'a = 16]) (use assms in auto)
  have len2: "length b2 = length bs - 8" using arg_cong [OF b2, of length] by simp
  obtain len :: u32 and b3 where b3: "b2 = be_bytes 4 len @ b3"
    by (rule be_split [of 4 b2, where 'a = 32]) (use assms len2 in auto)
  have len3: "length b3 = length bs - 12" using arg_cong [OF b3, of length] len2 by simp
  obtain sq :: u64 and b4 where b4: "b3 = be_bytes 8 sq @ b4"
    by (rule be_split [of 8 b3, where 'a = 64]) (use assms len3 in auto)
  have len4: "length b4 = length bs - 20" using arg_cong [OF b4, of length] len3 by simp
  obtain ck :: u32 and rest where ck: "b4 = be_bytes 4 ck @ rest"
    by (rule be_split [of 4 b4, where 'a = 32]) (use assms len4 in auto)
  have "bs = take 4 bs @ frame_header (?b1 ! 0) (?b1 ! 1) fl len sq @ be_bytes 4 ck @ rest"
    using \<open>?b1 = [?b1 ! 0, ?b1 ! 1] @ drop 6 bs\<close> b2 b3 b4 ck
    by (metis append_assoc append_take_drop_id frame_header_def)
  from that [OF this] assms show thesis by simp
qed

text \<open>The decoder on an input of this shape, check by check.\<close>

definition decode_shape :: "byte list \<Rightarrow> u8 \<Rightarrow> u8 \<Rightarrow> u16 \<Rightarrow> u32 \<Rightarrow> u64 \<Rightarrow> u32 \<Rightarrow> byte list \<Rightarrow> JournalCodecError option" where
  "decode_shape m v t fl len sq ck rest =
     (if m \<noteq> kJournalFrameMagic then Some InvalidFrameMagic
      else if v \<noteq> 1 then Some UnsupportedRecordVersion
      else case decode_record_type t of
        Inl e \<Rightarrow> Some e
      | Inr type \<Rightarrow>
          if fl \<noteq> 0 then Some InvalidFlags
          else if unat len \<noteq> expected_payload_length type then Some InvalidPayloadLength
          else if length rest < unat len then Some TruncatedInput
          else if sq = 0 then Some InvalidJournalSequence
          else if ck \<noteq> checksum_of (frame_header v t fl len sq) (take (unat len) rest) then Some ChecksumMismatch
          else None)"

lemma expected_payload_bound [simp]: "expected_payload_length type \<le> 64"
  by (cases type) simp_all

text \<open>Payloads of the expected length are exactly the encoded commands.\<close>

lemma encode_payload_be:
  "encode_payload (SubmitLimitOrderCommand order) =
     be_bytes 8 (order_id_value (nlo_id order)) @ [nlo_side order] @
     be_bytes 8 (ticks (nlo_price order)) @ be_bytes 8 (units (nlo_quantity order))"
  "encode_payload (CancelOrderCommand oid) = be_bytes 8 (order_id_value oid)"
  by (simp_all add: encode_payload.simps journal_append)

declare encode_payload.simps [simp del]

lemma length_encode_payload [simp]:
  "length (encode_payload command) = expected_payload_length (record_type_for command)"
  by (cases command) (simp_all add: encode_payload_be)

lemma decode_command_payload:
  assumes "length pre = 24"
  shows "decode_command (record_type_for command) (pre @ encode_payload command @ rest) = Done command"
proof (cases command)
  case (SubmitLimitOrderCommand order)
  let ?i = "order_id_value (nlo_id order)" and ?p = "ticks (nlo_price order)" and ?q = "units (nlo_quantity order)"
  let ?bs = "pre @ encode_payload command @ rest"
  have "read_u64 ?bs 24 = Done ?i"
    using ju64.read_encoded [of pre 24 ?i] assms by (simp add: SubmitLimitOrderCommand encode_payload_be)
  moreover have "byte_at ?bs 32 = Done (nlo_side order)"
    using assms by (simp add: SubmitLimitOrderCommand encode_payload_be byte_at_def nth_append)
  moreover have "read_u64 ?bs 33 = Done ?p"
    using ju64.read_encoded [of "pre @ be_bytes 8 ?i @ [nlo_side order]" 33 ?p] assms
    by (simp add: SubmitLimitOrderCommand encode_payload_be)
  moreover have "read_u64 ?bs 41 = Done ?q"
    using ju64.read_encoded [of "pre @ be_bytes 8 ?i @ [nlo_side order] @ be_bytes 8 ?p" 41 ?q] assms
    by (simp add: SubmitLimitOrderCommand encode_payload_be)
  ultimately show ?thesis by (simp add: SubmitLimitOrderCommand)
next
  case (CancelOrderCommand oid)
  with ju64.read_encoded [of pre 24 "order_id_value oid"] assms show ?thesis by (simp add: encode_payload_be)
qed

lemma payload_split:
  assumes "expected_payload_length type \<le> length bs"
  obtains command rest where "bs = encode_payload command @ rest" "record_type_for command = type"
proof (cases type)
  case SubmitLimitOrderRecord
  obtain i :: u64 and b1 where b1: "bs = be_bytes 8 i @ b1"
    by (rule be_split [of 8 bs, where 'a = 64]) (use assms SubmitLimitOrderRecord in auto)
  then obtain s b2 where b2: "b1 = s # b2" using assms SubmitLimitOrderRecord by (cases b1) auto
  have len: "16 \<le> length b2" using assms SubmitLimitOrderRecord b1 b2 by simp
  obtain p :: u64 and b3 where b3: "b2 = be_bytes 8 p @ b3"
    by (rule be_split [of 8 b2, where 'a = 64]) (use len in auto)
  obtain q :: u64 and rest where "b3 = be_bytes 8 q @ rest"
    by (rule be_split [of 8 b3, where 'a = 64]) (use len b3 in auto)
  with b1 b2 b3 SubmitLimitOrderRecord show thesis
    by (intro that [of "SubmitLimitOrderCommand \<lparr>nlo_id = OrderId i, nlo_side = s, nlo_price = Price p, nlo_quantity = Quantity q\<rparr>"])
       (simp_all add: encode_payload_be)
next
  case CancelOrderRecord
  obtain i :: u64 and rest where "bs = be_bytes 8 i @ rest"
    by (rule be_split [of 8 bs, where 'a = 64]) (use assms CancelOrderRecord in auto)
  with CancelOrderRecord show thesis
    by (intro that [of "CancelOrderCommand (OrderId i)"]) (simp_all add: encode_payload_be)
qed

lemma decode_record_type_Inr: "decode_record_type t = Inr type \<longleftrightarrow> t = record_type_value type"
  by (cases type) (auto simp: decode_record_type_def)

text \<open>The decoder on an input of at least a header.\<close>

lemma decode_prefix_shape:
  assumes m: "length m = 4"
  shows "decode_record_prefix (m @ frame_header v t fl len sq @ be_bytes 4 ck @ rest) =
    (case decode_shape m v t fl len sq ck rest of
       Some e \<Rightarrow> Done (Inl e)
     | None \<Rightarrow> obind (case decode_record_type t of Inr type \<Rightarrow>
           decode_command type (m @ frame_header v t fl len sq @ be_bytes 4 ck @ rest))
         (\<lambda>command. Done (Inr \<lparr>dec_record = \<lparr>rec_sequence = JournalSequence sq, rec_command = command\<rparr>,
                               dec_consumed = 24 + unat len\<rparr>)))"
proof (cases "m = kJournalFrameMagic \<and> v = 1")
  case False
  then show ?thesis using frame_reads [OF m] by (auto simp: decode_record_prefix_def decode_shape_def)
next
  case True
  show ?thesis
  proof (cases "decode_record_type t")
    case (Inl e)
    with True show ?thesis using frame_reads [OF m] by (simp add: decode_record_prefix_def decode_shape_def)
  next
    case (Inr type)
    have le: "unat len = expected_payload_length type \<Longrightarrow> \<not> 64 < unat len" by (simp add: not_less)
    show ?thesis
      using True Inr frame_reads [OF m] le
      by (auto simp: decode_record_prefix_def decode_shape_def Let_def not_le)
  qed
qed

section \<open>Encoding and decoding\<close>

definition record_header :: "JournalSequence \<Rightarrow> JournalCommand \<Rightarrow> byte list" where
  "record_header sequence command =
     frame_header 1 (record_type_value (record_type_for command)) 0
       (of_nat (length (encode_payload command))) (sequence_value sequence)"

definition frame :: "JournalSequence \<Rightarrow> JournalCommand \<Rightarrow> byte list" where
  "frame sequence command =
     kJournalFrameMagic @ record_header sequence command @
     be_bytes 4 (checksum_of (record_header sequence command) (encode_payload command)) @
     encode_payload command"

lemma length_record_header [simp]: "length (record_header sequence command) = 16"
  by (simp add: record_header_def)

lemma length_frame: "length (frame sequence command) = 24 + expected_payload_length (record_type_for command)"
  by (simp add: frame_def)

lemma unat_payload_length [simp]:
  "unat (of_nat (expected_payload_length type) :: u32) = expected_payload_length type"
  by (cases type) simp_all

text \<open>Overwriting the four bytes of the checksum field one after the other.\<close>

lemma be_bytes_4: "be_bytes 4 v = [ucast (drop_bit 24 v), ucast (drop_bit 16 v), ucast (drop_bit 8 v), ucast v]"
  by (simp add: be_bytes_def upt_rec)

lemma write_checksum:
  fixes ck :: u32
  assumes "length pre1 + length pre2 = 20"
  shows "obind (write_at 20 (ucast (drop_bit 24 ck)) (pre1 @ pre2 @ be_bytes 4 (0 :: u32) @ post)) (\<lambda>bytes.
           obind (write_at 21 (ucast (drop_bit 16 ck)) bytes) (\<lambda>bytes.
           obind (write_at 22 (ucast (drop_bit 8 ck)) bytes) (\<lambda>bytes.
           obind (write_at 23 (ucast ck) bytes) (\<lambda>bytes. Done (Inr bytes))))) =
         Done (Inr (pre1 @ pre2 @ be_bytes 4 ck @ post))"
proof -
  define pre where "pre = pre1 @ pre2"
  have pre: "length pre = 20" "\<And>xs. pre1 @ pre2 @ xs = pre @ xs" using assms by (simp_all add: pre_def)
  show ?thesis unfolding pre(2) by (simp add: be_bytes_4 write_at_def list_update_append pre(1))
qed

lemma encode_record_frame:
  assumes "sequence_value sequence \<noteq> 0"
  shows "encode_record sequence command = Done (Inr (frame sequence command))"
proof -
  let ?h = "record_header sequence command" and ?p = "encode_payload command"
  let ?bytes = "kJournalFrameMagic @ ?h @ be_bytes 4 (0 :: u32) @ ?p"
  have crc: "frame_crc ?bytes (length ?p) = Done (checksum_of ?h ?p)"
    using frame_reads(10) [OF length_frame_magic, of "length ?p" ?p] unfolding record_header_def by simp
  have bytes: "append_u32 (append_u64 (append_u32 (append_u16 (append_u8 (append_u8 kJournalFrameMagic 1)
      (record_type_value (record_type_for command))) 0) (of_nat (length ?p))) (sequence_value sequence)) 0 @ ?p = ?bytes"
    by (simp add: journal_append record_header_def frame_header_def)
  show ?thesis
    unfolding encode_record_def Let_def bytes crc
    using assms write_checksum [of kJournalFrameMagic ?h "checksum_of ?h ?p" ?p] by (simp add: frame_def)
qed

lemma decode_frame:
  assumes "sequence_value sequence \<noteq> 0"
  shows "decode_record_prefix (frame sequence command @ rest) =
    Done (Inr \<lparr>dec_record = \<lparr>rec_sequence = sequence, rec_command = command\<rparr>,
               dec_consumed = length (frame sequence command)\<rparr>)"
proof -
  let ?p = "encode_payload command" and ?type = "record_type_for command" and ?h = "record_header sequence command"
  let ?ck = "checksum_of ?h ?p"
  have bs: "frame sequence command @ rest =
      kJournalFrameMagic @ frame_header 1 (record_type_value ?type) 0 (of_nat (length ?p)) (sequence_value sequence) @
      be_bytes 4 ?ck @ (?p @ rest)"
    by (simp add: frame_def record_header_def)
  have type: "decode_record_type (record_type_value ?type) = Inr ?type" by (simp add: decode_record_type_Inr)
  have "decode_shape kJournalFrameMagic 1 (record_type_value ?type) 0 (of_nat (length ?p)) (sequence_value sequence) ?ck
      (?p @ rest) = None"
    using assms by (simp add: decode_shape_def type record_header_def)
  moreover have "decode_command ?type (frame sequence command @ rest) = Done command"
    using decode_command_payload [of "kJournalFrameMagic @ ?h @ be_bytes 4 ?ck" command rest] by (simp add: frame_def)
  ultimately show ?thesis
    unfolding bs decode_prefix_shape [OF length_frame_magic]
    by (simp add: type length_frame)
qed

lemma decode_success:
  assumes "decode_record_prefix bs = Done (Inr d)"
  defines "r \<equiv> dec_record d"
  shows "sequence_value (rec_sequence r) \<noteq> 0 \<and> dec_consumed d = length (frame (rec_sequence r) (rec_command r)) \<and>
    (\<exists>rest. bs = frame (rec_sequence r) (rec_command r) @ rest)"
proof -
  from assms(1) have "24 \<le> length bs" by (simp add: decode_record_prefix_def split: if_splits)
  then obtain m v t fl len sq and ck :: u32 and rest where
    bs: "bs = m @ frame_header v t fl len sq @ be_bytes 4 ck @ rest" and m: "length m = 4"
    by (rule frame_split)
  note eq = assms(1) [unfolded bs decode_prefix_shape [OF m]]
  then have none: "decode_shape m v t fl len sq ck rest = None" by (auto split: option.splits)
  then obtain type where type: "decode_record_type t = Inr type"
    by (auto simp: decode_shape_def split: if_splits sum.splits)
  from none type have f: "m = kJournalFrameMagic" "v = 1" "fl = 0" "unat len = expected_payload_length type"
    "unat len \<le> length rest" "sq \<noteq> 0" "ck = checksum_of (frame_header v t fl len sq) (take (unat len) rest)"
    by (auto simp: decode_shape_def split: if_splits)
  obtain command rest' where rest: "rest = encode_payload command @ rest'" "record_type_for command = type"
    by (rule payload_split [of type rest]) (use f in auto)
  have len: "len = of_nat (length (encode_payload command))"
    using f(4) rest(2) by (simp add: word_unat_eq_iff)
  have "decode_command type (m @ frame_header v t fl len sq @ be_bytes 4 ck @ rest) = Done command"
    using decode_command_payload [of "m @ frame_header v t fl len sq @ be_bytes 4 ck" command rest'] m rest by simp
  with eq none type have d: "dec_record d = \<lparr>rec_sequence = JournalSequence sq, rec_command = command\<rparr>"
    "dec_consumed d = 24 + unat len" by auto
  have "bs = frame (JournalSequence sq) command @ rest'"
    using f rest type len
    by (simp add: bs frame_def record_header_def decode_record_type_Inr)
  with d f(4,6) rest(2) show ?thesis by (simp add: r_def length_frame)
qed

lemma decode_total: "\<exists>r. decode_record_prefix bs = Done r"
proof (cases "24 \<le> length bs")
  case False
  then show ?thesis by (simp add: decode_record_prefix_def)
next
  case True
  then obtain m v t fl len sq and ck :: u32 and rest where
    bs: "bs = m @ frame_header v t fl len sq @ be_bytes 4 ck @ rest" and m: "length m = 4"
    by (rule frame_split)
  show ?thesis
  proof (cases "decode_shape m v t fl len sq ck rest")
    case None
    then obtain type where type: "decode_record_type t = Inr type" "expected_payload_length type \<le> length rest"
      by (auto simp: decode_shape_def split: if_splits sum.splits)
    obtain command rest' where "rest = encode_payload command @ rest'" "record_type_for command = type"
      by (rule payload_split [OF type(2)])
    with decode_command_payload [of "m @ frame_header v t fl len sq @ be_bytes 4 ck" command rest'] m
    show ?thesis using None type(1) by (simp add: bs decode_prefix_shape)
  qed (simp add: bs decode_prefix_shape m)
qed

section \<open>Growing input\<close>

lemma decode_shape_more:
  "decode_shape m v t fl len sq ck rest \<noteq> Some TruncatedInput \<Longrightarrow>
   decode_shape m v t fl len sq ck (rest @ tail) = decode_shape m v t fl len sq ck rest"
  by (auto simp: decode_shape_def decode_record_type_def split: sum.splits)

lemma decode_record_more:
  assumes d: "decode_record_prefix bytes = Done r" and r: "r \<noteq> Inl TruncatedInput"
  shows "decode_record_prefix (bytes @ tail) = Done r"
proof (cases r)
  case (Inr d')
  from decode_success [OF d [unfolded Inr]] obtain rest where
    s: "sequence_value (rec_sequence (dec_record d')) \<noteq> 0"
    "bytes = frame (rec_sequence (dec_record d')) (rec_command (dec_record d')) @ rest" by blast
  have "decode_record_prefix (bytes @ tail) = decode_record_prefix bytes"
    unfolding s(2) append_assoc decode_frame [OF s(1)] by (rule refl)
  with d show ?thesis by simp
next
  case (Inl e)
  from d r have "24 \<le> length bytes" by (auto simp: decode_record_prefix_def split: if_splits)
  then obtain m v t fl len sq and ck :: u32 and rest where
    bytes: "bytes = m @ frame_header v t fl len sq @ be_bytes 4 ck @ rest" and m: "length m = 4"
    by (rule frame_split)
  from d have shape: "decode_shape m v t fl len sq ck rest = Some e"
    unfolding bytes decode_prefix_shape [OF m] Inl by (auto simp: obind_eq_Done split: option.splits)
  with r Inl have "decode_shape m v t fl len sq ck (rest @ tail) = Some e" by (simp add: decode_shape_more)
  then show ?thesis unfolding bytes using decode_prefix_shape [OF m, of v t fl len sq ck "rest @ tail"] Inl by simp
qed

lemma decode_record_truncated:
  assumes d: "decode_record_prefix bytes = Done (Inl TruncatedInput)"
  shows "length bytes < 49"
proof (cases "length bytes < 24")
  case False
  then have "24 \<le> length bytes" by simp
  then obtain m v t fl len sq and ck :: u32 and rest where
    bytes: "bytes = m @ frame_header v t fl len sq @ be_bytes 4 ck @ rest" and m: "length m = 4"
    by (rule frame_split)
  have le: "expected_payload_length type \<le> 25" for type by (cases type) simp_all
  from d have "decode_shape m v t fl len sq ck rest = Some TruncatedInput"
    unfolding bytes decode_prefix_shape [OF m] by (auto simp: obind_eq_Done split: option.splits)
  then have "length rest < 25" using le
    by (auto simp: decode_shape_def decode_record_type_def split: if_splits sum.splits)
  then show ?thesis by (simp add: bytes m)
qed simp

lemma torn_frame:
  assumes q: "sequence_value s \<noteq> 0" and k: "k < length (frame s c)"
  shows "decode_record_prefix (take k (frame s c)) = Done (Inl TruncatedInput)"
proof -
  obtain r where r: "decode_record_prefix (take k (frame s c)) = Done r" using decode_total by blast
  have "r = Inl TruncatedInput"
  proof (rule ccontr)
    assume "r \<noteq> Inl TruncatedInput"
    from decode_record_more [OF r this, of "drop k (frame s c)"] decode_frame [OF q, of c "[]"] obtain d where
      d: "r = Inr d" "dec_consumed d = length (frame s c)" by auto
    from decode_success [OF r [unfolded d(1)]] d(2) have "length (frame s c) \<le> length (take k (frame s c))"
      by (metis length_append le_add1)
    with k show False by simp
  qed
  with r show ?thesis by simp
qed

section \<open>Damaged records\<close>

lemma crc_list_update:
  assumes "j < length xs"
  shows "crc32c_update c (xs[j := b]) = crc32c_update c xs \<longleftrightarrow> b = xs ! j"
proof -
  have "xs = take j xs @ xs ! j # drop (Suc j) xs" using assms by (rule id_take_nth_drop)
  moreover have "xs[j := b] = take j xs @ b # drop (Suc j) xs" using assms by (rule upd_conv_take_nth_drop)
  ultimately show ?thesis using crc_update_one_byte by metis
qed

lemma three_parts:
  assumes "m @ a @ b @ c = m @ a' @ b' @ c'" "length a = length a'" "length b = length b'"
  shows "a = a'" "b = b'" "c = c'"
  using assms by auto

lemma update_parts:
  assumes "length m = 4" "length a = 16" "length b = 4"
  shows "4 \<le> i \<Longrightarrow> i < 20 \<Longrightarrow> (m @ a @ b @ c)[i := x] = m @ a[i - 4 := x] @ b @ c"
    and "20 \<le> i \<Longrightarrow> i < 24 \<Longrightarrow> (m @ a @ b @ c)[i := x] = m @ a @ b[i - 20 := x] @ c"
    and "24 \<le> i \<Longrightarrow> (m @ a @ b @ c)[i := x] = m @ a @ b @ c[i - 24 := x]"
  using assms by (auto simp: list_update_append)

text \<open>Two intact frames of the same size never differ in exactly one byte.\<close>

lemma frames_differ:
  assumes upd: "frame s' c' = (frame s c)[i := b]" and i: "i < length (frame s c)"
  shows "b = frame s c ! i"
proof -
  let ?H = "record_header s c" and ?P = "encode_payload c" and ?H' = "record_header s' c'" and ?P' = "encode_payload c'"
  let ?K = "be_bytes 4 (checksum_of ?H ?P)" and ?K' = "be_bytes 4 (checksum_of ?H' ?P')"
  have same: "?K' = ?K \<Longrightarrow> crc32c_update u32_max (?H' @ ?P') = crc32c_update u32_max (?H @ ?P)"
    using be_value_bytes [of 4, where 'a = 32] by (metis checksum_of_def bit.double_compl len_num1 ju32.width)
  have parts: "kJournalFrameMagic @ ?H' @ ?K' @ ?P' = (kJournalFrameMagic @ ?H @ ?K @ ?P)[i := b]"
    using upd by (simp add: frame_def)
  note upd_parts = update_parts [OF length_frame_magic length_record_header length_be_bytes]
  consider "i < 4" | "4 \<le> i" "i < 20" | "20 \<le> i" "i < 24" | "24 \<le> i" by linarith
  then show ?thesis
  proof cases
    case 1
    with parts have "kJournalFrameMagic = kJournalFrameMagic[i := b]" by (simp add: list_update_append1)
    with 1 show ?thesis by (simp add: frame_def nth_append) (metis length_frame_magic nth_list_update_eq)
  next
    case 2
    have eq: "?H' = ?H[i - 4 := b]" "?K' = ?K" "?P' = ?P"
      by (rule three_parts [OF parts [unfolded upd_parts(1) [OF 2]]]; simp)+
    have "crc32c_update u32_max (?H[i - 4 := b] @ ?P) = crc32c_update u32_max (?H @ ?P)"
      using same [OF eq(2)] unfolding eq(1,3) .
    moreover have "i - 4 < 16" using 2 by arith
    ultimately show ?thesis
      using crc_list_update [of "i - 4" "?H @ ?P" u32_max b] 2
      by (simp add: frame_def nth_append list_update_append1)
  next
    case 3
    have eq: "?H' = ?H" "?K' = ?K[i - 20 := b]" "?P' = ?P"
      by (rule three_parts [OF parts [unfolded upd_parts(2) [OF 3]]]; simp)+
    then have "?K = ?K[i - 20 := b]" by simp
    then have "?K ! (i - 20) = ?K[i - 20 := b] ! (i - 20)" by simp
    moreover have "i - 20 < 4" "\<not> i - 4 < 16" "\<not> i < 4" "i - 4 - 16 = i - 20" using 3 by arith+
    ultimately show ?thesis by (simp add: frame_def nth_append)
  next
    case 4
    have eq: "?H' = ?H" "?K' = ?K" "?P' = ?P[i - 24 := b]"
      by (rule three_parts [OF parts [unfolded upd_parts(3) [OF 4]]]; simp)+
    have "crc32c_update u32_max (?H @ ?P[i - 24 := b]) = crc32c_update u32_max (?H @ ?P)"
      using same [OF eq(2)] unfolding eq(1,3) .
    moreover have "\<not> i - 8 < 16" "i - 8 - 16 = i - 24" "i - 8 < length (?H @ ?P)"
      "\<not> i - 20 < 4" "\<not> i - 4 < 16" "\<not> i < 4" using 4 i by (simp_all add: length_frame)
    ultimately show ?thesis using crc_list_update [of "i - 8" "?H @ ?P" u32_max b] 4
      by (simp add: frame_def nth_append list_update_append)
  qed
qed

lemma length_file_magic: "length kJournalFileMagic = 8"
  by (simp add: kJournalFileMagic_def)

lemma file_header_iff:
  "decode_file_header bytes = Done (Inr h) \<longleftrightarrow>
     bytes = encode_file_header \<and> h = \<lparr>journal_format_version = 1, matching_rules_version = 1\<rparr>"
proof
  have enc: "encode_file_header = kJournalFileMagic @ be_bytes 2 (1 :: u16) @ be_bytes 2 (1 :: u16) @ be_bytes 4 (0 :: u32)"
    by (simp add: encode_file_header_def journal_append)
  assume *: "decode_file_header bytes = Done (Inr h)"
  then have len: "length bytes = 16" and magic: "take 8 bytes = kJournalFileMagic"
    by (auto simp: decode_file_header_def starts_with_def length_file_magic split: if_splits)
  with * have "read_u16 bytes 8 = Done 1" "read_u16 bytes 10 = Done 1" "read_u32 bytes 12 = Done 0"
    and h: "h = \<lparr>journal_format_version = 1, matching_rules_version = 1\<rparr>"
    by (auto simp: decode_file_header_def obind_eq_Done split: if_splits)
  then have "take 2 (drop 8 bytes) = be_bytes 2 (1 :: u16)" "take 2 (drop 10 bytes) = be_bytes 2 (1 :: u16)"
    "take 4 (drop 12 bytes) = be_bytes 4 (0 :: u32)"
    using ju16.read_determines(1) ju32.read_determines(1) by blast+
  moreover have "bytes = take 8 bytes @ take 2 (drop 8 bytes) @ take 2 (drop 10 bytes) @ take 4 (drop 12 bytes)"
    using append_take_drop_id [of 2 "drop 8 bytes"] append_take_drop_id [of 2 "drop 10 bytes"] len by simp
  ultimately show "bytes = encode_file_header \<and> h = \<lparr>journal_format_version = 1, matching_rules_version = 1\<rparr>"
    using h magic by (simp add: enc)
next
  assume "bytes = encode_file_header \<and> h = \<lparr>journal_format_version = 1, matching_rules_version = 1\<rparr>"
  then show "decode_file_header bytes = Done (Inr h)" by (simp, code_simp)
qed

section \<open>Properties\<close>

text \<open>
  Journal round trip: every command with a nonzero sequence number can be encoded, and decoding
  the bytes, whatever follows them, gives back the command, its sequence number and its exact size.
\<close>

lemma journal_roundtrip:
  assumes "sequence_value sequence \<noteq> 0"
  shows "\<exists>bytes. encode_record sequence command = Done (Inr bytes) \<and> length bytes \<le> 88 \<and>
    (\<forall>rest. decode_record_prefix (bytes @ rest) =
       Done (Inr \<lparr>dec_record = \<lparr>rec_sequence = sequence, rec_command = command\<rparr>, dec_consumed = length bytes\<rparr>))"
  using encode_record_frame [OF assms, of command] decode_frame [OF assms, of command]
  by (simp add: length_frame)

definition sample_command :: JournalCommand where
  "sample_command = SubmitLimitOrderCommand
     \<lparr>nlo_id = OrderId 7, nlo_side = Sell, nlo_price = Price 100, nlo_quantity = Quantity 25\<rparr>"

lemma journal_roundtrip_sample:
  "\<exists>bytes. encode_record (JournalSequence 3) sample_command = Done (Inr bytes) \<and> length bytes = 49 \<and>
     decode_record_prefix bytes =
       Done (Inr \<lparr>dec_record = \<lparr>rec_sequence = JournalSequence 3, rec_command = sample_command\<rparr>, dec_consumed = 49\<rparr>)"
proof -
  obtain bytes where b: "encode_record (JournalSequence 3) sample_command = Done (Inr bytes)"
    "\<forall>rest. decode_record_prefix (bytes @ rest) = Done (Inr \<lparr>dec_record = \<lparr>rec_sequence = JournalSequence 3,
       rec_command = sample_command\<rparr>, dec_consumed = length bytes\<rparr>)"
    using journal_roundtrip [of "JournalSequence 3" sample_command] by auto
  have "length bytes = 49"
    using b(1) encode_record_frame [of "JournalSequence 3" sample_command]
    by (simp add: length_frame sample_command_def)
  with b show ?thesis by (metis append_Nil2)
qed

text \<open>
  The decoder accepts nothing but encoder output and never reads outside its input: for every
  byte sequence it returns, and if it returns a record then the consumed bytes are exactly the
  encoding of that record.
\<close>

lemma journal_decode_canonical:
  "\<exists>r. decode_record_prefix bytes = Done r \<and>
     (case r of Inl e \<Rightarrow> True
      | Inr d \<Rightarrow> encode_record (rec_sequence (dec_record d)) (rec_command (dec_record d)) =
                   Done (Inr (take (dec_consumed d) bytes)) \<and> dec_consumed d \<le> length bytes)"
proof -
  obtain r where r: "decode_record_prefix bytes = Done r" using decode_total by blast
  show ?thesis
  proof (cases r)
    case (Inr d)
    from decode_success [OF r [unfolded Inr]] encode_record_frame show ?thesis by (auto simp: r Inr)
  qed (simp add: r)
qed

text \<open>
  A torn record is recognised: every strict prefix of an encoded record decodes to
  \<open>TruncatedInput\<close>, never to a record and never to another error.
\<close>

lemma journal_torn_record:
  assumes "encode_record sequence command = Done (Inr bytes)" and "k < length bytes"
  shows "decode_record_prefix (take k bytes) = Done (Inl TruncatedInput)"
proof -
  from assms(1) have "sequence_value sequence \<noteq> 0" by (auto simp: encode_record_def)
  with assms torn_frame [of sequence k command] show ?thesis by (simp add: encode_record_frame)
qed

text \<open>
  C31. Single-byte corruption is always detected: an encoded record in which any one byte has been
  changed, in the magic, the header, the checksum or the payload, is rejected by \<open>decode_record\<close>.
\<close>

theorem journal_corruption_detected:
  assumes "encode_record sequence command = Done (Inr bytes)" and "i < length bytes" and "b \<noteq> bytes ! i"
  shows "\<exists>e. decode_record (bytes[i := b]) = Done (Inl e)"
proof -
  from assms(1) have "sequence_value sequence \<noteq> 0" by (auto simp: encode_record_def)
  with assms(1) have bytes: "bytes = frame sequence command" by (simp add: encode_record_frame)
  obtain r where r: "decode_record_prefix (bytes[i := b]) = Done r" using decode_total by blast
  show ?thesis
  proof (cases r)
    case (Inl e)
    with r show ?thesis by (simp add: decode_record_def)
  next
    case (Inr d)
    let ?r = "dec_record d"
    from decode_success [OF r [unfolded Inr]] obtain rest where
      d: "dec_consumed d = length (frame (rec_sequence ?r) (rec_command ?r))"
      "bytes[i := b] = frame (rec_sequence ?r) (rec_command ?r) @ rest" by blast
    have "rest \<noteq> []"
      using frames_differ [of "rec_sequence ?r" "rec_command ?r" sequence command i b] assms(2,3) d(2)
      by (auto simp: bytes)
    with d arg_cong [OF d(2), of length] have "dec_consumed d \<noteq> length (bytes[i := b])" by simp
    with r Inr show ?thesis by (simp add: decode_record_def)
  qed
qed

theorem journal_corruption_detected_witness:
  "\<exists>e. decode_record ((frame (JournalSequence 3) sample_command)[40 := 200]) = Done (Inl e)"
proof (rule journal_corruption_detected [OF encode_record_frame])
  show "(200 :: byte) \<noteq> frame (JournalSequence 3) sample_command ! 40"
    by (simp add: frame_def nth_append sample_command_def encode_payload_be be_bytes_def upt_rec)
qed (simp_all add: length_frame sample_command_def)

text \<open>
  The file header: \<open>decode_file_header\<close> accepts exactly the 16 bytes \<open>encode_file_header\<close> writes.
\<close>

lemma journal_header_exact:
  "decode_file_header bytes = Done (Inr h) \<longleftrightarrow>
     bytes = encode_file_header \<and> h = \<lparr>journal_format_version = 1, matching_rules_version = 1\<rparr>"
  by (rule file_header_iff)

end
