(* ===== verification/Journal_Files.thy ===== *)
theory Journal_Files
  imports Journal_Storage Journal_Records
begin

text \<open>
  What the journal storage does to files, for every operating system that keeps its promises:
  appending writes exactly the frames of the batch, or a prefix of them when a call fails; scanning
  returns exactly the records of the file; repairing removes an incomplete last record and nothing
  else; and all of them return.
\<close>

section \<open>The contents of a journal\<close>

text \<open>The records of a sequence of commands whose first sequence number is \<open>k\<close>, and their frames.\<close>

fun numbered :: "nat \<Rightarrow> JournalCommand list \<Rightarrow> JournalRecord list" where
  "numbered k [] = []"
| "numbered k (c # cs) = \<lparr>rec_sequence = JournalSequence (of_nat k), rec_command = c\<rparr> # numbered (Suc k) cs"

fun frames :: "nat \<Rightarrow> JournalCommand list \<Rightarrow> byte list" where
  "frames k [] = []"
| "frames k (c # cs) = frame (JournalSequence (of_nat k)) c @ frames (Suc k) cs"

definition journal_image :: "JournalCommand list \<Rightarrow> byte list" where
  "journal_image cs = encode_file_header @ frames 1 cs"

lemma numbered_append: "numbered k (as @ bs) = numbered k as @ numbered (k + length as) bs"
  by (induction as arbitrary: k) simp_all

lemma length_numbered [simp]: "length (numbered k cs) = length cs"
  by (induction cs arbitrary: k) simp_all

lemma map_command_numbered [simp]: "map rec_command (numbered k cs) = cs"
  by (induction cs arbitrary: k) simp_all

lemma frames_append: "frames k (as @ bs) = frames k as @ frames (k + length as) bs"
  by (induction as arbitrary: k) simp_all

lemma frame_size: "32 \<le> length (frame s c)" "length (frame s c) \<le> 49"
  by (cases c; simp add: length_frame)+

lemma length_frames: "length cs \<le> length (frames k cs)"
proof (induction cs arbitrary: k)
  case (Cons c cs)
  show ?case using Cons [of "Suc k"] frame_size(1) [of "JournalSequence (of_nat k)" c] by simp
qed simp

lemma length_file_header [simp]: "length encode_file_header = 16"
  by (simp add: encode_file_header_def journal_append length_file_magic)

lemma decode_own_header:
  "decode_file_header encode_file_header = Done (Inr \<lparr>journal_format_version = 1, matching_rules_version = 1\<rparr>)"
  by code_simp

section \<open>The decoder on a growing file\<close>

text \<open>Reading 88 bytes at a time is enough to decode the next record.\<close>

lemma decode_record_window: "decode_record_prefix (take 88 bytes) = decode_record_prefix bytes"
proof -
  obtain r where r: "decode_record_prefix (take 88 bytes) = Done r" using decode_total by blast
  show ?thesis
  proof (cases "r = Inl TruncatedInput")
    case True
    then have "length (take 88 bytes) < 49" using r decode_record_truncated [of "take 88 bytes"] by simp
    then have "take 88 bytes = bytes" by simp
    then show ?thesis by simp
  next
    case False
    from decode_record_more [OF r False, of "drop 88 bytes"] r show ?thesis by simp
  qed
qed

section \<open>The records of a file\<close>

datatype scan_stop = Complete | Torn | Corrupt JournalStorageError

text \<open>The reference for scanning: the commands of the records, why reading stops, and the rest.\<close>

function parse_journal :: "nat \<Rightarrow> byte list \<Rightarrow> JournalCommand list \<times> scan_stop \<times> byte list" where
  "parse_journal k bytes =
     (if bytes = [] then ([], Complete, [])
      else case decode_record_prefix bytes of
          Done (Inr d) \<Rightarrow>
            if rec_sequence (dec_record d) \<noteq> JournalSequence (of_nat k)
            then ([], Corrupt (make_error SequenceViolation None None), bytes)
            else (case parse_journal (Suc k) (drop (dec_consumed d) bytes) of
                    (cs, stop, tail) \<Rightarrow> (rec_command (dec_record d) # cs, stop, tail))
        | Done (Inl e) \<Rightarrow>
            ([], if e = TruncatedInput then Torn else Corrupt (make_error InvalidJournal None (Some e)), bytes)
        | _ \<Rightarrow> ([], Torn, bytes))"
  by pat_completeness auto
termination
proof (relation "measure (\<lambda>(k, bytes). length bytes)", goal_cases)
  case (2 k bytes r d)
  from decode_success [OF 2(2) [unfolded 2(3)]] have "0 < dec_consumed d"
    using frame_size(1) [of "rec_sequence (dec_record d)" "rec_command (dec_record d)"] by linarith
  with 2(1) show ?case by simp
qed simp

declare parse_journal.simps [simp del]

lemma parse_journal_Nil [simp]: "parse_journal k [] = ([], Complete, [])"
  by (simp add: parse_journal.simps)

lemma decode_record_Nil: "decode_record_prefix [] = Done (Inl TruncatedInput)"
  by (simp add: decode_record_prefix_def)

lemma parse_journal_frame:
  "0 < k \<Longrightarrow> k < 2 ^ 64 \<Longrightarrow> parse_journal k (frame (JournalSequence (of_nat k)) c @ bytes) =
     (case parse_journal (Suc k) bytes of (cs, stop, tail) \<Rightarrow> (c # cs, stop, tail))"
proof -
  assume "0 < k" "k < 2 ^ 64"
  then have "sequence_value (JournalSequence (of_nat k)) \<noteq> 0"
    by (simp add: of_nat_eq_0_iff word_of_nat_eq_0_iff nat_dvd_not_less)
  from decode_frame [OF this, of c bytes] frame_size(1) [of "JournalSequence (of_nat k)" c] show ?thesis
    by (subst parse_journal.simps) auto
qed

lemma parse_journal_frames:
  "0 < k \<Longrightarrow> k + length cs \<le> 2 ^ 64 \<Longrightarrow> parse_journal k (frames k cs @ bytes) =
     (case parse_journal (k + length cs) bytes of (cs', stop, tail) \<Rightarrow> (cs @ cs', stop, tail))"
proof (induction cs arbitrary: k)
  case (Cons c cs)
  from Cons.prems Cons.IH [of "Suc k"] show ?case by (simp add: parse_journal_frame split: prod.split)
qed (simp split: prod.split)

text \<open>What is read is in the file: the frames of the commands, then the rest.\<close>

lemma parse_journal_sound:
  assumes "parse_journal k bytes = (cs, stop, tail)"
  shows "bytes = frames k cs @ tail \<and> (stop = Complete \<longleftrightarrow> tail = []) \<and>
    (stop = Torn \<longrightarrow> decode_record_prefix tail = Done (Inl TruncatedInput))"
  using assms
proof (induction k bytes arbitrary: cs rule: parse_journal.induct)
  case (1 k bytes)
  obtain r where r: "decode_record_prefix bytes = Done r" using decode_total by blast
  show ?case
  proof (cases "bytes = []")
    case True
    with 1(2) show ?thesis by auto
  next
    case ne: False
    show ?thesis
    proof (cases r)
      case (Inl e)
      with 1(2) ne r show ?thesis by (subst (asm) parse_journal.simps) (auto split: if_splits)
    next
      case (Inr d)
      show ?thesis
      proof (cases "rec_sequence (dec_record d) = JournalSequence (of_nat k)")
        case False
        with 1(2) ne r Inr show ?thesis by (subst (asm) parse_journal.simps) auto
      next
        case True
        from 1(2) obtain cs' where cs': "parse_journal (Suc k) (drop (dec_consumed d) bytes) = (cs', stop, tail)"
          "cs = rec_command (dec_record d) # cs'"
          using ne r Inr True by (subst (asm) parse_journal.simps) (auto split: prod.splits)
        from decode_success [OF r [unfolded Inr]] True obtain rest where
          rest: "bytes = frame (JournalSequence (of_nat k)) (rec_command (dec_record d)) @ rest"
          "dec_consumed d = length (frame (JournalSequence (of_nat k)) (rec_command (dec_record d)))" by auto
        from 1(1) [OF ne r Inr _ cs'(1)] True have
          IH: "drop (dec_consumed d) bytes = frames (Suc k) cs' @ tail" "stop = Complete \<longleftrightarrow> tail = []"
            "stop = Torn \<longrightarrow> decode_record_prefix tail = Done (Inl TruncatedInput)" by simp_all
        from IH(1) rest have "rest = frames (Suc k) cs' @ tail" by simp
        with IH rest(1) cs'(2) show ?thesis by simp
      qed
    qed
  qed
qed

section \<open>Writing\<close>

text \<open>The bytes \<open>d\<close> have been appended to the file \<open>path\<close>, and nothing else has happened.\<close>

definition appended :: "'s file_views \<Rightarrow> 's \<Rightarrow> 's \<Rightarrow> path \<Rightarrow> byte list \<Rightarrow> bool" where
  "appended V s s' path d \<longleftrightarrow> target V s' = target V s \<and> synced V s' = synced V s \<and>
     interrupts V s' \<le> interrupts V s \<and>
     (\<exists>c. content V s path = Some c \<and> content V s' = (content V s)(path \<mapsto> c @ d))"

lemma appended_Nil: "content V s path = Some c \<Longrightarrow> same_files V s s' \<Longrightarrow> interrupts V s' \<le> interrupts V s \<Longrightarrow> appended V s s' path []"
  by (auto simp: appended_def same_files_def fun_upd_idem)

lemma appended_trans: "appended V s s' path d \<Longrightarrow> appended V s' s'' path e \<Longrightarrow> appended V s s'' path (d @ e)"
  by (auto simp: appended_def)

text \<open>One turn of the loop: it ends with an error, or goes on after \<open>n\<close> more bytes, none if it was interrupted.\<close>

lemma write_turn:
  assumes laws: "posix_laws os V" and at: "target V s fd = Some path" "content V s path = Some c" and lt: "written < length bytes"
  obtains
    (stopped) s1 e where "write_all os fd bytes written s = Some (s1, Some e)" "appended V s s1 path []" "jse_code e = WriteFailed"
  | (goes_on) s1 n where "write_all os fd bytes written s = write_all os fd bytes (written + n) s1"
      "appended V s s1 path (take n (drop written bytes))" "written + n \<le> length bytes"
      "length bytes - (written + n) + interrupts V s1 < length bytes - written + interrupts V s"
proof -
  obtain s1 r where w: "sys_write os fd (drop written bytes) s = (s1, r)" by (cases "sys_write os fd (drop written bytes) s")
  have "write_law os V" using laws by (simp add: posix_laws_def)
  with w at have l: "interrupted_less V s s1 r" "target V s1 = target V s" "synced V s1 = synced V s"
    "case r of Inl e \<Rightarrow> content V s1 = content V s
     | Inr n \<Rightarrow> n \<le> length (drop written bytes) \<and> content V s1 = (content V s)(path \<mapsto> c @ take n (drop written bytes))"
    unfolding write_law_def by blast+
  have le: "interrupts V s1 \<le> interrupts V s" using l(1) by (simp add: interrupted_less_def)
  show thesis
  proof (cases r)
    case (Inl e)
    with l have "same_files V s s1" by (simp add: same_files_def)
    note none = appended_Nil [OF at(2) this le]
    show thesis
    proof (cases "e = EINTR")
      case True
      with l(1) Inl have "interrupts V s1 < interrupts V s" by (simp add: interrupted_less_def)
      moreover have "write_all os fd bytes written s = write_all os fd bytes written s1"
        using lt w Inl True by (subst write_all.simps) simp
      ultimately show thesis using goes_on [of 0 s1] none lt by simp
    next
      case False
      then have "write_all os fd bytes written s = Some (s1, Some (make_error WriteFailed (Some e) None))"
        using lt w Inl by (subst write_all.simps) simp
      then show thesis using none by (rule stopped) (simp add: make_error_def)
    qed
  next
    case (Inr n)
    from l Inr at le lt have app: "appended V s s1 path (take n (drop written bytes))" and n: "written + n \<le> length bytes"
      by (auto simp: appended_def)
    show thesis
    proof (cases "n = 0")
      case True
      then have "write_all os fd bytes written s = Some (s1, Some (make_error WriteFailed (Some EIO) None))"
        using lt w Inr by (subst write_all.simps) simp
      then show thesis by (rule stopped) (use app True in \<open>simp_all add: make_error_def\<close>)
    next
      case False
      then have "write_all os fd bytes written s = write_all os fd bytes (written + n) s1"
        using lt w Inr by (subst write_all.simps) simp
      then show thesis using app n by (rule goes_on) (use False n le lt in linarith)
    qed
  qed
qed

lemma write_all_effect:
  assumes laws: "posix_laws os V" and "target V s fd = Some path" "content V s path = Some c" "written \<le> length bytes"
  shows "\<exists>s' r d. write_all os fd bytes written s = Some (s', r) \<and> appended V s s' path d \<and>
    (case r of None \<Rightarrow> d = drop written bytes
     | Some e \<Rightarrow> jse_code e = WriteFailed \<and> d = take (length d) (drop written bytes))"
  using assms(2-)
proof (induction "length bytes - written + interrupts V s" arbitrary: written s c rule: less_induct)
  case less
  show ?case
  proof (cases "written < length bytes")
    case False
    then have "write_all os fd bytes written s = Some (s, None)" by (subst write_all.simps) simp
    moreover have "appended V s s path []" using less.prems(2) by (intro appended_Nil) (simp_all add: same_files_def)
    ultimately show ?thesis using False by force
  next
    case lt: True
    show ?thesis
    proof (rule write_turn [OF laws less.prems(1,2) lt], goal_cases)
      case (1 s1 e)
      then show ?thesis by (intro exI [of _ s1] exI [of _ "Some e"] exI [of _ "[]"]) simp
    next
      case (2 s1 n)
      let ?d = "take n (drop written bytes)"
      have "target V s1 fd = Some path" "content V s1 path = Some (c @ ?d)" using 2(2) less.prems(1,2) by (auto simp: appended_def)
      from less.hyps [OF 2(4) this 2(3)] obtain s' r' d where
        IH: "write_all os fd bytes (written + n) s1 = Some (s', r')" "appended V s1 s' path d"
          "case r' of None \<Rightarrow> d = drop (written + n) bytes
           | Some e \<Rightarrow> jse_code e = WriteFailed \<and> d = take (length d) (drop (written + n) bytes)" by (elim exE conjE) (rule that)
      have len: "length ?d = n" and rest: "?d @ drop (written + n) bytes = drop written bytes"
        using 2(3) by (simp, metis append_take_drop_id drop_drop add.commute)
      have "take (n + length d) (drop written bytes) = ?d @ take (length d) (drop (written + n) bytes)"
        by (simp add: take_add drop_drop add.commute)
      then have "case r' of None \<Rightarrow> ?d @ d = drop written bytes
           | Some e \<Rightarrow> jse_code e = WriteFailed \<and> ?d @ d = take (length (?d @ d)) (drop written bytes)"
        using IH(3) len rest by (cases r') (simp_all del: length_take)
      with appended_trans [OF 2(2) IH(2)] IH(1) 2(1) show ?thesis by auto
    qed
  qed
qed

lemma write_frames_effect:
  assumes laws: "posix_laws os V" and "target V s fd = Some path" "content V s path = Some c"
  shows "\<exists>s' r d. write_frames os fd fs s = Some (s', r) \<and> appended V s s' path d \<and>
    (case r of None \<Rightarrow> d = concat fs
     | Some e \<Rightarrow> jse_code e = WriteFailed \<and> d = take (length d) (concat fs))"
  using assms(2-)
proof (induction fs arbitrary: s c)
  case Nil
  then show ?case by (auto simp: same_files_def intro!: appended_Nil)
next
  case (Cons f fs)
  from write_all_effect [OF laws Cons.prems le0, of f, unfolded drop_0] obtain s1 r1 d1 where
    w: "write_all os fd f 0 s = Some (s1, r1)" "appended V s s1 path d1"
      "case r1 of None \<Rightarrow> d1 = f | Some e \<Rightarrow> jse_code e = WriteFailed \<and> d1 = take (length d1) f" by (elim exE conjE) (rule that)
  show ?case
  proof (cases r1)
    case (Some e)
    with w(3) have e: "jse_code e = WriteFailed" and d1: "d1 = take (length d1) f" by simp_all
    have "length d1 \<le> length f" using arg_cong [OF d1, of length] by simp
    with d1 have "d1 = take (length d1) (concat (f # fs))" by simp
    with w(1,2) Some e show ?thesis by auto
  next
    case None
    with w(2,3) Cons.prems have "target V s1 fd = Some path" "content V s1 path = Some (c @ f)"
      by (auto simp: appended_def)
    from Cons.IH [OF this] obtain s' r d where
      IH: "write_frames os fd fs s1 = Some (s', r)" "appended V s1 s' path d"
        "case r of None \<Rightarrow> d = concat fs | Some e \<Rightarrow> jse_code e = WriteFailed \<and> d = take (length d) (concat fs)"
      by (elim exE conjE) (rule that)
    have "case r of None \<Rightarrow> d1 @ d = concat (f # fs)
      | Some e \<Rightarrow> jse_code e = WriteFailed \<and> d1 @ d = take (length (d1 @ d)) (concat (f # fs))"
      using IH(3) w(3) None by (cases r) auto
    with appended_trans [OF w(2) IH(2)] w(1) IH(1) None show ?thesis by auto
  qed
qed

section \<open>Appending a batch\<close>

text \<open>The sequence number that follows \<open>k - 1\<close>; there is none after $2^{64} - 1$.\<close>

definition next_number :: "nat \<Rightarrow> JournalSequence option" where
  "next_number k = (if k < 2 ^ 64 then Some (JournalSequence (of_nat k)) else None)"

lemma sequence_nonzero: "0 < k \<Longrightarrow> k < 2 ^ 64 \<Longrightarrow> (of_nat k :: u64) \<noteq> 0"
  by (simp add: word_of_nat_eq_0_iff nat_dvd_not_less)

lemma prepare_frames_result:
  assumes "0 < k" "k + index + length cs \<le> 2 ^ 64"
  shows "(\<exists>e. prepare_frames (of_nat k) index cs n fs qs = Some (Inl e) \<and> jse_code e = CodecFailure) \<or>
    (\<exists>fs'. prepare_frames (of_nat k) index cs n fs qs = Some (Inr (fs @ fs', qs @ map rec_sequence (numbered (k + index) cs))) \<and>
       concat fs' = frames (k + index) cs)"
  using assms(2)
proof (induction cs arbitrary: index n fs qs)
  case (Cons c cs)
  let ?q = "JournalSequence (of_nat (k + index))"
  have q: "sequence_value ?q \<noteq> 0" using sequence_nonzero [of "k + index"] assms(1) Cons.prems by simp
  have enc: "encode_record (JournalSequence (of_nat k + of_nat index)) c = Done (Inr (frame ?q c))"
    using encode_record_frame [OF q, of c] by simp
  show ?case
  proof (cases "length (frame ?q c) > 18446744073709551615 - n")
    case True
    with enc show ?thesis by (simp add: Let_def make_error_def)
  next
    case False
    then have "prepare_frames (of_nat k) index (c # cs) n fs qs =
        prepare_frames (of_nat k) (Suc index) cs (n + length (frame ?q c)) (fs @ [frame ?q c]) (qs @ [?q])"
      using enc by (simp add: Let_def)
    with Cons.IH [of "Suc index" "n + length (frame ?q c)" "fs @ [frame ?q c]" "qs @ [?q]"] Cons.prems show ?thesis
      by auto
  qed
qed simp

lemma available_numbers:
  assumes "0 < k" "k < 2 ^ 64"
  shows "unat (u64_max - (of_nat k :: u64) + 1) = 2 ^ 64 - k"
proof -
  have k: "unat (of_nat k :: u64) = k" using assms by (simp add: unat_of_nat)
  have "unat (u64_max - (of_nat k :: u64)) = 2 ^ 64 - 1 - k"
    using unat_sub_le [of "of_nat k" u64_max] by (simp add: k unat_u64_max)
  moreover have "u64_max - (of_nat k :: u64) \<noteq> u64_max" using sequence_nonzero [OF assms] by simp
  ultimately show ?thesis using unat_Suc_word [of "u64_max - of_nat k"] assms by simp
qed

text \<open>The possible effects of appending a batch to a writer whose next number is \<open>k\<close>.\<close>

text \<open>Writing the frames of a batch and syncing the file.\<close>

lemma store_effect:
  assumes laws: "posix_laws os V" and at: "target V s fd = Some path" "content V s path = Some c"
  obtains
    (unwritten) s1 e d where "write_frames os fd fs s = Some (s1, Some e)" "appended V s s1 path d"
      "d = take (length d) (concat fs)" "jse_code e = WriteFailed"
  | (unsynced) s1 s2 e where "write_frames os fd fs s = Some (s1, None)" "sys_fsync os fd s1 = (s2, Some e)"
      "appended V s s2 path (concat fs)"
  | (stored) s1 s2 where "write_frames os fd fs s = Some (s1, None)" "sys_fsync os fd s1 = (s2, None)"
      "target V s2 = target V s" "content V s2 = (content V s)(path \<mapsto> c @ concat fs)"
      "synced V s2 = (synced V s)(path := c @ concat fs)" "interrupts V s2 \<le> interrupts V s"
proof -
  from write_frames_effect [OF laws at, of fs] obtain s1 r d where
    wf: "write_frames os fd fs s = Some (s1, r)" "appended V s s1 path d"
      "case r of None \<Rightarrow> d = concat fs | Some e \<Rightarrow> jse_code e = WriteFailed \<and> d = take (length d) (concat fs)"
    by (elim exE conjE) (rule that)
  show thesis
  proof (cases r)
    case (Some e)
    then show thesis using unwritten [of s1 e d] wf by simp
  next
    case None
    obtain s2 y where y: "sys_fsync os fd s1 = (s2, y)" by (cases "sys_fsync os fd s1")
    have law: "fsync_law os V" using laws by (simp add: posix_laws_def)
    have t1: "target V s1 fd = Some path" "content V s1 path = Some (c @ concat fs)"
      using wf(2,3) None at by (auto simp: appended_def)
    have f: "interrupts V s2 \<le> interrupts V s1" "content V s2 = content V s1" "target V s2 = target V s1"
      "synced V s2 = (case y of Some e \<Rightarrow> synced V s1 | None \<Rightarrow> (synced V s1)(path := c @ concat fs))"
      using law [unfolded fsync_law_def, rule_format, OF y] t1 by (simp_all cong: option.case_cong)
    note written = wf(1) [unfolded None]
    show thesis
    proof (cases y)
      case (Some e)
      have "appended V s s2 path (concat fs)" using wf(2,3) None f Some by (auto simp: appended_def)
      then show thesis using unsynced [OF written] y Some by simp
    next
      case synced: None
      show thesis by (rule stored [OF written y [unfolded synced]]) (use wf(2,3) None f synced at in \<open>auto simp: appended_def\<close>)
    qed
  qed
qed

lemma append_batch_effect:
  assumes laws: "posix_laws os V" and w: "target V s (wr_descriptor w) = Some path" "content V s path = Some c"
    "\<not> wr_failed w" "wr_next_sequence w = next_number k" "0 < k" "k \<le> 2 ^ 64"
  obtains
    (refused) e where "append_batch_and_sync os oom w cs s = Some (s, w, Inl e)"
      "jse_code e \<in> {EmptyBatch, JournalSequenceExhausted, CodecFailure}"
  | (failed) s' e d where
      "append_batch_and_sync os oom w cs s = Some (s', w\<lparr>wr_failed := True\<rparr>, Inl e)"
      "appended V s s' path d" "d = take (length d) (frames k cs)" "jse_code e \<in> {WriteFailed, SyncFailed}"
      "k + length cs \<le> 2 ^ 64"
  | (stored) s' where
      "append_batch_and_sync os oom w cs s =
         Some (s', w\<lparr>wr_next_sequence := next_number (k + length cs)\<rparr>, Inr (map rec_sequence (numbered k cs)))"
      "cs \<noteq> []" "k + length cs \<le> 2 ^ 64" "target V s' = target V s"
      "content V s' = (content V s)(path \<mapsto> c @ frames k cs)"
      "synced V s' = (synced V s)(path := c @ frames k cs)" "interrupts V s' \<le> interrupts V s"
proof (cases "cs = [] \<or> k = 2 ^ 64 \<or> length cs > 2 ^ 64 - k \<or> oom")
  case True
  have "\<exists>e. append_batch_and_sync os oom w cs s = Some (s, w, Inl e) \<and>
      jse_code e \<in> {EmptyBatch, JournalSequenceExhausted, CodecFailure}"
    using True w(3-) available_numbers [OF w(5)]
    by (auto simp: append_batch_and_sync_def next_number_def make_error_def Let_def split: option.split)
  with refused show thesis by blast
next
  case False
  then have k: "k < 2 ^ 64" "k + length cs \<le> 2 ^ 64" "cs \<noteq> []" "\<not> oom" using w(6) by auto
  have avail: "unat (u64_max - (of_nat k :: u64) + 1) = 2 ^ 64 - k" using available_numbers [OF w(5) k(1)] .
  have following_number: "wr_next_sequence w = Some (JournalSequence (of_nat k))" using w(4) k(1) by (simp add: next_number_def)
  have guard: "\<not> length cs > unat (u64_max - (of_nat k :: u64) + 1)" using avail k by simp
  have following: "(if length cs = unat (u64_max - (of_nat k :: u64) + 1) then None
      else Some (JournalSequence (of_nat k + of_nat (length cs)))) = next_number (k + length cs)"
    using avail k w(5) by (auto simp: next_number_def)
  note unfold = append_batch_and_sync_def [of os oom w cs s]
  from prepare_frames_result [of k 0 cs 0 "[]" "[]"] w(5) k(2) consider
    (bad) e where "prepare_frames (of_nat k) 0 cs 0 [] [] = Some (Inl e)" "jse_code e = CodecFailure"
    | (ok) fs where "prepare_frames (of_nat k) 0 cs 0 [] [] = Some (Inr (fs, map rec_sequence (numbered k cs)))"
        "concat fs = frames k cs" by auto
  then show thesis
  proof cases
    case bad
    then have "append_batch_and_sync os oom w cs s = Some (s, w, Inl e)"
      unfolding unfold using w(3) k following_number guard by (simp add: Let_def)
    with bad(2) refused show thesis by simp
  next
    case ok
    note run = w(3) k following_number guard ok(1)
    show thesis
    proof (rule store_effect [OF laws w(1,2), of fs, unfolded ok(2)], goal_cases)
      case (1 s1 e d)
      have "append_batch_and_sync os oom w cs s = Some (s1, w\<lparr>wr_failed := True\<rparr>, Inl e)" unfolding unfold using run 1(1) by (simp add: Let_def)
      with 1 k(2) failed show thesis by simp
    next
      case (2 s1 s' e)
      have "append_batch_and_sync os oom w cs s =
          Some (s', w\<lparr>wr_failed := True\<rparr>, Inl (make_error SyncFailed (Some e) None))" unfolding unfold using run 2(1,2) by (simp add: Let_def)
      with 2(3) k(2) failed show thesis by (simp add: make_error_def)
    next
      case (3 s1 s')
      have "append_batch_and_sync os oom w cs s =
          Some (s', w\<lparr>wr_next_sequence := next_number (k + length cs)\<rparr>, Inr (map rec_sequence (numbered k cs)))"
        unfolding unfold following [symmetric] using run 3(1,2) by (simp add: Let_def)
      with stored k 3(3-) show thesis by simp
    qed
  qed
qed

section \<open>Reading\<close>

text \<open>Nothing has changed but the number of interruptions to come.\<close>

definition only_read :: "'s file_views \<Rightarrow> 's \<Rightarrow> 's \<Rightarrow> bool" where
  "only_read V s s' \<longleftrightarrow> same_files V s s' \<and> interrupts V s' \<le> interrupts V s"

lemma only_read_refl [simp]: "only_read V s s"
  by (simp add: only_read_def same_files_def)

lemma only_read_trans: "only_read V s s' \<Longrightarrow> only_read V s' s'' \<Longrightarrow> only_read V s s''"
  by (simp add: only_read_def same_files_def)

lemma only_read_files: "only_read V s s' \<Longrightarrow> content V s' = content V s \<and> target V s' = target V s \<and> synced V s' = synced V s"
  by (simp add: only_read_def same_files_def)

lemma take_prefix_append:
  assumes "xs = take (length xs) c" "ys = take (length ys) (drop (length xs) c)"
  shows "xs @ ys = take (length (xs @ ys)) c"
proof -
  have "take (length (xs @ ys)) c = take (length xs) c @ take (length ys) (drop (length xs) c)" by (simp add: take_add)
  then show ?thesis using assms by metis
qed

lemma pread_loop_effect:
  assumes laws: "posix_laws os V" and opened: "target V s fd = Some path" "content V s path = Some c"
    and "offset + n \<le> length c" "length bytes \<le> n" "bytes = take (length bytes) (drop offset c)"
  shows "\<exists>s' r. pread_loop os fd offset n bytes s = Some (s', r) \<and> only_read V s s' \<and>
    (case r of Inl e \<Rightarrow> jse_code e = ReadFailed | Inr b \<Rightarrow> b = take n (drop offset c))"
  using assms(2-)
proof (induction "n - length bytes + interrupts V s" arbitrary: bytes s rule: less_induct)
  case less
  have law: "pread_law os V" using laws by (simp add: posix_laws_def)
  show ?case
  proof (cases "length bytes < n")
    case False
    then have "pread_loop os fd offset n bytes s = Some (s, Inr bytes)" by (subst pread_loop.simps) simp
    moreover have "length bytes = n" using False less.prems(4) by simp
    ultimately show ?thesis using less.prems(5) by force
  next
    case lt: True
    obtain s1 r where p: "sys_pread os fd (n - length bytes) (offset + length bytes) s = (s1, r)"
      by (cases "sys_pread os fd (n - length bytes) (offset + length bytes) s")
    note l = law [unfolded pread_law_def, rule_format, OF p less.prems(1,2)]
    then have only: "only_read V s s1" by (simp add: only_read_def interrupted_less_def)
    then have file1: "target V s1 fd = Some path" "content V s1 path = Some c"
      using less.prems(1,2) by (simp_all add: only_read_def same_files_def)
    show ?thesis
    proof (cases r)
      case (Inl e)
      show ?thesis
      proof (cases "e = EINTR")
        case True
        with l Inl have "interrupts V s1 < interrupts V s" by (simp add: interrupted_less_def)
        then have "n - length bytes + interrupts V s1 < n - length bytes + interrupts V s" by simp
        from less.hyps [OF this file1 less.prems(3-5)] obtain s' r' where
          "pread_loop os fd offset n bytes s1 = Some (s', r')" "only_read V s1 s'"
          "case r' of Inl e \<Rightarrow> jse_code e = ReadFailed | Inr b \<Rightarrow> b = take n (drop offset c)"
          by (elim exE conjE) (rule that)
        moreover have "pread_loop os fd offset n bytes s = pread_loop os fd offset n bytes s1"
          using lt p Inl True by (subst pread_loop.simps) simp
        ultimately show ?thesis using only_read_trans [OF only] by auto
      next
        case False
        then have "pread_loop os fd offset n bytes s = Some (s1, Inl (make_error ReadFailed (Some e) None))"
          using lt p Inl by (subst pread_loop.simps) simp
        with only show ?thesis by (auto simp: make_error_def)
      qed
    next
      case (Inr chunk)
      with l have ch: "length chunk \<le> n - length bytes" "chunk = take (length chunk) (drop (offset + length bytes) c)"
        "chunk \<noteq> []" using lt less.prems(3) by auto
      then have eq: "pread_loop os fd offset n bytes s = pread_loop os fd offset n (bytes @ chunk) s1"
        using lt p Inr by (subst pread_loop.simps) simp
      have pre: "bytes @ chunk = take (length (bytes @ chunk)) (drop offset c)"
        using ch(2) by (intro take_prefix_append less.prems(5)) (simp add: add.commute)
      have dec: "n - length (bytes @ chunk) + interrupts V s1 < n - length bytes + interrupts V s"
      proof -
        have "0 < length chunk" "interrupts V s1 \<le> interrupts V s" using ch(3) only by (simp_all add: only_read_def)
        with ch(1) lt show ?thesis unfolding length_append by linarith
      qed
      have "length (bytes @ chunk) \<le> n" using ch(1) lt by simp
      from less.hyps [OF dec file1 less.prems(3) this pre] obtain s' r' where "pread_loop os fd offset n (bytes @ chunk) s1 = Some (s', r')" "only_read V s1 s'"
        "case r' of Inl e \<Rightarrow> jse_code e = ReadFailed | Inr b \<Rightarrow> b = take n (drop offset c)"
        by (elim exE conjE) (rule that)
      with eq show ?thesis using only_read_trans [OF only] by auto
    qed
  qed
qed

lemma pread_effect:
  assumes laws: "posix_laws os V" and opened: "target V s fd = Some path" "content V s path = Some c"
    and le: "offset + n \<le> length c"
  obtains s' r where "pread_at_most os fd offset n s = Some (s', r)" "only_read V s s'"
    "case r of Inl e \<Rightarrow> jse_code e = ReadFailed | Inr b \<Rightarrow> b = take n (drop offset c)"
proof -
  have "length c < 2 ^ 63" using laws opened(2) by (auto simp: posix_laws_def size_law_def)
  with le have "\<not> offset > 9223372036854775807" by simp
  then show thesis using pread_loop_effect [OF laws opened le, of "[]"] that by (auto simp: pread_at_most_def)
qed

section \<open>Scanning\<close>

definition scanned :: "JournalScan \<Rightarrow> nat \<Rightarrow> JournalCommand list \<Rightarrow> bool \<Rightarrow> JournalScan" where
  "scanned scan k cs torn = scan\<lparr>
     scan_records := scan_records scan @ numbered k cs,
     scan_valid_size := scan_valid_size scan + length (frames k cs),
     scan_has_truncated_tail := torn,
     scan_next_sequence := Some (JournalSequence (of_nat (k + length cs)))\<rparr>"

definition scan_outcome :: "JournalScan \<Rightarrow> nat \<Rightarrow> byte list \<Rightarrow> JournalStorageError + JournalScan" where
  "scan_outcome scan k bytes =
     (case parse_journal k bytes of
        (cs, Complete, tail) \<Rightarrow> Inr (scanned scan k cs False)
      | (cs, Torn, tail) \<Rightarrow> Inr (scanned scan k cs True)
      | (cs, Corrupt e, tail) \<Rightarrow> Inl e)"

text \<open>The scan when one more record has been read.\<close>

definition scan_further :: "JournalScan \<Rightarrow> nat \<Rightarrow> DecodedJournalRecord \<Rightarrow> JournalScan" where
  "scan_further scan k rec = scan\<lparr>
     scan_records := scan_records scan @ [dec_record rec],
     scan_valid_size := scan_valid_size scan + dec_consumed rec,
     scan_next_sequence := Some (JournalSequence (of_nat (Suc k)))\<rparr>"

lemma scan_outcome_error:
  assumes "bytes \<noteq> []" "decode_record_prefix bytes = Done (Inl e)" "scan_next_sequence scan = Some (JournalSequence (of_nat k))"
  shows "scan_outcome scan k bytes =
    (if e = TruncatedInput then Inr (scan\<lparr>scan_has_truncated_tail := True\<rparr>) else Inl (make_error InvalidJournal None (Some e)))"
proof -
  have "parse_journal k bytes =
      ([], if e = TruncatedInput then Torn else Corrupt (make_error InvalidJournal None (Some e)), bytes)"
    using assms(1,2) by (subst parse_journal.simps) simp
  moreover have "scanned scan k [] True = scan\<lparr>scan_has_truncated_tail := True\<rparr>"
    using assms(3) by (cases scan) (simp add: scanned_def)
  ultimately show ?thesis by (simp add: scan_outcome_def)
qed

lemma scan_outcome_gap:
  assumes "bytes \<noteq> []" "decode_record_prefix bytes = Done (Inr rec)" "rec_sequence (dec_record rec) \<noteq> JournalSequence (of_nat k)"
  shows "scan_outcome scan k bytes = Inl (make_error SequenceViolation None None)"
proof -
  have "parse_journal k bytes = ([], Corrupt (make_error SequenceViolation None None), bytes)"
    using assms by (subst parse_journal.simps) simp
  then show ?thesis by (simp add: scan_outcome_def)
qed

lemma scan_outcome_record:
  assumes "bytes \<noteq> []" "decode_record_prefix bytes = Done (Inr rec)" "rec_sequence (dec_record rec) = JournalSequence (of_nat k)"
  shows "scan_outcome (scan_further scan k rec) (Suc k) (drop (dec_consumed rec) bytes) = scan_outcome scan k bytes"
    and "32 \<le> dec_consumed rec \<and> dec_consumed rec \<le> length bytes"
proof -
  let ?q = "rec_sequence (dec_record rec)" and ?cmd = "rec_command (dec_record rec)"
  from decode_success [OF assms(2)] obtain rest where
    rest: "bytes = frame ?q ?cmd @ rest" "dec_consumed rec = length (frame ?q ?cmd)" by blast
  have parse: "parse_journal k bytes = (case parse_journal (Suc k) (drop (dec_consumed rec) bytes) of
      (cs, stop, tail) \<Rightarrow> (?cmd # cs, stop, tail))"
    using assms by (subst parse_journal.simps) simp
  have "scanned (scan_further scan k rec) (Suc k) cs torn = scanned scan k (?cmd # cs) torn" for cs torn
    using assms(3) rest(2) by (cases "dec_record rec") (simp add: scanned_def scan_further_def)
  then show "scan_outcome (scan_further scan k rec) (Suc k) (drop (dec_consumed rec) bytes) = scan_outcome scan k bytes"
    unfolding scan_outcome_def parse by (simp split: prod.split scan_stop.split)
  show "32 \<le> dec_consumed rec \<and> dec_consumed rec \<le> length bytes"
    using rest frame_size(1) [of ?q ?cmd] arg_cong [OF rest(1), of length] by simp
qed

text \<open>One turn of the loop: the read fails, the scan ends, or a record is added.\<close>

lemma scan_turn:
  assumes laws: "posix_laws os V" and opened: "target V s fd = Some path" "content V s path = Some c"
    and lt: "scan_valid_size scan < length c" and k: "k \<le> scan_valid_size scan"
    and scan: "scan_next_sequence scan = Some (JournalSequence (of_nat k))"
  obtains
    (unreadable) s1 e where "scan_loop os fd (length c) scan (of_nat k) s = Some (s1, Inl e)" "only_read V s s1" "jse_code e = ReadFailed"
  | (ended) s1 where "only_read V s s1"
      "scan_loop os fd (length c) scan (of_nat k) s = Some (s1, scan_outcome scan k (drop (scan_valid_size scan) c))"
  | (further) s1 rec where "only_read V s s1"
      "scan_loop os fd (length c) scan (of_nat k) s = scan_loop os fd (length c) (scan_further scan k rec) (of_nat (Suc k)) s1"
      "32 \<le> dec_consumed rec" "scan_valid_size scan + dec_consumed rec \<le> length c"
      "scan_outcome (scan_further scan k rec) (Suc k) (drop (scan_valid_size scan + dec_consumed rec) c) =
       scan_outcome scan k (drop (scan_valid_size scan) c)"
proof -
  let ?v = "scan_valid_size scan" and ?rest = "drop (scan_valid_size scan) c"
  define n where "n = min (length c - ?v) 88"
  have le: "?v + n \<le> length c" using lt by (simp add: n_def)
  obtain s1 r1 where p: "pread_at_most os fd ?v n s = Some (s1, r1)" "only_read V s s1"
    "case r1 of Inl e \<Rightarrow> jse_code e = ReadFailed | Inr b \<Rightarrow> b = take n ?rest"
    by (rule pread_effect [OF laws opened le])
  note unfold = scan_loop.simps [of os fd "length c" scan "of_nat k" s]
  show thesis
  proof (cases r1)
    case (Inl e)
    then show thesis using p by (intro unreadable [of s1 e]) (subst unfold, simp_all add: lt flip: n_def)
  next
    case read: (Inr bytes)
    have "take n ?rest = take 88 ?rest" by (auto simp: n_def min_def)
    with p(3) read have bytes: "bytes = take 88 ?rest" by simp
    have blen: "length bytes = n" by (simp add: bytes n_def)
    have ne: "?rest \<noteq> []" using lt by simp
    obtain d where d: "decode_record_prefix bytes = Done d" "decode_record_prefix ?rest = Done d"
      using decode_total [of ?rest] decode_record_window [of ?rest] by (auto simp: bytes)
    show thesis
    proof (cases d)
      case (Inl e)
      show thesis
        by (rule ended [OF p(2)], subst unfold)
           (simp add: lt p(1) read blen d(1) Inl scan_outcome_error [OF ne d(2) [unfolded Inl] scan] flip: n_def)
    next
      case (Inr rec)
      note rec = d(2) [unfolded Inr]
      show thesis
      proof (cases "rec_sequence (dec_record rec) = JournalSequence (of_nat k)")
        case False
        then have "sequence_value (rec_sequence (dec_record rec)) \<noteq> of_nat k" by (cases "rec_sequence (dec_record rec)") simp
        then show thesis
          by (intro ended [OF p(2)], subst unfold)
             (simp add: lt p(1) read blen d(1) Inr scan_outcome_gap [OF ne rec False] flip: n_def)
      next
        case True
        have "length c < 2 ^ 63" using laws opened(2) by (auto simp: posix_laws_def size_law_def)
        then have small: "k < 2 ^ 63" using lt k by linarith
        then have "unat (of_nat k :: u64) = k" by (simp add: unat_of_nat)
        with small have max: "(of_nat k :: u64) \<noteq> u64_max" using unat_u64_max by auto
        show thesis
        proof (rule further [OF p(2)])
          show "scan_loop os fd (length c) scan (of_nat k) s = scan_loop os fd (length c) (scan_further scan k rec) (of_nat (Suc k)) s1"
            by (subst unfold)
               (simp add: lt p(1) read blen d(1) Inr True max Let_def add.commute scan_further_def flip: n_def)
        qed (use scan_outcome_record(1) [OF ne rec True, of scan] scan_outcome_record(2) [OF ne rec True] lt in \<open>auto simp: add.commute\<close>)
      qed
    qed
  qed
qed

lemma scan_loop_effect:
  assumes laws: "posix_laws os V" and "target V s fd = Some path" "content V s path = Some c"
    and "scan_valid_size scan \<le> length c" "0 < k" "k \<le> scan_valid_size scan"
    and "scan_next_sequence scan = Some (JournalSequence (of_nat k))" "\<not> scan_has_truncated_tail scan"
  shows "\<exists>s' r. scan_loop os fd (length c) scan (of_nat k) s = Some (s', r) \<and> only_read V s s' \<and>
    ((\<exists>e. r = Inl e \<and> jse_code e = ReadFailed) \<or> r = scan_outcome scan k (drop (scan_valid_size scan) c))"
  using assms(2-)
proof (induction "length c - scan_valid_size scan" arbitrary: scan k s rule: less_induct)
  case less
  let ?v = "scan_valid_size scan" and ?rest = "drop (scan_valid_size scan) c"
  show ?case
  proof (cases "?v < length c")
    case False
    then have "scan_loop os fd (length c) scan (of_nat k) s = Some (s, Inr scan)" by (subst scan_loop.simps) simp
    moreover have "?rest = []" using False by simp
    moreover have "scanned scan k [] False = scan" using less.prems(6,7) by (cases scan) (simp add: scanned_def)
    ultimately show ?thesis by (simp add: scan_outcome_def)
  next
    case lt: True
    show ?thesis
    proof (rule scan_turn [OF laws less.prems(1,2) lt less.prems(5,6)], goal_cases)
      case further: (3 s1 rec)
      let ?scan = "scan_further scan k rec"
      have file1: "target V s1 fd = Some path" "content V s1 path = Some c"
        using further(1) less.prems(1,2) by (simp_all add: only_read_def same_files_def)
      have "length c - scan_valid_size ?scan < length c - ?v" using further(3) lt by (simp add: scan_further_def)
      from less.hyps [OF this file1, of "Suc k"] further(3,4) less.prems(4,5,7) obtain s' r where
        "scan_loop os fd (length c) ?scan (of_nat (Suc k)) s1 = Some (s', r)" "only_read V s1 s'"
        "(\<exists>e. r = Inl e \<and> jse_code e = ReadFailed) \<or> r = scan_outcome ?scan (Suc k) (drop (?v + dec_consumed rec) c)"
        by (auto simp: scan_further_def)
      with further(2,5) only_read_trans [OF further(1)] show ?thesis by auto
    qed auto
  qed
qed

end
