(* ===== verification/Memory_Files.thy ===== *)
theory Memory_Files
  imports Posix_Files
begin

text \<open>
  A system that satisfies \<open>posix_laws\<close>, so that the theorems about journal files can be applied to a
  concrete case: files in memory, writes and reads of at most 30 bytes at a time, and a number of
  interruptions still to come.
\<close>

record memory =
  mem_files :: "path \<Rightarrow> byte list option"
  mem_open :: "int \<Rightarrow> path option"
  mem_synced :: "path \<Rightarrow> byte list"
  mem_next :: nat
  mem_interrupts :: nat

definition mem_content :: "memory \<Rightarrow> path \<Rightarrow> byte list option" where
  "mem_content s path =
     (case mem_files s path of
        None \<Rightarrow> None
      | Some c \<Rightarrow> if length c < 2 ^ 63 then Some c else None)"

definition mem_target :: "memory \<Rightarrow> int \<Rightarrow> path option" where
  "mem_target s fd = (if 0 \<le> fd \<and> fd < int (mem_next s) then mem_open s fd else None)"

definition mem_views :: "memory file_views" where
  "mem_views = \<lparr>content = mem_content, target = mem_target, synced = mem_synced, interrupts = mem_interrupts\<rparr>"

definition mem_new_descriptor :: "path \<Rightarrow> memory \<Rightarrow> memory \<times> (errno + int)" where
  "mem_new_descriptor path s =
     (let fd = int (mem_next s)
      in (s\<lparr>mem_open := (mem_open s)(fd \<mapsto> path), mem_next := Suc (mem_next s)\<rparr>, Inr fd))"

definition mem_sys_open :: "path \<Rightarrow> OpenMode \<Rightarrow> memory \<Rightarrow> memory \<times> (errno + int)" where
  "mem_sys_open path mode s =
     (case mode of
        OpenCreate \<Rightarrow>
          if mem_files s path \<noteq> None then (s, Inl EEXIST)
          else mem_new_descriptor path (s\<lparr>mem_files := (mem_files s)(path \<mapsto> []), mem_synced := (mem_synced s)(path := [])\<rparr>)
      | OpenDirectory \<Rightarrow> if mem_files s path \<noteq> None then (s, Inl (OtherErrno 20)) else mem_new_descriptor path s
      | _ \<Rightarrow> if mem_files s path = None then (s, Inl ENOENT)
             else if mem_content s path = None then (s, Inl EOVERFLOW)
             else mem_new_descriptor path s)"

definition mem_sys_write :: "int \<Rightarrow> byte list \<Rightarrow> memory \<Rightarrow> memory \<times> (errno + nat)" where
  "mem_sys_write fd bytes s =
     (if mem_interrupts s > 0 then (s\<lparr>mem_interrupts := mem_interrupts s - 1\<rparr>, Inl EINTR)
      else case mem_target s fd of
          None \<Rightarrow> (s, Inl EIO)
        | Some path \<Rightarrow>
            (case mem_content s path of
               None \<Rightarrow> (s, Inl EIO)
             | Some c \<Rightarrow>
                 let n = min 30 (length bytes)
                 in if length c + n < 2 ^ 63
                    then (s\<lparr>mem_files := (mem_files s)(path \<mapsto> c @ take n bytes)\<rparr>, Inr n)
                    else (s, Inl EOVERFLOW)))"

definition mem_sys_pread :: "int \<Rightarrow> nat \<Rightarrow> nat \<Rightarrow> memory \<Rightarrow> memory \<times> (errno + byte list)" where
  "mem_sys_pread fd count offset s =
     (if mem_interrupts s > 0 then (s\<lparr>mem_interrupts := mem_interrupts s - 1\<rparr>, Inl EINTR)
      else case mem_target s fd of
          None \<Rightarrow> (s, Inl EIO)
        | Some path \<Rightarrow>
            (case mem_content s path of
               None \<Rightarrow> (s, Inl EIO)
             | Some c \<Rightarrow> (s, Inr (take (min 30 count) (drop offset c)))))"

definition mem_sys_fstat_size :: "int \<Rightarrow> memory \<Rightarrow> memory \<times> (errno + int)" where
  "mem_sys_fstat_size fd s =
     (case mem_target s fd of
        None \<Rightarrow> (s, Inl EIO)
      | Some path \<Rightarrow> (case mem_content s path of None \<Rightarrow> (s, Inl EIO) | Some c \<Rightarrow> (s, Inr (int (length c)))))"

definition mem_sys_ftruncate :: "int \<Rightarrow> nat \<Rightarrow> memory \<Rightarrow> memory \<times> errno option" where
  "mem_sys_ftruncate fd n s =
     (case mem_target s fd of
        None \<Rightarrow> (s, Some EIO)
      | Some path \<Rightarrow>
          (case mem_content s path of
             None \<Rightarrow> (s, Some EIO)
           | Some c \<Rightarrow> (s\<lparr>mem_files := (mem_files s)(path \<mapsto> take n c),
                          mem_synced := (mem_synced s)(path := take n (mem_synced s path))\<rparr>, None)))"

definition mem_sys_fsync :: "int \<Rightarrow> memory \<Rightarrow> memory \<times> errno option" where
  "mem_sys_fsync fd s =
     (case mem_target s fd of
        None \<Rightarrow> (s, None)
      | Some path \<Rightarrow>
          (case mem_content s path of
             None \<Rightarrow> (s, None)
           | Some c \<Rightarrow> (s\<lparr>mem_synced := (mem_synced s)(path := c)\<rparr>, None)))"

definition mem_sys_close :: "int \<Rightarrow> memory \<Rightarrow> memory" where
  "mem_sys_close fd s = s\<lparr>mem_open := (mem_open s)(fd := None)\<rparr>"

definition mem_os :: "memory posix" where
  "mem_os = \<lparr>sys_open = mem_sys_open, sys_write = mem_sys_write, sys_pread = mem_sys_pread,
     sys_fstat_size = mem_sys_fstat_size, sys_ftruncate = mem_sys_ftruncate, sys_fsync = mem_sys_fsync,
     sys_close = mem_sys_close\<rparr>"

lemmas mem_view_defs = mem_views_def mem_os_def same_files_def interrupted_less_def

lemma mem_content_update:
  "length c < 2 ^ 63 \<Longrightarrow> mem_content (s\<lparr>mem_files := (mem_files s)(path \<mapsto> c)\<rparr>) = (mem_content s)(path \<mapsto> c)"
  by (auto simp: mem_content_def fun_eq_iff)

lemma mem_content_small: "mem_content s path = Some c \<Longrightarrow> length c < 2 ^ 63"
  by (auto simp: mem_content_def split: option.splits if_splits)

lemma mem_content_other [simp]:
  "mem_content (s\<lparr>mem_open := x\<rparr>) = mem_content s" "mem_content (s\<lparr>mem_synced := y\<rparr>) = mem_content s"
  "mem_content (s\<lparr>mem_next := n\<rparr>) = mem_content s" "mem_content (s\<lparr>mem_interrupts := m\<rparr>) = mem_content s"
  by (simp_all add: mem_content_def fun_eq_iff)

lemma mem_target_other [simp]:
  "mem_target (s\<lparr>mem_files := x\<rparr>) = mem_target s" "mem_target (s\<lparr>mem_synced := y\<rparr>) = mem_target s"
  "mem_target (s\<lparr>mem_interrupts := m\<rparr>) = mem_target s"
  by (simp_all add: mem_target_def fun_eq_iff)

lemma mem_target_new:
  "mem_target (s\<lparr>mem_open := (mem_open s)(int (mem_next s) \<mapsto> path), mem_next := Suc (mem_next s)\<rparr>) =
     (mem_target s)(int (mem_next s) \<mapsto> path)"
  by (auto simp: mem_target_def fun_eq_iff)

lemma mem_target_fresh: "mem_target s (int (mem_next s)) = None"
  by (simp add: mem_target_def)

lemma mem_open_law: "open_law mem_os mem_views"
  unfolding open_law_def
  by (auto simp: mem_view_defs mem_sys_open_def mem_new_descriptor_def Let_def mem_target_fresh mem_target_new
        mem_content_def fun_eq_iff mem_target_def split: OpenMode.splits if_splits option.splits)

lemma mem_write_law: "write_law mem_os mem_views"
  unfolding write_law_def
  by (auto simp: mem_view_defs mem_sys_write_def Let_def mem_content_update split: if_splits option.splits)

lemma mem_pread_law: "pread_law mem_os mem_views"
  unfolding pread_law_def
  by (auto simp: mem_view_defs mem_sys_pread_def min_def split: if_splits option.splits)

lemma mem_fstat_law: "fstat_law mem_os mem_views"
  unfolding fstat_law_def
  by (auto simp: mem_view_defs mem_sys_fstat_size_def split: option.splits)

lemma mem_ftruncate_law: "ftruncate_law mem_os mem_views"
  unfolding ftruncate_law_def
  by (auto simp: mem_view_defs mem_sys_ftruncate_def mem_content_update dest: mem_content_small split: option.splits)

lemma mem_fsync_law: "fsync_law mem_os mem_views"
  unfolding fsync_law_def
  by (auto simp: mem_view_defs mem_sys_fsync_def split: option.splits)

lemma mem_close_law: "close_law mem_os mem_views"
  unfolding close_law_def
  by (auto simp: mem_view_defs mem_sys_close_def mem_target_def fun_eq_iff)

lemma mem_posix_laws: "posix_laws mem_os mem_views"
  using mem_open_law mem_write_law mem_pread_law mem_fstat_law mem_ftruncate_law mem_fsync_law mem_close_law
  by (auto simp: posix_laws_def size_law_def mem_views_def dest: mem_content_small)

text \<open>An empty file system, and one with a single file that is open under descriptor 0.\<close>

definition mem_empty :: memory where
  "mem_empty = \<lparr>mem_files = (\<lambda>_. None), mem_open = (\<lambda>_. None), mem_synced = (\<lambda>_. []), mem_next = 0, mem_interrupts = 2\<rparr>"

definition mem_with :: "path \<Rightarrow> byte list \<Rightarrow> memory" where
  "mem_with path c = \<lparr>mem_files = [path \<mapsto> c], mem_open = [0 \<mapsto> path], mem_synced = (\<lambda>_. []), mem_next = 1, mem_interrupts = 2\<rparr>"

lemma mem_with_views:
  "target mem_views (mem_with path c) 0 = Some path"
  "length c < 2 ^ 63 \<Longrightarrow> content mem_views (mem_with path c) path = Some c"
  by (simp_all add: mem_views_def mem_with_def mem_target_def mem_content_def)

end
