(* ===== verification/Journal_Recovery.thy ===== *)
theory Journal_Recovery
  imports Journal_Files Memory_Files
begin

text \<open>
  Opening, scanning and repairing journal files: a scan returns exactly the records of the file, a
  journal that ends in an incomplete record is repaired to the journal of its complete records, and
  a journal that has just been created has none.
\<close>

section \<open>The scan of a file\<close>

definition scan_start :: JournalScan where
  "scan_start = \<lparr>scan_records = [], scan_valid_size = 16, scan_has_truncated_tail = False,
     scan_next_sequence = Some (JournalSequence 1)\<rparr>"

definition scan_spec :: "byte list \<Rightarrow> JournalStorageError + JournalScan" where
  "scan_spec c =
     (if length c < 16 then Inl (make_error InvalidJournal None (Some TruncatedInput))
      else case decode_file_header (take 16 c) of
          Done (Inr header) \<Rightarrow> scan_outcome scan_start 1 (drop 16 c)
        | Done (Inl e) \<Rightarrow> Inl (make_error InvalidJournal None (Some e))
        | _ \<Rightarrow> Inl (make_error InvalidJournal None None))"

text \<open>The scan of the journal of \<open>cs\<close>, followed by an incomplete record or not.\<close>

definition scan_of :: "JournalCommand list \<Rightarrow> bool \<Rightarrow> JournalScan" where
  "scan_of cs torn = \<lparr>scan_records = numbered 1 cs, scan_valid_size = length (journal_image cs),
     scan_has_truncated_tail = torn, scan_next_sequence = Some (JournalSequence (of_nat (Suc (length cs))))\<rparr>"

lemma scanned_start: "scanned scan_start 1 cs torn = scan_of cs torn"
  by (simp add: scanned_def scan_start_def scan_of_def journal_image_def)

lemma file_header_total: "length bytes = 16 \<Longrightarrow> \<exists>r. decode_file_header bytes = Done r"
  by (simp add: decode_file_header_def ju16.read_word ju32.read_word)

lemma scan_spec_complete:
  assumes "length cs < 2 ^ 64 - 1" and "tail = [] \<or> decode_record_prefix tail = Done (Inl TruncatedInput)"
  shows "scan_spec (journal_image cs @ tail) = Inr (scan_of cs (tail \<noteq> []))"
proof -
  have "parse_journal (1 + length cs) tail = ([], if tail = [] then Complete else Torn, tail)"
    using assms(2) by (subst parse_journal.simps) auto
  with parse_journal_frames [of 1 cs tail] assms(1) have
    "parse_journal 1 (frames 1 cs @ tail) = (cs, if tail = [] then Complete else Torn, tail)" by simp
  then show ?thesis
    using scanned_start decode_own_header
    by (simp add: scan_spec_def journal_image_def scan_outcome_def)
qed

lemma scan_spec_sound:
  assumes "scan_spec c = Inr scan"
  obtains cs tail where "c = journal_image cs @ tail" "scan = scan_of cs (tail \<noteq> [])"
    "tail = [] \<or> decode_record_prefix tail = Done (Inl TruncatedInput)"
proof -
  from assms obtain h where len: "16 \<le> length c" and h: "decode_file_header (take 16 c) = Done (Inr h)"
    and out: "scan_outcome scan_start 1 (drop 16 c) = Inr scan"
    by (auto simp: scan_spec_def split: if_splits outcome.splits sum.splits)
  from h have head: "take 16 c = encode_file_header" by (simp add: file_header_iff)
  obtain cs stop tail where p: "parse_journal 1 (drop 16 c) = (cs, stop, tail)" by (rule prod_cases3)
  note sound = parse_journal_sound [OF p]
  have "c = journal_image cs @ tail"
    using sound append_take_drop_id [of 16 c] by (simp add: head journal_image_def)
  moreover have "scan = scan_of cs (tail \<noteq> [])" "tail = [] \<or> decode_record_prefix tail = Done (Inl TruncatedInput)"
    using out [unfolded scan_outcome_def p prod.case scanned_start] sound by (cases stop; simp)+
  ultimately show thesis by (rule that)
qed

lemma scan_descriptor_effect:
  assumes laws: "posix_laws os V" and opened: "target V s fd = Some path" "content V s path = Some c"
  obtains s' r where "scan_descriptor os fd s = Some (s', r)" "only_read V s s'"
    "(\<exists>e. r = Inl e \<and> jse_code e = ReadFailed) \<or> r = scan_spec c"
proof -
  have small: "length c < 2 ^ 63" using laws opened(2) by (auto simp: posix_laws_def size_law_def)
  obtain s1 r1 where f: "sys_fstat_size os fd s = (s1, r1)" by (cases "sys_fstat_size os fd s")
  have "fstat_law os V" using laws by (simp add: posix_laws_def)
  from this [unfolded fstat_law_def, rule_format, OF f opened] have
    l: "only_read V s s1" "\<And>n. r1 = Inr n \<Longrightarrow> n = int (length c)" by (auto simp: only_read_def)
  then have opened1: "target V s1 fd = Some path" "content V s1 path = Some c" using only_read_files [OF l(1)] opened by simp_all
  show thesis
  proof (cases r1)
    case (Inl e)
    then have "scan_descriptor os fd s = Some (s1, Inl (make_error ReadFailed (Some e) None))"
      by (simp add: scan_descriptor_def file_size_def f)
    with l(1) that show thesis by (auto simp: make_error_def)
  next
    case (Inr n)
    then have size: "file_size os fd s = (s1, Inr (length c))" using l(2) small by (simp add: file_size_def f)
    show thesis
    proof (cases "length c < 16")
      case True
      then have "scan_descriptor os fd s = Some (s1, scan_spec c)" by (simp add: scan_descriptor_def size scan_spec_def)
      from that [OF this l(1)] show thesis by simp
    next
      case False
      then have le: "0 + 16 \<le> length c" by simp
      obtain s2 r2 where p: "pread_at_most os fd 0 16 s1 = Some (s2, r2)" "only_read V s1 s2"
        "case r2 of Inl e \<Rightarrow> jse_code e = ReadFailed | Inr b \<Rightarrow> b = take 16 (drop 0 c)"
        by (rule pread_effect [OF laws opened1 le])
      have only: "only_read V s s2" by (rule only_read_trans [OF l(1) p(2)])
      show thesis
      proof (cases r2)
        case (Inl e)
        with p False have "scan_descriptor os fd s = Some (s2, Inl e)" by (simp add: scan_descriptor_def size)
        with p(3) Inl only that show thesis by auto
      next
        case (Inr b)
        with p(3) have b: "b = take 16 c" by simp
        then have blen: "length b = 16" using False by simp
        obtain h where h: "decode_file_header b = Done h" using file_header_total [OF blen] by blast
        show thesis
        proof (cases h)
          case (Inl e)
          with p Inr h blen False have "scan_descriptor os fd s = Some (s2, scan_spec c)"
            by (simp add: scan_descriptor_def size scan_spec_def flip: b)
          from that [OF this only] show thesis by simp
        next
          case (Inr header)
          have "scan_descriptor os fd s = scan_loop os fd (length c) scan_start (of_nat 1) s2"
            using p \<open>r2 = Inr b\<close> h Inr blen False by (simp add: scan_descriptor_def size scan_start_def)
          moreover have "scan_spec c = scan_outcome scan_start 1 (drop 16 c)"
            using h Inr False by (simp add: scan_spec_def flip: b)
          moreover have "target V s2 fd = Some path" "content V s2 path = Some c"
            using only_read_files [OF only] opened by simp_all
          from scan_loop_effect [OF laws this, of scan_start 1] False obtain s3 r3 where
            "scan_loop os fd (length c) scan_start (of_nat 1) s2 = Some (s3, r3)" "only_read V s2 s3"
            "(\<exists>e. r3 = Inl e \<and> jse_code e = ReadFailed) \<or> r3 = scan_outcome scan_start 1 (drop 16 c)"
            by (auto simp: scan_start_def)
          ultimately show thesis using that only_read_trans [OF only] by simp
        qed
      qed
    qed
  qed
qed

section \<open>Opening and closing\<close>

lemma open_existing:
  assumes laws: "posix_laws os V" and op: "sys_open os path mode s = (s1, r)" and mode: "mode = OpenRead \<or> mode = OpenAppend"
  shows "case r of Inl e \<Rightarrow> only_read V s s1
    | Inr fd \<Rightarrow> 0 \<le> fd \<and> target V s fd = None \<and> target V s1 = (target V s)(fd \<mapsto> path) \<and> content V s1 = content V s \<and>
        synced V s1 = synced V s \<and> interrupts V s1 \<le> interrupts V s \<and> (\<exists>c. content V s path = Some c)"
proof -
  have "open_law os V" using laws by (simp add: posix_laws_def)
  from this [unfolded open_law_def, rule_format, OF op] mode show ?thesis
    by (auto simp: only_read_def split: sum.splits)
qed

lemma close_views:
  assumes "posix_laws os V" "0 \<le> fd"
  shows "content V (close_descriptor os fd s) = content V s" "synced V (close_descriptor os fd s) = synced V s"
    "target V (close_descriptor os fd s) = (target V s)(fd := None)" "interrupts V (close_descriptor os fd s) \<le> interrupts V s"
  using assms by (simp_all add: posix_laws_def close_law_def close_descriptor_def)

text \<open>Opening a file, only reading from it and closing it again changes nothing.\<close>

lemma open_read_close:
  assumes laws: "posix_laws os V" and fd: "0 \<le> fd" "target V s fd = None"
    and o: "target V s1 = (target V s)(fd \<mapsto> path)" "content V s1 = content V s" "synced V s1 = synced V s"
      "interrupts V s1 \<le> interrupts V s"
    and r: "only_read V s1 s2"
  shows "only_read V s (close_descriptor os fd s2)"
proof -
  have "(target V s)(fd := None) = target V s" using fd(2) by auto
  then show ?thesis
    using close_views [OF laws fd(1), of s2] o r by (auto simp: only_read_def same_files_def)
qed

lemma journal_scan_effect:
  assumes laws: "posix_laws os V"
  obtains s' r where "journal_scan os path s = Some (s', r)" "only_read V s s'"
    "(\<exists>e. r = Inl e \<and> jse_code e \<in> {FileNotFound, OpenFailed, ReadFailed}) \<or>
     (\<exists>c. content V s path = Some c \<and> r = scan_spec c)"
proof -
  obtain s1 r1 where op: "sys_open os path OpenRead s = (s1, r1)" by (cases "sys_open os path OpenRead s")
  note o = open_existing [OF laws op]
  show thesis
  proof (cases r1)
    case (Inl e)
    then have "journal_scan os path s = Some (s1, Inl (open_error e))" by (simp add: journal_scan_def op)
    from that [OF this] o Inl show thesis by (simp add: open_error_def make_error_def)
  next
    case (Inr fd)
    with o obtain c where c: "content V s path = Some c" by auto
    have opened: "target V s1 fd = Some path" "content V s1 path = Some c" using o Inr c by auto
    obtain s2 r where sc: "scan_descriptor os fd s1 = Some (s2, r)" "only_read V s1 s2"
      "(\<exists>e. r = Inl e \<and> jse_code e = ReadFailed) \<or> r = scan_spec c"
      by (rule scan_descriptor_effect [OF laws opened])
    have "journal_scan os path s = Some (close_descriptor os fd s2, r)" by (simp add: journal_scan_def op Inr sc(1))
    moreover have "only_read V s (close_descriptor os fd s2)"
      using o Inr sc(2) by (intro open_read_close [OF laws, of fd s s1 path s2]) simp_all
    ultimately show thesis using that sc(3) c by auto
  qed
qed

text \<open>A writer that is ready to append record number \<open>k\<close> to \<open>path\<close>.\<close>

definition writer_at :: "'s file_views \<Rightarrow> 's \<Rightarrow> path \<Rightarrow> JournalWriter \<Rightarrow> nat \<Rightarrow> bool" where
  "writer_at V s path w k \<longleftrightarrow> 0 \<le> wr_descriptor w \<and> target V s (wr_descriptor w) = Some path \<and>
     \<not> wr_failed w \<and> wr_next_sequence w = next_number k"

lemma image_small:
  assumes "posix_laws os V" "content V s path = Some (journal_image cs @ tail)"
  shows "Suc (length cs) < 2 ^ 63"
proof -
  have "length (journal_image cs @ tail) < 2 ^ 63"
    using assms unfolding posix_laws_def size_law_def by blast
  then show ?thesis using length_frames [of cs 1] by (simp add: journal_image_def)
qed

lemma open_recovered_effect:
  assumes laws: "posix_laws os V"
  obtains
    (failed) s' e where "writer_open_recovered os path s = Some (s', Inl e)" "only_read V s s'"
      "jse_code e \<in> {FileNotFound, OpenFailed, ReadFailed} \<or> \<not> (\<exists>cs. content V s path = Some (journal_image cs))"
  | (opened) s' w cs where "writer_open_recovered os path s = Some (s', Inr w)"
      "content V s path = Some (journal_image cs)" "content V s' = content V s" "synced V s' = synced V s"
      "writer_at V s' path w (Suc (length cs))"
proof -
  obtain s1 r1 where op: "sys_open os path OpenAppend s = (s1, r1)" by (cases "sys_open os path OpenAppend s")
  note o = open_existing [OF laws op]
  show thesis
  proof (cases r1)
    case (Inl e)
    then have "writer_open_recovered os path s = Some (s1, Inl (open_error e))"
      by (simp add: writer_open_recovered_def open_existing_for_append_def op)
    with failed o Inl show thesis by (simp add: open_error_def make_error_def)
  next
    case (Inr fd)
    with o obtain c where c: "content V s path = Some c" by auto
    have at: "target V s1 fd = Some path" "content V s1 path = Some c" "0 \<le> fd" using o Inr c by auto
    obtain s2 r where sc: "scan_descriptor os fd s1 = Some (s2, r)" "only_read V s1 s2"
      "(\<exists>e. r = Inl e \<and> jse_code e = ReadFailed) \<or> r = scan_spec c"
      by (rule scan_descriptor_effect [OF laws at(1,2)])
    have closed: "only_read V s (close_descriptor os fd s2)"
      using o Inr sc(2) by (intro open_read_close [OF laws, of fd s s1 path s2]) simp_all
    show thesis
    proof (cases "\<exists>scan. r = Inr scan \<and> \<not> scan_has_truncated_tail scan")
      case False
      then obtain e where res: "writer_open_recovered os path s = Some (close_descriptor os fd s2, Inl e)" "r = Inl e \<or> (\<exists>x. r = Inr x)"
        by (cases r) (auto simp: writer_open_recovered_def open_existing_for_append_def op Inr sc(1))
      have "scan_spec c = Inr (scan_of cs False)" if "c = journal_image cs" for cs
        using scan_spec_complete [of cs "[]"] image_small [OF laws, of s path cs "[]"] c that by simp
      with False res(2) sc(3) have "jse_code e \<in> {FileNotFound, OpenFailed, ReadFailed} \<or> (\<forall>cs. c \<noteq> journal_image cs)"
        by (auto simp: scan_of_def)
      with failed [OF res(1) closed] c show thesis by auto
    next
      case True
      then obtain scan where scan: "r = Inr scan" "\<not> scan_has_truncated_tail scan" by blast
      with sc(3) have "scan_spec c = Inr scan" by auto
      then obtain cs tail where cs: "c = journal_image cs @ tail" "scan = scan_of cs (tail \<noteq> [])" by (rule scan_spec_sound)
      have small: "Suc (length cs) < 2 ^ 63" using image_small [OF laws] c cs(1) by simp
      have res: "writer_open_recovered os path s = Some (s2, Inr (new_writer fd (scan_next_sequence scan)))"
        using scan by (simp add: writer_open_recovered_def open_existing_for_append_def op Inr sc(1))
      have "writer_at V s2 path (new_writer fd (scan_next_sequence scan)) (Suc (length cs))"
        using at small cs(2) only_read_files [OF sc(2)]
        by (simp add: writer_at_def new_writer_def scan_of_def next_number_def)
      moreover have "tail = []" using scan(2) cs(2) by (simp add: scan_of_def)
      ultimately show thesis
        using opened [OF res] c cs(1) o Inr only_read_files [OF sc(2)] by simp
    qed
  qed
qed

text \<open>Cutting a file down to a prefix of it and syncing it.\<close>

lemma cut_effect:
  assumes laws: "posix_laws os V" and at: "target V s fd = Some path" "content V s path = Some (keep @ tail)"
  obtains
    (uncut) s1 e where "sys_ftruncate os fd (length keep) s = (s1, Some e)" "target V s1 = target V s"
      "content V s1 = content V s" "synced V s1 = synced V s"
  | (unsynced) s1 s2 e where "sys_ftruncate os fd (length keep) s = (s1, None)" "sys_fsync os fd s1 = (s2, Some e)"
      "target V s2 = target V s" "content V s2 = (content V s)(path \<mapsto> keep)"
      "synced V s2 = (synced V s)(path := take (length keep) (synced V s path))"
  | (cut) s1 s2 where "sys_ftruncate os fd (length keep) s = (s1, None)" "sys_fsync os fd s1 = (s2, None)"
      "target V s2 = target V s" "content V s2 = (content V s)(path \<mapsto> keep)" "synced V s2 path = keep"
proof -
  obtain s1 t where tr: "sys_ftruncate os fd (length keep) s = (s1, t)" by (cases "sys_ftruncate os fd (length keep) s")
  obtain s2 y where y: "sys_fsync os fd s1 = (s2, y)" by (cases "sys_fsync os fd s1")
  have "ftruncate_law os V" "fsync_law os V" using laws by (simp_all add: posix_laws_def)
  note tl = this(1) [unfolded ftruncate_law_def, rule_format, OF tr at] and fl = this(2) [unfolded fsync_law_def, rule_format, OF y]
  show thesis
  proof (cases t)
    case (Some e)
    then show thesis using uncut [of s1 e] tr tl by simp
  next
    case None
    note tr0 = tr [unfolded None]
    show thesis
    proof (cases y)
      case (Some e)
      then show thesis using unsynced [OF tr0, of s2 e] y tl None fl by simp
    next
      case synced: None
      then show thesis using cut [OF tr0, of s2] y tl None fl at(1) by simp
    qed
  qed
qed

lemma repair_effect:
  assumes laws: "posix_laws os V"
  obtains
    (failed) s' e where "writer_repair_and_open os path s = Some (s', Inl e)" "target V s' = target V s"
      "jse_code e \<in> {FileNotFound, OpenFailed, ReadFailed, TruncateFailed, SyncFailed} \<or>
       \<not> (\<exists>cs tail. content V s path = Some (journal_image cs @ tail) \<and> tail \<noteq> [] \<and> decode_record_prefix tail = Done (Inl TruncatedInput))"
      "content V s' = content V s \<and> synced V s' = synced V s \<or>
       (\<exists>cs tail. content V s path = Some (journal_image cs @ tail) \<and> tail \<noteq> [] \<and>
         decode_record_prefix tail = Done (Inl TruncatedInput) \<and> content V s' = (content V s)(path \<mapsto> journal_image cs) \<and>
         synced V s' = (synced V s)(path := take (length (journal_image cs)) (synced V s path)))"
  | (repaired) s' w cs tail where "writer_repair_and_open os path s = Some (s', Inr w)"
      "content V s path = Some (journal_image cs @ tail)" "tail \<noteq> []" "decode_record_prefix tail = Done (Inl TruncatedInput)"
      "content V s' = (content V s)(path \<mapsto> journal_image cs)" "synced V s' path = journal_image cs"
      "writer_at V s' path w (Suc (length cs))"
proof -
  obtain s1 r1 where op: "sys_open os path OpenAppend s = (s1, r1)" by (cases "sys_open os path OpenAppend s")
  note o = open_existing [OF laws op]
  note unfold = writer_repair_and_open_def [of os path s] open_existing_for_append_def [of os path s]
  show thesis
  proof (cases r1)
    case (Inl e)
    then have "writer_repair_and_open os path s = Some (s1, Inl (open_error e))" by (simp add: unfold op)
    with failed o Inl show thesis by (simp add: only_read_def same_files_def open_error_def make_error_def)
  next
    case (Inr fd)
    with o obtain c where c: "content V s path = Some c" by auto
    have at: "target V s1 fd = Some path" "content V s1 path = Some c" "0 \<le> fd" using o Inr c by auto
    obtain s2 r where sc: "scan_descriptor os fd s1 = Some (s2, r)" "only_read V s1 s2"
      "(\<exists>e. r = Inl e \<and> jse_code e = ReadFailed) \<or> r = scan_spec c"
      by (rule scan_descriptor_effect [OF laws at(1,2)])
    have closed: "only_read V s (close_descriptor os fd s2)"
      using o Inr sc(2) by (intro open_read_close [OF laws, of fd s s1 path s2]) simp_all
    note r2 = only_read_files [OF sc(2)]
    have restored: "target V (close_descriptor os fd s') = target V s" if "target V s' = target V s2" for s'
      using close_views [OF laws at(3), of s'] that r2 o Inr by (auto simp: fun_upd_idem)
    show thesis
    proof (cases "\<exists>scan. r = Inr scan \<and> scan_has_truncated_tail scan")
      case False
      then obtain e where res: "writer_repair_and_open os path s = Some (close_descriptor os fd s2, Inl e)" "r = Inl e \<or> (\<exists>x. r = Inr x)"
        by (cases r) (auto simp: unfold op Inr sc(1))
      have "scan_spec c = Inr (scan_of cs True)"
        if "c = journal_image cs @ tail" "tail \<noteq> []" "decode_record_prefix tail = Done (Inl TruncatedInput)" for cs tail
        using scan_spec_complete [of cs tail] image_small [OF laws, of s path cs tail] c that by simp
      with False res(2) sc(3) have "jse_code e \<in> {FileNotFound, OpenFailed, ReadFailed, TruncateFailed, SyncFailed} \<or>
          \<not> (\<exists>cs tail. c = journal_image cs @ tail \<and> tail \<noteq> [] \<and> decode_record_prefix tail = Done (Inl TruncatedInput))"
        by (auto simp: scan_of_def)
      with failed [OF res(1)] closed c show thesis by (auto simp: only_read_def same_files_def)
    next
      case True
      then obtain scan where scan: "r = Inr scan" "scan_has_truncated_tail scan" by blast
      with sc(3) have "scan_spec c = Inr scan" by auto
      then obtain cs tail where cs: "c = journal_image cs @ tail" "scan = scan_of cs (tail \<noteq> [])"
        "tail = [] \<or> decode_record_prefix tail = Done (Inl TruncatedInput)" by (rule scan_spec_sound)
      have tail: "tail \<noteq> []" "decode_record_prefix tail = Done (Inl TruncatedInput)"
        using scan(2) cs by (auto simp: scan_of_def)
      have size: "scan_valid_size scan = length (journal_image cs)" using cs(2) by (simp add: scan_of_def)
      have small: "Suc (length cs) < 2 ^ 63" "length c < 2 ^ 63"
        using image_small [OF laws] laws c cs(1) unfolding posix_laws_def size_law_def by blast+
      have le: "\<not> scan_valid_size scan > 9223372036854775807" using small(2) cs(1) size by simp
      have at2: "target V s2 fd = Some path" "content V s2 path = Some (journal_image cs @ tail)" using at r2 cs(1) by simp_all
      note views = close_views(1,2) [OF laws at(3)] and run = unfold op Inr sc(1) size scan(1)
      show thesis
      proof (rule cut_effect [OF laws at2], goal_cases)
        case (1 s3 e)
        then have "writer_repair_and_open os path s =
            Some (close_descriptor os fd s3, Inl (make_error TruncateFailed (Some e) None))"
          using scan le by (simp add: run)
        with failed restored [OF 1(2)] views [of s3] 1(3,4) r2 o Inr show thesis by (simp add: make_error_def)
      next
        case (2 s3 s4 e)
        then have res: "writer_repair_and_open os path s =
            Some (close_descriptor os fd s4, Inl (make_error SyncFailed (Some e) None))"
          using scan le by (simp add: run)
        have "content V (close_descriptor os fd s4) = (content V s)(path \<mapsto> journal_image cs)"
          "synced V (close_descriptor os fd s4) = (synced V s)(path := take (length (journal_image cs)) (synced V s path))"
          using views [of s4] 2(4,5) r2 o Inr by simp_all
        then show thesis using failed [OF res] restored [OF 2(3)] c cs(1) tail by (auto simp: make_error_def)
      next
        case (3 s3 s4)
        then have res: "writer_repair_and_open os path s = Some (s4, Inr (new_writer fd (scan_next_sequence scan)))"
          using scan le by (simp add: run)
        have "writer_at V s4 path (new_writer fd (scan_next_sequence scan)) (Suc (length cs))"
          using 3(3) at2(1) at(3) small cs(2) by (simp add: writer_at_def new_writer_def scan_of_def next_number_def)
        then show thesis using repaired [OF res] c cs(1) tail 3(4,5) r2 o Inr by simp
      qed
    qed
  qed
qed

lemma sync_directory_effect:
  assumes laws: "posix_laws os V" and sd: "sync_directory os path s = (s', r)"
  shows "only_read V s s'"
proof -
  let ?p = "if parent_path path \<noteq> [] then parent_path path else ''.''"
  obtain s1 r1 where op: "sys_open os ?p OpenDirectory s = (s1, r1)" by (cases "sys_open os ?p OpenDirectory s")
  have "open_law os V" "fsync_law os V" using laws by (simp_all add: posix_laws_def)
  note ol = this(1) [unfolded open_law_def, rule_format, OF op] and fl = this(2) [unfolded fsync_law_def, rule_format]
  show ?thesis
  proof (cases r1)
    case (Inl e)
    with sd op have "s' = s1" by (simp add: sync_directory_def Let_def)
    with ol Inl show ?thesis by (simp add: only_read_def)
  next
    case (Inr fd)
    obtain s2 y where y: "sys_fsync os fd s1 = (s2, y)" by (cases "sys_fsync os fd s1")
    have s': "s' = close_descriptor os fd s2"
      using sd op Inr y by (cases y) (simp_all add: sync_directory_def Let_def)
    have o: "0 \<le> fd" "target V s fd = None" "target V s1 = (target V s)(fd \<mapsto> ?p)" "content V s1 = content V s"
      "synced V s1 = synced V s" "interrupts V s1 \<le> interrupts V s" and dir: "content V s ?p = None" using ol Inr by simp_all
    have "only_read V s1 s2" using fl [OF y] o dir by (auto simp: only_read_def same_files_def split: option.split)
    with open_read_close [OF laws o] s' show ?thesis by simp
  qed
qed

lemma create_effect:
  assumes laws: "posix_laws os V"
  obtains
    (failed) s' e where "writer_create os path s = Some (s', Inl e)" "target V s' = target V s"
      "content V s' = content V s \<or>
       content V s path = None \<and> (\<exists>d. d = take (length d) encode_file_header \<and> content V s' = (content V s)(path \<mapsto> d))"
  | (created) s' w where "writer_create os path s = Some (s', Inr w)" "content V s path = None"
      "content V s' = (content V s)(path \<mapsto> journal_image [])" "synced V s' path = journal_image []"
      "writer_at V s' path w 1"
proof -
  obtain s1 r1 where op: "sys_open os path OpenCreate s = (s1, r1)" by (cases "sys_open os path OpenCreate s")
  have "open_law os V" "fsync_law os V" using laws by (simp_all add: posix_laws_def)
  note ol = this(1) [unfolded open_law_def, rule_format, OF op] and fl = this(2) [unfolded fsync_law_def, rule_format]
  show thesis
  proof (cases r1)
    case (Inl e)
    then have "\<exists>e'. writer_create os path s = Some (s1, Inl e')" by (simp add: writer_create_def op)
    with failed ol Inl show thesis by (auto simp: same_files_def)
  next
    case (Inr fd)
    have o: "0 \<le> fd" "target V s fd = None" "target V s1 = (target V s)(fd \<mapsto> path)" "content V s path = None"
      "content V s1 = (content V s)(path \<mapsto> [])" using ol Inr by simp_all
    then have at: "target V s1 fd = Some path" "content V s1 path = Some []" by simp_all
    from write_all_effect [OF laws at le0, of encode_file_header, unfolded drop_0] obtain s2 r2 d where
      w: "write_all os fd encode_file_header 0 s1 = Some (s2, r2)" "appended V s1 s2 path d"
        "case r2 of None \<Rightarrow> d = encode_file_header
         | Some e \<Rightarrow> jse_code e = WriteFailed \<and> d = take (length d) encode_file_header"
      by (elim exE conjE) (rule that)
    have v2: "target V s2 = (target V s)(fd \<mapsto> path)" "content V s2 = (content V s)(path \<mapsto> d)"
      using w(2) o by (auto simp: appended_def)
    have d: "d = take (length d) encode_file_header" using w(3) by (cases r2) simp_all
    have fail: thesis if "writer_create os path s = Some (close_descriptor os fd s', Inl e)"
      "target V s' = target V s2" "content V s' = content V s2" for s' e
    proof (rule failed [OF that(1)])
      show "target V (close_descriptor os fd s') = target V s"
        using close_views(3) [OF laws o(1), of s'] that(2) v2(1) o(2) by (auto simp: fun_upd_idem)
      show "content V (close_descriptor os fd s') = content V s \<or> content V s path = None \<and>
          (\<exists>d. d = take (length d) encode_file_header \<and> content V (close_descriptor os fd s') = (content V s)(path \<mapsto> d))"
        using close_views(1) [OF laws o(1), of s'] that(3) v2(2) o(4) d by auto
    qed
    show thesis
    proof (cases r2)
      case (Some e)
      then have "writer_create os path s = Some (close_descriptor os fd s2, Inl e)"
        by (simp add: writer_create_def op Inr w(1))
      then show thesis by (rule fail) (rule refl)+
    next
      case None
      obtain s3 y where y: "sys_fsync os fd s2 = (s3, y)" by (cases "sys_fsync os fd s2")
      show thesis
      proof (cases y)
        case (Some e)
        then have "writer_create os path s = Some (close_descriptor os fd s3, Inl (make_error SyncFailed (Some e) None))"
          using None by (simp add: writer_create_def op Inr w(1) y)
        then show thesis by (rule fail) (use fl [OF y] in simp_all)
      next
        case synced: None
        obtain s4 z where z: "sync_directory os path s3 = (s4, z)" by (cases "sync_directory os path s3")
        note v4 = only_read_files [OF sync_directory_effect [OF laws z]]
        show thesis
        proof (cases z)
          case (Some e)
          then have "writer_create os path s = Some (close_descriptor os fd s4, Inl e)"
            using None synced by (simp add: writer_create_def op Inr w(1) y z)
          then show thesis by (rule fail) (use fl [OF y] v4 in simp_all)
        next
          case (None)
          have res: "writer_create os path s = Some (s4, Inr (new_writer fd (Some (JournalSequence 1))))"
            using \<open>r2 = None\<close> synced None by (simp add: writer_create_def op Inr w(1) y z)
          have img: "d = journal_image []" using w(3) \<open>r2 = None\<close> by (simp add: journal_image_def)
          show thesis
          proof (rule created [OF res o(4)])
            show "content V s4 = (content V s)(path \<mapsto> journal_image [])" using v4 fl [OF y] v2 img by simp
            show "synced V s4 path = journal_image []" using v4 fl [OF y] v2 img synced by simp
            show "writer_at V s4 path (new_writer fd (Some (JournalSequence 1))) 1"
              using v4 fl [OF y] v2 o(1) by (simp add: writer_at_def new_writer_def next_number_def)
          qed
        qed
      qed
    qed
  qed
qed

section \<open>Properties\<close>



text \<open>
  C36. Scanning a file. A scan returns and leaves every file as it is. When it succeeds, the file is
  the journal of the commands it returns, followed by nothing or by an incomplete record, which it
  reports. When it fails although opening and reading did not, the file is no such journal.
\<close>

theorem scan_reads_journal:
  assumes "posix_laws os V"
  shows "\<exists>s' r. journal_scan os path s = Some (s', r) \<and> content V s' = content V s \<and> target V s' = target V s \<and>
    (case r of
       Inr scan \<Rightarrow> \<exists>cs tail. content V s path = Some (journal_image cs @ tail) \<and> scan = scan_of cs (tail \<noteq> []) \<and>
         (tail = [] \<or> decode_record_prefix tail = Done (Inl TruncatedInput))
     | Inl e \<Rightarrow> jse_code e \<in> {FileNotFound, OpenFailed, ReadFailed} \<or>
         \<not> (\<exists>cs tail. content V s path = Some (journal_image cs @ tail) \<and>
              (tail = [] \<or> decode_record_prefix tail = Done (Inl TruncatedInput))))"
proof -
  obtain s' r where r: "journal_scan os path s = Some (s', r)" "only_read V s s'"
    "(\<exists>e. r = Inl e \<and> jse_code e \<in> {FileNotFound, OpenFailed, ReadFailed}) \<or>
     (\<exists>c. content V s path = Some c \<and> r = scan_spec c)"
    by (rule journal_scan_effect [OF assms])
  show ?thesis
  proof (cases "\<exists>e. r = Inl e \<and> jse_code e \<in> {FileNotFound, OpenFailed, ReadFailed}")
    case True
    with r only_read_files [OF r(2)] show ?thesis by auto
  next
    case False
    then obtain c where c: "content V s path = Some c" "r = scan_spec c" using r(3) by blast
    show ?thesis
    proof (cases r)
      case (Inr scan)
      then obtain cs tail where "c = journal_image cs @ tail" "scan = scan_of cs (tail \<noteq> [])"
        "tail = [] \<or> decode_record_prefix tail = Done (Inl TruncatedInput)"
        using c(2) scan_spec_sound by metis
      with r(1) Inr c(1) only_read_files [OF r(2)] show ?thesis by auto
    next
      case (Inl e)
      have "False" if "c = journal_image cs @ tail" "tail = [] \<or> decode_record_prefix tail = Done (Inl TruncatedInput)" for cs tail
      proof -
        have "Suc (length cs) < 2 ^ 63" using image_small [OF assms] c(1) that(1) by simp
        then have "scan_spec c = Inr (scan_of cs (tail \<noteq> []))" using scan_spec_complete [of cs tail] that by simp
        with c(2) Inl show False by simp
      qed
      with r(1) Inl c(1) only_read_files [OF r(2)] show ?thesis by auto
    qed
  qed
qed

theorem scan_reads_journal_witness:
  "\<exists>s' r. journal_scan mem_os ''j'' (mem_with ''j'' (journal_image [sample_command])) = Some (s', r)"
  using scan_reads_journal [OF mem_posix_laws, of "''j''" "mem_with ''j'' (journal_image [sample_command])"] by auto

text \<open>
  C37. Repairing a journal. \<open>repair_truncated_tail_and_open\<close> returns, and if it changes the file at all
  then the file ended in an incomplete record, and exactly that record has been cut off: every
  complete record stays. The writer it returns continues with the next number.
\<close>

theorem repair_keeps_records:
  assumes "posix_laws os V"
  shows "\<exists>s' r. writer_repair_and_open os path s = Some (s', r) \<and>
    (content V s' = content V s \<or>
     (\<exists>cs tail. content V s path = Some (journal_image cs @ tail) \<and> tail \<noteq> [] \<and>
        decode_record_prefix tail = Done (Inl TruncatedInput) \<and>
        content V s' = (content V s)(path \<mapsto> journal_image cs))) \<and>
    (case r of
       Inl e \<Rightarrow> target V s' = target V s
     | Inr w \<Rightarrow> \<exists>cs. content V s' path = Some (journal_image cs) \<and> synced V s' path = journal_image cs \<and>
         writer_at V s' path w (Suc (length cs)))"
  by (cases rule: repair_effect [OF assms, of path s]) auto

theorem repair_keeps_records_witness:
  "\<exists>s' r. writer_repair_and_open mem_os ''j'' (mem_with ''j'' (journal_image [] @ [0x4D])) = Some (s', r)"
  using repair_keeps_records [OF mem_posix_laws, of "''j''" "mem_with ''j'' (journal_image [] @ [0x4D])"] by auto

end
