(* ===== verification/Journal_Faults.thy ===== *)
theory Journal_Faults
  imports Journal_Recovery
begin

text \<open>
  The fault injection of \<^verbatim>\<open>src/journal_storage.cpp\<close>, with which the tests make an append fail after a number
  of bytes or at its sync: the append path with the injection in place, and the functions of
  \<open>JournalStorageTestAccess\<close> that set it. A journal with injected faults is shown to be the journal on a
  system that fails that way, and that system keeps the laws of files, so that everything proved of
  appending holds of it as well.
\<close>

section \<open>The test state\<close>

text \<open>\<open>AppendIoTestState\<close> and the flag \<open>append_io_test_active\<close>.\<close>

record AppendIoTestState =
  io_active :: bool
  io_fail_after_successful_bytes :: "nat option"
  io_fail_next_sync :: bool
  io_successful_append_sync_count :: nat
  io_successful_append_bytes :: nat

definition initial_append_io :: AppendIoTestState where
  "initial_append_io =
     \<lparr>io_active = False, io_fail_after_successful_bytes = None, io_fail_next_sync = False,
      io_successful_append_sync_count = 0, io_successful_append_bytes = 0\<rparr>"

definition reset_append_io :: "AppendIoTestState \<Rightarrow> AppendIoTestState" where
  "reset_append_io t =
     t\<lparr>io_fail_after_successful_bytes := None, io_fail_next_sync := False, io_successful_append_sync_count := 0,
       io_successful_append_bytes := 0, io_active := True\<rparr>"

definition fail_append_write_after :: "nat \<Rightarrow> AppendIoTestState \<Rightarrow> AppendIoTestState" where
  "fail_append_write_after successful_bytes t =
     t\<lparr>io_fail_after_successful_bytes := Some successful_bytes, io_successful_append_bytes := 0, io_active := True\<rparr>"

definition fail_next_append_sync :: "AppendIoTestState \<Rightarrow> AppendIoTestState" where
  "fail_next_append_sync t = t\<lparr>io_fail_next_sync := True, io_active := True\<rparr>"

definition successful_append_sync_count :: "AppendIoTestState \<Rightarrow> nat" where
  "successful_append_sync_count t = io_successful_append_sync_count t"

section \<open>The append path with the injection\<close>

definition append_write_size_before_failure :: "nat \<Rightarrow> AppendIoTestState \<Rightarrow> nat option" where
  "append_write_size_before_failure requested_size t =
     (case io_fail_after_successful_bytes t of
        None \<Rightarrow> Some requested_size
      | Some limit \<Rightarrow>
          if io_successful_append_bytes t \<ge> limit then None
          else Some (min requested_size (limit - io_successful_append_bytes t)))"

definition record_successful_append_write :: "nat \<Rightarrow> AppendIoTestState \<Rightarrow> AppendIoTestState" where
  "record_successful_append_write byte_count t = t\<lparr>io_successful_append_bytes := io_successful_append_bytes t + byte_count\<rparr>"

definition append_path_sync ::
  "'s posix \<Rightarrow> int \<Rightarrow> 's \<times> AppendIoTestState \<Rightarrow> ('s \<times> AppendIoTestState) \<times> JournalStorageError option" where
  "append_path_sync os descriptor st =
     (case st of (s, t) \<Rightarrow>
        if io_fail_next_sync t then ((s, t\<lparr>io_fail_next_sync := False\<rparr>), Some (make_error SyncFailed (Some EIO) None))
        else case sys_fsync os descriptor s of
            (s, Some error) \<Rightarrow> ((s, t), Some (make_error SyncFailed (Some error) None))
          | (s, None) \<Rightarrow> ((s, t\<lparr>io_successful_append_sync_count := io_successful_append_sync_count t + 1\<rparr>), None))"

text \<open>\<open>write_all\<close> with \<open>append_path\<close> set.\<close>

partial_function (option) write_all_append ::
  "'s posix \<Rightarrow> int \<Rightarrow> byte list \<Rightarrow> nat \<Rightarrow> 's \<times> AppendIoTestState \<Rightarrow>
   (('s \<times> AppendIoTestState) \<times> JournalStorageError option) option" where
  "write_all_append os descriptor bytes written st =
     (if written < length bytes
      then case st of (s, t) \<Rightarrow>
        (case (if io_active t then append_write_size_before_failure (length bytes - written) t else Some (length bytes - written)) of
           None \<Rightarrow> Some ((s, t), Some (make_error WriteFailed (Some EIO) None))
         | Some write_size \<Rightarrow>
             (case sys_write os descriptor (take write_size (drop written bytes)) s of
                (s, Inr result) \<Rightarrow>
                  if result > 0
                  then write_all_append os descriptor bytes (written + result)
                         (s, if io_active t then record_successful_append_write result t else t)
                  else Some ((s, t), Some (make_error WriteFailed (Some EIO) None))
              | (s, Inl error) \<Rightarrow>
                  if error = EINTR then write_all_append os descriptor bytes written (s, t)
                  else Some ((s, t), Some (make_error WriteFailed (Some error) None))))
      else Some (st, None))"

fun write_frames_append ::
  "'s posix \<Rightarrow> int \<Rightarrow> byte list list \<Rightarrow> 's \<times> AppendIoTestState \<Rightarrow>
   (('s \<times> AppendIoTestState) \<times> JournalStorageError option) option" where
  "write_frames_append os descriptor [] st = Some (st, None)"
| "write_frames_append os descriptor (encoded # others) st =
     Option.bind (write_all_append os descriptor encoded 0 st) (\<lambda>(st, write_error).
     case write_error of
       Some error \<Rightarrow> Some (st, Some error)
     | None \<Rightarrow> write_frames_append os descriptor others st)"

definition append_sync ::
  "'s posix \<Rightarrow> int \<Rightarrow> 's \<times> AppendIoTestState \<Rightarrow> ('s \<times> AppendIoTestState) \<times> JournalStorageError option" where
  "append_sync os descriptor st =
     (case st of (s, t) \<Rightarrow>
        if io_active t then append_path_sync os descriptor (s, t)
        else case sys_fsync os descriptor s of
            (s, Some error) \<Rightarrow> ((s, t), Some (make_error SyncFailed (Some error) None))
          | (s, None) \<Rightarrow> ((s, t), None))"

text \<open>\<open>append_batch_and_sync\<close> with the injection.\<close>

definition append_batch_injected ::
  "'s posix \<Rightarrow> bool \<Rightarrow> JournalWriter \<Rightarrow> JournalCommand list \<Rightarrow> 's \<times> AppendIoTestState \<Rightarrow>
   (('s \<times> AppendIoTestState) \<times> JournalWriter \<times> (JournalStorageError + JournalSequence list)) option" where
  "append_batch_injected os out_of_memory w commands st =
     (if wr_failed w then Some (st, w, Inl (make_error WriterFailed None None))
      else if commands = [] then Some (st, w, Inl (make_error EmptyBatch None None))
      else case wr_next_sequence w of
        None \<Rightarrow> Some (st, w, Inl (make_error JournalSequenceExhausted None None))
      | Some next_sequence \<Rightarrow>
          (let first_sequence = sequence_value next_sequence;
               available = u64_max - first_sequence + 1
           in if length commands > unat available
              then Some (st, w, Inl (make_error JournalSequenceExhausted None None))
              else if out_of_memory then Some (st, w, Inl (make_error CodecFailure None None))
              else Option.bind (prepare_frames first_sequence 0 commands 0 [] []) (\<lambda>prepared.
                case prepared of
                  Inl error \<Rightarrow> Some (st, w, Inl error)
                | Inr (encoded_frames, assigned_sequences) \<Rightarrow>
                    Option.bind (write_frames_append os (wr_descriptor w) encoded_frames st) (\<lambda>(st, write_error).
                    case write_error of
                      Some error \<Rightarrow> Some (st, w\<lparr>wr_failed := True\<rparr>, Inl error)
                    | None \<Rightarrow>
                        (case append_sync os (wr_descriptor w) st of
                           (st, Some error) \<Rightarrow> Some (st, w\<lparr>wr_failed := True\<rparr>, Inl error)
                         | (st, None) \<Rightarrow>
                             Some (st, w\<lparr>wr_next_sequence :=
                                        (if length commands = unat available then None
                                         else Some (JournalSequence (first_sequence + of_nat (length commands))))\<rparr>,
                                   Inr assigned_sequences))))))"

section \<open>The two halves of an append\<close>

text \<open>
  What both versions of the append do before they write: the error, or the frames, their numbers and the next number.
\<close>

definition batch_plan ::
  "bool \<Rightarrow> JournalWriter \<Rightarrow> JournalCommand list \<Rightarrow>
   (JournalStorageError + byte list list \<times> JournalSequence list \<times> JournalSequence option) option" where
  "batch_plan out_of_memory w commands =
     (if wr_failed w then Some (Inl (make_error WriterFailed None None))
      else if commands = [] then Some (Inl (make_error EmptyBatch None None))
      else case wr_next_sequence w of
        None \<Rightarrow> Some (Inl (make_error JournalSequenceExhausted None None))
      | Some next_sequence \<Rightarrow>
          (let first_sequence = sequence_value next_sequence;
               available = u64_max - first_sequence + 1
           in if length commands > unat available then Some (Inl (make_error JournalSequenceExhausted None None))
              else if out_of_memory then Some (Inl (make_error CodecFailure None None))
              else map_option (map_sum id (\<lambda>(fs, sequences).
                     (fs, sequences, if length commands = unat available then None
                                     else Some (JournalSequence (first_sequence + of_nat (length commands))))))
                     (prepare_frames first_sequence 0 commands 0 [] [])))"

lemma append_plain_plan:
  "append_batch_and_sync os oom w cs s =
     (case batch_plan oom w cs of
        None \<Rightarrow> None
      | Some (Inl e) \<Rightarrow> Some (s, w, Inl e)
      | Some (Inr (fs, sequences, following)) \<Rightarrow>
          Option.bind (write_frames os (wr_descriptor w) fs s) (\<lambda>(s, write_error).
          case write_error of
            Some error \<Rightarrow> Some (s, w\<lparr>wr_failed := True\<rparr>, Inl error)
          | None \<Rightarrow>
              (case sys_fsync os (wr_descriptor w) s of
                 (s, Some error) \<Rightarrow> Some (s, w\<lparr>wr_failed := True\<rparr>, Inl (make_error SyncFailed (Some error) None))
               | (s, None) \<Rightarrow> Some (s, w\<lparr>wr_next_sequence := following\<rparr>, Inr sequences))))"
  by (auto simp: append_batch_and_sync_def batch_plan_def Let_def split: option.split sum.split prod.split)

lemma append_injected_plan:
  "append_batch_injected os oom w cs st =
     (case batch_plan oom w cs of
        None \<Rightarrow> None
      | Some (Inl e) \<Rightarrow> Some (st, w, Inl e)
      | Some (Inr (fs, sequences, following)) \<Rightarrow>
          Option.bind (write_frames_append os (wr_descriptor w) fs st) (\<lambda>(st, write_error).
          case write_error of
            Some error \<Rightarrow> Some (st, w\<lparr>wr_failed := True\<rparr>, Inl error)
          | None \<Rightarrow>
              (case append_sync os (wr_descriptor w) st of
                 (st, Some error) \<Rightarrow> Some (st, w\<lparr>wr_failed := True\<rparr>, Inl error)
               | (st, None) \<Rightarrow> Some (st, w\<lparr>wr_next_sequence := following\<rparr>, Inr sequences))))"
  by (auto simp: append_batch_injected_def batch_plan_def Let_def split: option.split sum.split prod.split)

text \<open>An append that returns: it was refused, not written completely, or came to its sync.\<close>

lemma append_plain_cases:
  assumes "append_batch_and_sync os oom w cs s = Some (s', w', r)"
  obtains (refused) e where "batch_plan oom w cs = Some (Inl e)" "s' = s" "w' = w" "r = Inl e"
  | (not_written) fs sequences following e where "batch_plan oom w cs = Some (Inr (fs, sequences, following))"
      "write_frames os (wr_descriptor w) fs s = Some (s', Some e)" "w' = w\<lparr>wr_failed := True\<rparr>" "r = Inl e"
  | (written) fs sequences following s1 x where "batch_plan oom w cs = Some (Inr (fs, sequences, following))"
      "write_frames os (wr_descriptor w) fs s = Some (s1, None)" "sys_fsync os (wr_descriptor w) s1 = (s', x)"
      "(w', r) = (case x of Some error \<Rightarrow> (w\<lparr>wr_failed := True\<rparr>, Inl (make_error SyncFailed (Some error) None))
         | None \<Rightarrow> (w\<lparr>wr_next_sequence := following\<rparr>, Inr sequences))"
proof (cases "batch_plan oom w cs")
  case (Some p)
  show thesis
  proof (cases p)
    case (Inr q)
    then obtain fs sequences following where p: "p = Inr (fs, sequences, following)" by (cases q) auto
    with assms Some obtain s1 e where w: "write_frames os (wr_descriptor w) fs s = Some (s1, e)"
      by (cases "write_frames os (wr_descriptor w) fs s") (auto simp: append_plain_plan)
    obtain s2 x where "sys_fsync os (wr_descriptor w) s1 = (s2, x)" by (cases "sys_fsync os (wr_descriptor w) s1")
    with assms Some p w not_written [of fs] written [of fs sequences following s1 x] show thesis by (cases e; cases x) (auto simp: append_plain_plan)
  next
    case (Inl e)
    with assms Some have "s' = s" "w' = w" "r = Inl e" by (simp_all add: append_plain_plan)
    with Some Inl show thesis by (simp add: refused)
  qed
qed (use assms in \<open>simp add: append_plain_plan\<close>)

section \<open>Without injection\<close>

text \<open>While the injection is inactive, the append path is the one of \<open>Journal_Storage\<close>.\<close>

lemma write_all_inactive:
  fixes os :: "'s posix"
  assumes "write_all os fd bytes written s = Some y" "\<not> io_active t"
  shows "write_all_append os fd bytes written (s, t) = Some ((fst y, t), snd y)"
proof -
  let ?P = "\<lambda>(os :: 's posix) fd bytes written s (y :: 's \<times> JournalStorageError option).
    write_all_append os fd bytes written (s, t) = Some ((fst y, t), snd y)"
  show ?thesis
  proof (rule write_all.raw_induct [where P = ?P, OF _ assms(1)])
    fix write_all :: "'s posix \<Rightarrow> int \<Rightarrow> byte list \<Rightarrow> nat \<Rightarrow> 's \<Rightarrow> ('s \<times> JournalStorageError option) option" and os fd bytes written s y
    assume IH: "\<And>os fd bytes written s y. write_all os fd bytes written s = Some y \<Longrightarrow> ?P os fd bytes written s y"
    assume body: "(if written < length bytes
      then case sys_write os fd (drop written bytes) s of
          (s, Inr result) \<Rightarrow>
            if result > 0 then write_all os fd bytes (written + result) s
            else Some (s, Some (make_error WriteFailed (Some EIO) None))
        | (s, Inl error) \<Rightarrow>
            if error = EINTR then write_all os fd bytes written s
            else Some (s, Some (make_error WriteFailed (Some error) None))
      else Some (s, None)) = Some y"
    obtain s1 r1 where "sys_write os fd (drop written bytes) s = (s1, r1)" by (cases "sys_write os fd (drop written bytes) s")
    with body IH assms(2) show "?P os fd bytes written s y"
      by (subst write_all_append.simps) (auto split: sum.splits if_splits)
  qed
qed

lemma write_frames_inactive:
  "write_frames os fd fs s = Some y \<Longrightarrow> \<not> io_active t \<Longrightarrow> write_frames_append os fd fs (s, t) = Some ((fst y, t), snd y)"
proof (induction fs arbitrary: s)
  case (Cons f fs)
  then obtain s1 e where w: "write_all os fd f 0 s = Some (s1, e)" by (cases "write_all os fd f 0 s") auto
  from Cons write_all_inactive [OF w Cons.prems(2)] w show ?case by (cases e) auto
qed auto

lemma append_inactive:
  assumes a: "append_batch_and_sync os oom w cs s = Some (s', w', r)" and t: "\<not> io_active t"
  shows "append_batch_injected os oom w cs (s, t) = Some ((s', t), w', r)"
  using a
proof (cases rule: append_plain_cases)
  case (not_written fs sequences following e)
  with write_frames_inactive [OF not_written(2) t] show ?thesis by (simp add: append_injected_plan)
next
  case (written fs sequences following s1 x)
  with write_frames_inactive [OF written(2) t] t show ?thesis by (cases x) (simp_all add: append_injected_plan append_sync_def)
qed (simp add: append_injected_plan)

section \<open>The failing system\<close>

text \<open>The injection seen as a system: its writes are cut short or fail, its syncs may fail once.\<close>

definition injected_write :: "'s posix \<Rightarrow> int \<Rightarrow> byte list \<Rightarrow> 's \<times> AppendIoTestState \<Rightarrow> ('s \<times> AppendIoTestState) \<times> (errno + nat)" where
  "injected_write os descriptor bytes st =
     (case st of (s, t) \<Rightarrow>
        (case (if io_active t then append_write_size_before_failure (length bytes) t else Some (length bytes)) of
           None \<Rightarrow> ((s, t), Inl EIO)
         | Some write_size \<Rightarrow>
             (case sys_write os descriptor (take write_size bytes) s of
                (s, Inl error) \<Rightarrow> ((s, t), Inl error)
              | (s, Inr result) \<Rightarrow> ((s, if io_active t \<and> result > 0 then record_successful_append_write result t else t), Inr result))))"

definition injected_fsync :: "'s posix \<Rightarrow> int \<Rightarrow> 's \<times> AppendIoTestState \<Rightarrow> ('s \<times> AppendIoTestState) \<times> errno option" where
  "injected_fsync os descriptor st =
     (case st of (s, t) \<Rightarrow>
        if io_active t \<and> io_fail_next_sync t then ((s, t\<lparr>io_fail_next_sync := False\<rparr>), Some EIO)
        else case sys_fsync os descriptor s of
            (s, Some error) \<Rightarrow> ((s, t), Some error)
          | (s, None) \<Rightarrow> ((s, if io_active t then t\<lparr>io_successful_append_sync_count := io_successful_append_sync_count t + 1\<rparr> else t), None))"

definition beside :: "('s \<Rightarrow> 's \<times> 'r) \<Rightarrow> 's \<times> AppendIoTestState \<Rightarrow> ('s \<times> AppendIoTestState) \<times> 'r" where
  "beside call st = (case call (fst st) of (s, r) \<Rightarrow> ((s, snd st), r))"

definition injected :: "'s posix \<Rightarrow> ('s \<times> AppendIoTestState) posix" where
  "injected os =
     \<lparr>sys_open = (\<lambda>path mode. beside (sys_open os path mode)), sys_write = injected_write os,
      sys_pread = (\<lambda>fd count offset. beside (sys_pread os fd count offset)), sys_fstat_size = (\<lambda>fd. beside (sys_fstat_size os fd)),
      sys_ftruncate = (\<lambda>fd n. beside (sys_ftruncate os fd n)), sys_fsync = injected_fsync os,
      sys_close = (\<lambda>fd st. (sys_close os fd (fst st), snd st))\<rparr>"

definition injected_views :: "'s file_views \<Rightarrow> ('s \<times> AppendIoTestState) file_views" where
  "injected_views V = \<lparr>content = content V \<circ> fst, target = target V \<circ> fst, synced = synced V \<circ> fst, interrupts = interrupts V \<circ> fst\<rparr>"

lemma injected_views_simps [simp]:
  "content (injected_views V) st = content V (fst st)" "target (injected_views V) st = target V (fst st)"
  "synced (injected_views V) st = synced V (fst st)" "interrupts (injected_views V) st = interrupts V (fst st)"
  by (simp_all add: injected_views_def)

lemma injected_write_law:
  assumes "write_law os V"
  shows "write_law (injected os) (injected_views V)"
  unfolding write_law_def
proof (intro allI impI)
  fix fd path c bytes st st' r
  assume w: "sys_write (injected os) fd bytes st = (st', r)" and "target (injected_views V) st fd = Some path"
    "content (injected_views V) st path = Some c"
  then have at: "target V (fst st) fd = Some path" "content V (fst st) path = Some c" by simp_all
  obtain s t where st: "st = (s, t)" by (cases st)
  let ?goal = "interrupted_less (injected_views V) st st' r \<and> target (injected_views V) st' = target (injected_views V) st \<and>
    synced (injected_views V) st' = synced (injected_views V) st \<and>
    (case r of Inl e \<Rightarrow> content (injected_views V) st' = content (injected_views V) st
     | Inr n \<Rightarrow> n \<le> length bytes \<and> content (injected_views V) st' = (content (injected_views V) st)(path \<mapsto> c @ take n bytes))"
  show ?goal
  proof (cases "if io_active t then append_write_size_before_failure (length bytes) t else Some (length bytes)")
    case None
    with w st have "st' = st" "r = Inl EIO" by (simp_all add: injected_def injected_write_def)
    then show ?thesis by (simp add: interrupted_less_def)
  next
    case (Some n)
    obtain s1 r1 where w1: "sys_write os fd (take n bytes) s = (s1, r1)" by (cases "sys_write os fd (take n bytes) s")
    have "interrupted_less V s s1 r1 \<and> target V s1 = target V s \<and> synced V s1 = synced V s \<and>
      (case r1 of Inl e \<Rightarrow> content V s1 = content V s
       | Inr m \<Rightarrow> m \<le> length (take n bytes) \<and> content V s1 = (content V s)(path \<mapsto> c @ take m (take n bytes)))"
      using assms w1 at st unfolding write_law_def by simp
    with w w1 Some st show ?thesis
      by (auto simp: injected_def injected_write_def interrupted_less_def split: sum.splits)
  qed
qed

lemma injected_fsync_law: "fsync_law os V \<Longrightarrow> fsync_law (injected os) (injected_views V)"
  unfolding fsync_law_def
  by (simp add: injected_def injected_fsync_def split: prod.splits option.splits if_splits)

lemma beside_iff: "beside call st = (st', r) \<longleftrightarrow> (\<exists>s'. call (fst st) = (s', r) \<and> st' = (s', snd st))"
  by (auto simp: beside_def split: prod.splits)

lemma injected_same [simp]:
  "same_files (injected_views V) st st' = same_files V (fst st) (fst st')"
  "interrupted_less (injected_views V) st st' r = interrupted_less V (fst st) (fst st') r"
  by (simp_all add: same_files_def interrupted_less_def)

lemma injected_open_law:
  assumes "open_law os V"
  shows "open_law (injected os) (injected_views V)"
  unfolding open_law_def
proof (intro allI impI, goal_cases)
  case (1 path mode st st' r)
  then obtain s' where "sys_open os path mode (fst st) = (s', r)" "st' = (s', snd st)" by (auto simp: injected_def beside_iff)
  with assms [unfolded open_law_def, rule_format, of path mode "fst st" s' r] show ?case by (cases r) simp_all
qed

lemma injected_pread_law: "pread_law os V \<Longrightarrow> pread_law (injected os) (injected_views V)"
  by (clarsimp simp: pread_law_def injected_def beside_iff)

lemma injected_fstat_law: "fstat_law os V \<Longrightarrow> fstat_law (injected os) (injected_views V)"
  by (clarsimp simp: fstat_law_def injected_def beside_iff)

lemma injected_ftruncate_law:
  assumes "ftruncate_law os V"
  shows "ftruncate_law (injected os) (injected_views V)"
  unfolding ftruncate_law_def
proof (intro allI impI, goal_cases)
  case (1 fd path c n st st' r)
  then obtain s' where "sys_ftruncate os fd n (fst st) = (s', r)" "st' = (s', snd st)" by (auto simp: injected_def beside_iff)
  with 1 assms [unfolded ftruncate_law_def, rule_format, of fd n "fst st" s' r path c] show ?case by (cases r) simp_all
qed

lemma injected_laws:
  assumes "posix_laws os V"
  shows "posix_laws (injected os) (injected_views V)"
proof -
  have "close_law (injected os) (injected_views V)" "size_law (injected_views V)"
    using assms by (simp_all add: posix_laws_def close_law_def size_law_def injected_def)
  with assms show ?thesis
    by (simp add: posix_laws_def injected_open_law injected_write_law injected_pread_law injected_fstat_law injected_ftruncate_law
        injected_fsync_law)
qed

section \<open>The injected append is an append to the failing system\<close>

lemma write_all_injected:
  fixes os :: "'s posix"
  assumes "write_all (injected os) fd bytes written st = Some y"
  shows "write_all_append os fd bytes written st = Some y"
proof -
  let ?P = "\<lambda>(os' :: ('s \<times> AppendIoTestState) posix) fd bytes written st (y :: ('s \<times> AppendIoTestState) \<times> JournalStorageError option).
    os' = injected os \<longrightarrow> write_all_append os fd bytes written st = Some y"
  have "?P (injected os) fd bytes written st y"
  proof (rule write_all.raw_induct [where P = ?P, OF _ assms])
    fix write_all :: "('s \<times> AppendIoTestState) posix \<Rightarrow> int \<Rightarrow> byte list \<Rightarrow> nat \<Rightarrow> 's \<times> AppendIoTestState \<Rightarrow>
      (('s \<times> AppendIoTestState) \<times> JournalStorageError option) option" and os' fd bytes written st y
    assume IH: "\<And>os' fd bytes written st y. write_all os' fd bytes written st = Some y \<Longrightarrow> ?P os' fd bytes written st y"
    assume body: "(if written < length bytes
      then case sys_write os' fd (drop written bytes) st of
          (s, Inr result) \<Rightarrow>
            if result > 0 then write_all os' fd bytes (written + result) s
            else Some (s, Some (make_error WriteFailed (Some EIO) None))
        | (s, Inl error) \<Rightarrow>
            if error = EINTR then write_all os' fd bytes written s
            else Some (s, Some (make_error WriteFailed (Some error) None))
      else Some (st, None)) = Some y"
    show "?P os' fd bytes written st y"
    proof
      assume os': "os' = injected os"
      obtain s t where st: "st = (s, t)" by (cases st)
      let ?n = "if io_active t then append_write_size_before_failure (length bytes - written) t else Some (length bytes - written)"
      show "write_all_append os fd bytes written st = Some y"
      proof (cases "written < length bytes \<and> ?n \<noteq> None")
        case True
        then obtain n where n: "?n = Some n" by auto
        obtain s1 r1 where "sys_write os fd (take n (drop written bytes)) s = (s1, r1)" by (cases "sys_write os fd (take n (drop written bytes)) s")
        with True n body os' st IH show ?thesis
          by (subst write_all_append.simps)
            (auto simp: injected_def injected_write_def split: sum.splits if_splits)
      next
        case False
        with body os' st show ?thesis
          by (subst write_all_append.simps) (auto simp: injected_def injected_write_def split: if_splits)
      qed
    qed
  qed
  then show ?thesis by simp
qed

lemma write_frames_injected:
  "write_frames (injected os) fd fs st = Some y \<Longrightarrow> write_frames_append os fd fs st = Some y"
proof (induction fs arbitrary: st)
  case (Cons f fs)
  then obtain st1 e where w: "write_all (injected os) fd f 0 st = Some (st1, e)" by (cases "write_all (injected os) fd f 0 st") auto
  from Cons write_all_injected [OF w] w show ?case by (cases e) auto
qed simp

lemma append_sync_injected:
  "sys_fsync (injected os) fd st = (st', r) \<Longrightarrow>
   append_sync os fd st = (st', map_option (\<lambda>error. make_error SyncFailed (Some error) None) r)"
  by (auto simp: injected_def injected_fsync_def append_sync_def append_path_sync_def split: prod.splits option.splits if_splits)

lemma append_injected:
  assumes "append_batch_and_sync (injected os) oom w cs st = Some (st', w', r)"
  shows "append_batch_injected os oom w cs st = Some (st', w', r)"
  using assms
proof (cases rule: append_plain_cases)
  case (not_written fs sequences following e)
  with write_frames_injected [OF not_written(2)] show ?thesis by (simp add: append_injected_plan)
next
  case (written fs sequences following st1 x)
  with write_frames_injected [OF written(2)] append_sync_injected [OF written(3)] show ?thesis
    by (cases x) (simp_all add: append_injected_plan)
qed (simp add: append_injected_plan)

section \<open>Counting\<close>

text \<open>The bytes that were appended are the bytes that were counted, and the limit is respected.\<close>

definition counted :: "'s file_views \<Rightarrow> path \<Rightarrow> 's \<times> AppendIoTestState \<Rightarrow> 's \<times> AppendIoTestState \<Rightarrow> bool" where
  "counted V path st st' \<longleftrightarrow>
     target V (fst st') = target V (fst st) \<and>
     (\<exists>c d. content V (fst st) path = Some c \<and> content V (fst st') path = Some (c @ d) \<and>
        snd st' = (snd st)\<lparr>io_successful_append_bytes := io_successful_append_bytes (snd st) + length d\<rparr> \<and>
        (\<forall>limit. io_fail_after_successful_bytes (snd st) = Some limit \<longrightarrow>
           io_successful_append_bytes (snd st) + length d \<le> max limit (io_successful_append_bytes (snd st))))"

lemma counted_same:
  "content V s path = Some c \<Longrightarrow> content V s' = content V s \<Longrightarrow> target V s' = target V s \<Longrightarrow> counted V path (s, t) (s', t)"
  by (auto simp: counted_def intro!: exI [of _ "[]"])

lemma counted_trans:
  assumes "counted V path st st1" "counted V path st1 st2"
  shows "counted V path st st2"
proof -
  from assms obtain c d e where
    1: "content V (fst st) path = Some c" "content V (fst st1) path = Some (c @ d)" "content V (fst st2) path = Some ((c @ d) @ e)"
    "snd st1 = (snd st)\<lparr>io_successful_append_bytes := io_successful_append_bytes (snd st) + length d\<rparr>"
    "snd st2 = (snd st1)\<lparr>io_successful_append_bytes := io_successful_append_bytes (snd st1) + length e\<rparr>"
    "\<forall>limit. io_fail_after_successful_bytes (snd st) = Some limit \<longrightarrow>
       io_successful_append_bytes (snd st) + length d \<le> max limit (io_successful_append_bytes (snd st))"
    "\<forall>limit. io_fail_after_successful_bytes (snd st1) = Some limit \<longrightarrow>
       io_successful_append_bytes (snd st1) + length e \<le> max limit (io_successful_append_bytes (snd st1))"
    unfolding counted_def by auto
  have "target V (fst st2) = target V (fst st)" using assms by (simp add: counted_def)
  with 1 show ?thesis unfolding counted_def by (intro conjI exI [of _ c] exI [of _ "d @ e"]) (auto simp: add.assoc max_def split: if_splits)
qed

lemma counted_turn:
  assumes law: "write_law os V" and at: "target V s fd = Some path" "content V s path = Some c"
    and n: "append_write_size_before_failure (length bytes) t = Some n" and w: "sys_write os fd (take n bytes) s = (s', r)"
  shows "counted V path (s, t) (s', case r of Inl e \<Rightarrow> t | Inr m \<Rightarrow> record_successful_append_write m t)"
proof -
  have l: "target V s' = target V s" "case r of Inl e \<Rightarrow> content V s' = content V s
    | Inr m \<Rightarrow> m \<le> length (take n bytes) \<and> content V s' = (content V s)(path \<mapsto> c @ take m (take n bytes))"
    using law w at unfolding write_law_def by blast+
  show ?thesis
  proof (cases r)
    case (Inl e)
    with l at(2) show ?thesis by (simp add: counted_same)
  next
    case (Inr m)
    let ?d = "take m (take n bytes)"
    have "length ?d = m" "content V s' path = Some (c @ ?d)" using l Inr by simp_all
    moreover have "io_successful_append_bytes t + m \<le> max limit (io_successful_append_bytes t)"
      if "io_fail_after_successful_bytes t = Some limit" for limit
      using that n l(2) Inr by (auto simp: append_write_size_before_failure_def split: if_splits)
    ultimately show ?thesis
      using l(1) at(2) Inr unfolding counted_def
      by (intro conjI exI [of _ c] exI [of _ ?d]) (simp_all add: record_successful_append_write_def)
  qed
qed

lemma write_all_counted:
  fixes os :: "'s posix"
  assumes law: "write_law os V" and "write_all_append os fd bytes written st = Some y"
    and "target V (fst st) fd = Some path" "content V (fst st) path = Some c" "io_active (snd st)"
  shows "counted V path st (fst y)"
proof -
  let ?P = "\<lambda>(os' :: 's posix) fd bytes written st (y :: ('s \<times> AppendIoTestState) \<times> JournalStorageError option).
    os' = os \<longrightarrow> io_active (snd st) \<longrightarrow> target V (fst st) fd = Some path \<longrightarrow> content V (fst st) path \<noteq> None \<longrightarrow> counted V path st (fst y)"
  have "?P os fd bytes written st y"
  proof (rule write_all_append.raw_induct [where P = ?P, OF _ assms(2)])
    fix write_all_append :: "'s posix \<Rightarrow> int \<Rightarrow> byte list \<Rightarrow> nat \<Rightarrow> 's \<times> AppendIoTestState \<Rightarrow>
      (('s \<times> AppendIoTestState) \<times> JournalStorageError option) option" and os' fd bytes written st y
    assume IH: "\<And>os' fd bytes written st y. write_all_append os' fd bytes written st = Some y \<Longrightarrow> ?P os' fd bytes written st y"
    assume body: "(if written < length bytes
      then case st of (s, t) \<Rightarrow>
        (case (if io_active t then append_write_size_before_failure (length bytes - written) t else Some (length bytes - written)) of
           None \<Rightarrow> Some ((s, t), Some (make_error WriteFailed (Some EIO) None))
         | Some write_size \<Rightarrow>
             (case sys_write os' fd (take write_size (drop written bytes)) s of
                (s, Inr result) \<Rightarrow>
                  if result > 0
                  then write_all_append os' fd bytes (written + result)
                         (s, if io_active t then record_successful_append_write result t else t)
                  else Some ((s, t), Some (make_error WriteFailed (Some EIO) None))
              | (s, Inl error) \<Rightarrow>
                  if error = EINTR then write_all_append os' fd bytes written (s, t)
                  else Some ((s, t), Some (make_error WriteFailed (Some error) None))))
      else Some (st, None)) = Some y"
    show "?P os' fd bytes written st y"
    proof (intro impI)
      assume os': "os' = os" and active: "io_active (snd st)" and at: "target V (fst st) fd = Some path" "content V (fst st) path \<noteq> None"
      then obtain s t c where st: "st = (s, t)" and c: "content V s path = Some c" by (cases st) auto
      have same: "counted V path st st" using counted_same [OF c refl refl, of t] st by simp
      show "counted V path st (fst y)"
      proof (cases "written < length bytes \<and> append_write_size_before_failure (length bytes - written) t \<noteq> None")
        case False
        with body st active same show ?thesis by (auto split: if_splits)
      next
        case True
        then obtain n where n: "append_write_size_before_failure (length (drop written bytes)) t = Some n" by auto
        obtain s1 r1 where w: "sys_write os fd (take n (drop written bytes)) s = (s1, r1)" by (cases "sys_write os fd (take n (drop written bytes)) s")
        note turn = counted_turn [OF law at(1) [unfolded st fst_conv] c n w]
        have again: "counted V path st (fst y)" if "write_all_append os fd bytes k (s1, t1) = Some y" "counted V path st (s1, t1)" for k t1
        proof -
          have "io_active t1" "target V s1 fd = Some path" "content V s1 path \<noteq> None"
            using that(2) active at st by (auto simp: counted_def)
          with IH [OF that(1)] that(2) show ?thesis by (auto intro: counted_trans)
        qed
        have zero: "record_successful_append_write 0 t = t" by (simp add: record_successful_append_write_def)
        from True n w body st os' active turn again zero show ?thesis
          by (cases r1) (auto split: if_splits)
      qed
    qed
  qed
  with assms(3-5) show ?thesis by simp
qed

lemma write_frames_counted:
  assumes law: "write_law os V"
  shows "write_frames_append os fd fs st = Some y \<Longrightarrow> target V (fst st) fd = Some path \<Longrightarrow> content V (fst st) path = Some c \<Longrightarrow>
    io_active (snd st) \<Longrightarrow> counted V path st (fst y)"
proof (induction fs arbitrary: st c)
  case Nil
  then show ?case by (cases st) (auto intro: counted_same)
next
  case (Cons f fs)
  then obtain st1 e where w: "write_all_append os fd f 0 st = Some (st1, e)" by (cases "write_all_append os fd f 0 st") auto
  have c1: "counted V path st st1" using write_all_counted [OF law w Cons.prems(2-4)] by simp
  show ?case
  proof (cases e)
    case (Some x)
    with Cons.prems(1) w c1 show ?thesis by auto
  next
    case None
    with Cons.prems(1) w have "write_frames_append os fd fs st1 = Some y" by simp
    moreover obtain c' where "target V (fst st1) fd = Some path" "content V (fst st1) path = Some c'" "io_active (snd st1)"
      using c1 Cons.prems by (auto simp: counted_def)
    ultimately show ?thesis using Cons.IH c1 counted_trans by blast
  qed
qed

lemma append_injected_cases:
  assumes "append_batch_injected os oom w cs st = Some (st', w', r)"
  obtains (refused) e where "st' = st" "r = Inl e"
  | (not_written) fs e where "write_frames_append os (wr_descriptor w) fs st = Some (st', Some e)" "r = Inl e"
  | (written) fs st1 x where "write_frames_append os (wr_descriptor w) fs st = Some (st1, None)" "append_sync os (wr_descriptor w) st1 = (st', x)"
      "case x of None \<Rightarrow> \<exists>sequences. r = Inr sequences | Some e \<Rightarrow> r = Inl e"
proof (cases "batch_plan oom w cs")
  case (Some p)
  show thesis
  proof (cases p)
    case (Inr q)
    then obtain fs sequences following where p: "p = Inr (fs, sequences, following)" by (cases q) auto
    with assms Some obtain st1 e where w: "write_frames_append os (wr_descriptor w) fs st = Some (st1, e)"
      by (cases "write_frames_append os (wr_descriptor w) fs st") (auto simp: append_injected_plan)
    obtain st2 x where "append_sync os (wr_descriptor w) st1 = (st2, x)" by (cases "append_sync os (wr_descriptor w) st1")
    with assms Some p w not_written [of fs] written [of fs st1 x] show thesis by (cases e; cases x) (auto simp: append_injected_plan)
  next
    case (Inl e)
    with assms Some have "st' = st" "r = Inl e" by (simp_all add: append_injected_plan)
    with Some Inl show thesis by (simp add: refused)
  qed
qed (use assms in \<open>simp add: append_injected_plan\<close>)

lemma append_sync_counted:
  assumes "fsync_law os V" "append_sync os fd (s, t) = ((s', t'), x)" "io_active t"
  shows "content V s' = content V s \<and> (case x of
      None \<Rightarrow> \<not> io_fail_next_sync t \<and> io_successful_append_sync_count t' = io_successful_append_sync_count t + 1
    | Some e \<Rightarrow> io_successful_append_sync_count t' = io_successful_append_sync_count t)"
proof (cases "io_fail_next_sync t")
  case True
  with assms show ?thesis by (auto simp: append_sync_def append_path_sync_def)
next
  case False
  obtain s1 r1 where f: "sys_fsync os fd s = (s1, r1)" by (cases "sys_fsync os fd s")
  with assms(1) have "content V s1 = content V s" unfolding fsync_law_def by blast
  with False f assms(2,3) show ?thesis by (cases r1) (auto simp: append_sync_def append_path_sync_def)
qed

lemma append_counted:
  assumes law: "posix_laws os V" and a: "append_batch_injected os oom w cs (s, t) = Some ((s', t'), w', r)"
    and at: "target V s (wr_descriptor w) = Some path" "content V s path = Some c" "io_active t"
  shows "\<exists>s1 t1. counted V path (s, t) (s1, t1) \<and> content V s' = content V s1 \<and>
    io_successful_append_sync_count t' = io_successful_append_sync_count t + (case r of Inl e \<Rightarrow> 0 | Inr x \<Rightarrow> 1) \<and>
    ((\<exists>e. r = Inl e) \<or> \<not> io_fail_next_sync t)"
proof -
  have laws: "write_law os V" "fsync_law os V" using law by (simp_all add: posix_laws_def)
  have counts: "io_successful_append_sync_count t1 = io_successful_append_sync_count t" "io_fail_next_sync t1 = io_fail_next_sync t"
    "io_active t1 = io_active t" if "counted V path (s, t) (s1, t1)" for s1 t1 using that by (auto simp: counted_def)
  from a show ?thesis
  proof (cases rule: append_injected_cases)
    case (refused e)
    with counted_same [OF at(2) refl refl, of t] show ?thesis by auto
  next
    case (not_written fs e)
    from write_frames_counted [OF laws(1) not_written(1), of path c] at have "counted V path (s, t) (s', t')" by simp
    with counts [OF this] not_written(2) show ?thesis by auto
  next
    case (written fs st1 x)
    obtain s1 t1 where st1: "st1 = (s1, t1)" by (cases st1)
    from write_frames_counted [OF laws(1) written(1), of path c] at st1 have c1: "counted V path (s, t) (s1, t1)" by simp
    from append_sync_counted [OF laws(2) written(2) [unfolded st1]] counts [OF c1] at(3) written(3) c1 show ?thesis
      by (cases x) auto
  qed
qed

section \<open>Properties\<close>



end
