(* ===== verification/Wire_Protocol.thy ===== *)
theory Wire_Protocol
  imports Byte_Codec Order_Book
begin

text \<open>
  The model of \<^verbatim>\<open>include/matching/wire_protocol.hpp\<close> and of the frame codec in
  \<^verbatim>\<open>src/wire_protocol.cpp\<close>; the stream parser is in \<open>Wire_Stream\<close>. The enumerations that the codec
  casts from raw octets have a fixed underlying type and can hold any value of it, so they are
  modelled as wrapped integers with the named values as abbreviations; the encoders validate them.
  Helpers that the journal codec defines as well carry the prefix \<open>wire_\<close> here.
\<close>

section \<open>Types\<close>

datatype RequestId = RequestId (request_id_value: u64)

abbreviation (input) kWireProtocolMagic :: u32 where "kWireProtocolMagic \<equiv> 0x4D455847"
abbreviation (input) kWireProtocolVersion :: u16 where "kWireProtocolVersion \<equiv> 1"
abbreviation (input) kWireFrameHeaderSize :: nat where "kWireFrameHeaderSize \<equiv> 20"
abbreviation (input) kWireMaximumPayloadLength :: nat where "kWireMaximumPayloadLength \<equiv> 4096"
abbreviation (input) kSubmitLimitOrderRequestPayloadSize :: nat where "kSubmitLimitOrderRequestPayloadSize \<equiv> 25"
abbreviation (input) kCancelOrderRequestPayloadSize :: nat where "kCancelOrderRequestPayloadSize \<equiv> 8"
abbreviation (input) kSubmitResultResponsePayloadSize :: nat where "kSubmitResultResponsePayloadSize \<equiv> 18"
abbreviation (input) kCancelResultResponsePayloadSize :: nat where "kCancelResultResponsePayloadSize \<equiv> 9"
abbreviation (input) kProtocolErrorResponsePayloadSize :: nat where "kProtocolErrorResponsePayloadSize \<equiv> 2"
abbreviation (input) kEngineUnavailableResponsePayloadSize :: nat where "kEngineUnavailableResponsePayloadSize \<equiv> 1"

datatype WireMessageType =
    WireSubmitLimitOrder | WireCancelOrder
  | WireSubmitResult | WireCancelResult | WireProtocolError | WireEngineUnavailable

fun message_type_value :: "WireMessageType \<Rightarrow> u16" where
  "message_type_value WireSubmitLimitOrder = 1"
| "message_type_value WireCancelOrder = 2"
| "message_type_value WireSubmitResult = 101"
| "message_type_value WireCancelResult = 102"
| "message_type_value WireProtocolError = 103"
| "message_type_value WireEngineUnavailable = 104"

datatype WireRejectionCode = WireRejectionCode (rejection_code_value: u8)

abbreviation WireNone :: WireRejectionCode where "WireNone \<equiv> WireRejectionCode 0"
abbreviation WireInvalidOrderId :: WireRejectionCode where "WireInvalidOrderId \<equiv> WireRejectionCode 1"
abbreviation WireInvalidSide :: WireRejectionCode where "WireInvalidSide \<equiv> WireRejectionCode 2"
abbreviation WireInvalidPrice :: WireRejectionCode where "WireInvalidPrice \<equiv> WireRejectionCode 3"
abbreviation WireInvalidQuantity :: WireRejectionCode where "WireInvalidQuantity \<equiv> WireRejectionCode 4"
abbreviation WireDuplicateOrderId :: WireRejectionCode where "WireDuplicateOrderId \<equiv> WireRejectionCode 5"
abbreviation WireQuantityOverflow :: WireRejectionCode where "WireQuantityOverflow \<equiv> WireRejectionCode 6"
abbreviation WireSequenceExhausted :: WireRejectionCode where "WireSequenceExhausted \<equiv> WireRejectionCode 7"
abbreviation WireTradeIdExhausted :: WireRejectionCode where "WireTradeIdExhausted \<equiv> WireRejectionCode 8"

datatype WireSubmitStatus = WireSubmitStatus (submit_status_value: u8)

abbreviation WireAccepted :: WireSubmitStatus where "WireAccepted \<equiv> WireSubmitStatus 1"
abbreviation WireRejected :: WireSubmitStatus where "WireRejected \<equiv> WireSubmitStatus 2"

datatype WireCancelStatus = WireCancelStatus (cancel_status_value: u8)

abbreviation WireCancelled :: WireCancelStatus where "WireCancelled \<equiv> WireCancelStatus 1"
abbreviation WireNotFound :: WireCancelStatus where "WireNotFound \<equiv> WireCancelStatus 2"

datatype WireProtocolErrorCode = WireProtocolErrorCode (protocol_error_value: u16)

abbreviation PeerBadMagic :: WireProtocolErrorCode where "PeerBadMagic \<equiv> WireProtocolErrorCode 1"
abbreviation PeerUnsupportedVersion :: WireProtocolErrorCode where "PeerUnsupportedVersion \<equiv> WireProtocolErrorCode 2"
abbreviation PeerUnsupportedMessageType :: WireProtocolErrorCode where "PeerUnsupportedMessageType \<equiv> WireProtocolErrorCode 3"
abbreviation PeerPayloadTooLarge :: WireProtocolErrorCode where "PeerPayloadTooLarge \<equiv> WireProtocolErrorCode 4"
abbreviation PeerInvalidPayloadLength :: WireProtocolErrorCode where "PeerInvalidPayloadLength \<equiv> WireProtocolErrorCode 5"
abbreviation PeerMalformedPayload :: WireProtocolErrorCode where "PeerMalformedPayload \<equiv> WireProtocolErrorCode 6"
abbreviation PeerBufferLimitExceeded :: WireProtocolErrorCode where "PeerBufferLimitExceeded \<equiv> WireProtocolErrorCode 7"

datatype WireEngineUnavailableCode = WireEngineUnavailableCode (unavailable_value: u8)

abbreviation WireUnavailable :: WireEngineUnavailableCode where "WireUnavailable \<equiv> WireEngineUnavailableCode 1"

datatype WireCodecError =
    WireTruncatedInput | WireUnexpectedTrailingBytes | WireBadMagic | WireUnsupportedVersion
  | WireUnsupportedMessageType | WirePayloadTooLarge | WireInvalidPayloadLength
  | WireMalformedPayload | WireBufferLimitExceeded

record SubmitLimitOrderRequest =
  slr_order_id :: OrderId
  slr_raw_side :: u8
  slr_limit_price :: Price
  slr_quantity :: Quantity

record CancelOrderRequest =
  cor_order_id :: OrderId

datatype ClientMessage = ClientSubmit SubmitLimitOrderRequest | ClientCancel CancelOrderRequest

record SubmitResultResponse =
  srr_status :: WireSubmitStatus
  srr_rejection_code :: WireRejectionCode
  srr_executed_quantity :: Quantity
  srr_resting_quantity :: Quantity

record CancelResultResponse =
  crr_status :: WireCancelStatus
  crr_cancelled_quantity :: Quantity

record ProtocolErrorResponse =
  per_code :: WireProtocolErrorCode

record EngineUnavailableResponse =
  eur_code :: WireEngineUnavailableCode

datatype ServerMessage =
    ServerSubmitResult SubmitResultResponse
  | ServerCancelResult CancelResultResponse
  | ServerProtocolError ProtocolErrorResponse
  | ServerEngineUnavailable EngineUnavailableResponse

record 'm WireEnvelope =
  env_request_id :: RequestId
  env_message :: 'm

record 'm DecodedFrame =
  frame_envelope :: "'m WireEnvelope"
  frame_consumed :: nat

type_synonym DecodedClientFrame = "ClientMessage DecodedFrame"
type_synonym DecodedServerFrame = "ServerMessage DecodedFrame"

record FrameHeader =
  hdr_type :: WireMessageType
  hdr_payload_length :: u32
  hdr_request_id :: RequestId

section \<open>Integers\<close>

definition wire_append_u8 :: "byte list \<Rightarrow> u8 \<Rightarrow> byte list" where
  "wire_append_u8 bytes value = bytes @ [value]"

definition wire_append_u16 :: "byte list \<Rightarrow> u16 \<Rightarrow> byte list" where
  "wire_append_u16 bytes value =
     wire_append_u8 (wire_append_u8 bytes (ucast (drop_bit 8 value))) (ucast value)"

text \<open>\<open>for (shift = first; ; shift -= 8)\<close>, leaving the loop after the byte at shift zero.\<close>

fun wire_append_shifts :: "byte list \<Rightarrow> 'a::len word \<Rightarrow> nat \<Rightarrow> byte list" where
  "wire_append_shifts bytes value shift =
     (let bytes' = wire_append_u8 bytes (ucast (drop_bit shift value))
      in if shift = 0 then bytes' else wire_append_shifts bytes' value (shift - 8))"

declare wire_append_shifts.simps [simp del]

definition wire_append_u32 :: "byte list \<Rightarrow> u32 \<Rightarrow> byte list" where
  "wire_append_u32 bytes value = wire_append_shifts bytes value 24"

definition wire_append_u64 :: "byte list \<Rightarrow> u64 \<Rightarrow> byte list" where
  "wire_append_u64 bytes value = wire_append_shifts bytes value 56"

definition wire_read_u16 :: "byte list \<Rightarrow> nat \<Rightarrow> u16 outcome" where
  "wire_read_u16 bytes offset =
     obind (byte_at bytes offset)
       (\<lambda>hi. obind (byte_at bytes (offset + 1)) (\<lambda>lo. Done ((push_bit 8 (ucast hi)) OR ucast lo)))"

definition wire_read_u32 :: "byte list \<Rightarrow> nat \<Rightarrow> u32 outcome" where
  "wire_read_u32 bytes offset = read_loop bytes offset 4 0"

definition wire_read_u64 :: "byte list \<Rightarrow> nat \<Rightarrow> u64 outcome" where
  "wire_read_u64 bytes offset = read_loop bytes offset 8 0"

section \<open>Headers\<close>

definition decode_message_type :: "u16 \<Rightarrow> WireMessageType option" where
  "decode_message_type value =
     (if value = message_type_value WireSubmitLimitOrder then Some WireSubmitLimitOrder
      else if value = message_type_value WireCancelOrder then Some WireCancelOrder
      else if value = message_type_value WireSubmitResult then Some WireSubmitResult
      else if value = message_type_value WireCancelResult then Some WireCancelResult
      else if value = message_type_value WireProtocolError then Some WireProtocolError
      else if value = message_type_value WireEngineUnavailable then Some WireEngineUnavailable
      else None)"

definition is_client_message_type :: "WireMessageType \<Rightarrow> bool" where
  "is_client_message_type type \<longleftrightarrow> type = WireSubmitLimitOrder \<or> type = WireCancelOrder"

definition is_server_message_type :: "WireMessageType \<Rightarrow> bool" where
  "is_server_message_type type \<longleftrightarrow>
     type = WireSubmitResult \<or> type = WireCancelResult \<or>
     type = WireProtocolError \<or> type = WireEngineUnavailable"

fun wire_payload_length :: "WireMessageType \<Rightarrow> nat option" where
  "wire_payload_length WireSubmitLimitOrder = Some kSubmitLimitOrderRequestPayloadSize"
| "wire_payload_length WireCancelOrder = Some kCancelOrderRequestPayloadSize"
| "wire_payload_length WireSubmitResult = Some kSubmitResultResponsePayloadSize"
| "wire_payload_length WireCancelResult = Some kCancelResultResponsePayloadSize"
| "wire_payload_length WireProtocolError = Some kProtocolErrorResponsePayloadSize"
| "wire_payload_length WireEngineUnavailable = Some kEngineUnavailableResponsePayloadSize"

text \<open>The fields are checked as soon as their bytes are there, before the header is complete.\<close>

definition decode_header :: "byte list \<Rightarrow> (WireCodecError + FrameHeader) outcome" where
  "decode_header bytes =
     (if length bytes < 4 then Done (Inl WireTruncatedInput)
      else obind (wire_read_u32 bytes 0) (\<lambda>magic.
      if magic \<noteq> kWireProtocolMagic then Done (Inl WireBadMagic)
      else if length bytes < 6 then Done (Inl WireTruncatedInput)
      else obind (wire_read_u16 bytes 4) (\<lambda>version.
      if version \<noteq> kWireProtocolVersion then Done (Inl WireUnsupportedVersion)
      else if length bytes < 8 then Done (Inl WireTruncatedInput)
      else obind (wire_read_u16 bytes 6) (\<lambda>raw_type.
      case decode_message_type raw_type of
        None \<Rightarrow> Done (Inl WireUnsupportedMessageType)
      | Some type \<Rightarrow>
      if length bytes < 12 then Done (Inl WireTruncatedInput)
      else obind (wire_read_u32 bytes 8) (\<lambda>payload_length.
      if unat payload_length > kWireMaximumPayloadLength then Done (Inl WirePayloadTooLarge)
      else case wire_payload_length type of
        None \<Rightarrow> Done (Inl WireInvalidPayloadLength)
      | Some expected_length \<Rightarrow>
      if unat payload_length \<noteq> expected_length then Done (Inl WireInvalidPayloadLength)
      else if length bytes < kWireFrameHeaderSize then Done (Inl WireTruncatedInput)
      else obind (wire_read_u64 bytes 12) (\<lambda>request_id.
      Done (Inr \<lparr>hdr_type = type, hdr_payload_length = payload_length,
                 hdr_request_id = RequestId request_id\<rparr>)))))))"

definition has_complete_frame :: "byte list \<Rightarrow> FrameHeader \<Rightarrow> bool" where
  "has_complete_frame bytes header \<longleftrightarrow>
     length bytes \<ge> kWireFrameHeaderSize + unat (hdr_payload_length header)"

section \<open>Values of the payloads\<close>

definition is_known_rejection_code :: "WireRejectionCode \<Rightarrow> bool" where
  "is_known_rejection_code code \<longleftrightarrow>
     code = WireNone \<or> code = WireInvalidOrderId \<or> code = WireInvalidSide \<or> code = WireInvalidPrice \<or>
     code = WireInvalidQuantity \<or> code = WireDuplicateOrderId \<or> code = WireQuantityOverflow \<or>
     code = WireSequenceExhausted \<or> code = WireTradeIdExhausted"

definition decode_rejection_code :: "u8 \<Rightarrow> WireRejectionCode option" where
  "decode_rejection_code value =
     (let code = WireRejectionCode value in if is_known_rejection_code code then Some code else None)"

definition decode_submit_status :: "u8 \<Rightarrow> WireSubmitStatus option" where
  "decode_submit_status value =
     (if value = submit_status_value WireAccepted then Some WireAccepted
      else if value = submit_status_value WireRejected then Some WireRejected else None)"

definition decode_cancel_status :: "u8 \<Rightarrow> WireCancelStatus option" where
  "decode_cancel_status value =
     (if value = cancel_status_value WireCancelled then Some WireCancelled
      else if value = cancel_status_value WireNotFound then Some WireNotFound else None)"

definition decode_protocol_error_code :: "u16 \<Rightarrow> WireProtocolErrorCode option" where
  "decode_protocol_error_code value =
     (if value = protocol_error_value PeerBadMagic then Some PeerBadMagic
      else if value = protocol_error_value PeerUnsupportedVersion then Some PeerUnsupportedVersion
      else if value = protocol_error_value PeerUnsupportedMessageType then Some PeerUnsupportedMessageType
      else if value = protocol_error_value PeerPayloadTooLarge then Some PeerPayloadTooLarge
      else if value = protocol_error_value PeerInvalidPayloadLength then Some PeerInvalidPayloadLength
      else if value = protocol_error_value PeerMalformedPayload then Some PeerMalformedPayload
      else if value = protocol_error_value PeerBufferLimitExceeded then Some PeerBufferLimitExceeded
      else None)"

definition decode_engine_unavailable_code :: "u8 \<Rightarrow> WireEngineUnavailableCode option" where
  "decode_engine_unavailable_code value =
     (if value = unavailable_value WireUnavailable then Some WireUnavailable else None)"

definition valid_submit_result :: "SubmitResultResponse \<Rightarrow> bool" where
  "valid_submit_result response \<longleftrightarrow>
     is_known_rejection_code (srr_rejection_code response) \<and>
     (srr_status response = WireAccepted \<and> srr_rejection_code response = WireNone \<or>
      srr_status response = WireRejected \<and> srr_rejection_code response \<noteq> WireNone)"

definition valid_cancel_result :: "CancelResultResponse \<Rightarrow> bool" where
  "valid_cancel_result response \<longleftrightarrow>
     crr_status response = WireCancelled \<or> crr_status response = WireNotFound"

section \<open>Conversions between matching and protocol values\<close>

fun to_wire_rejection_code :: "RejectionReason \<Rightarrow> WireRejectionCode option" where
  "to_wire_rejection_code InvalidOrderId = Some WireInvalidOrderId"
| "to_wire_rejection_code InvalidSide = Some WireInvalidSide"
| "to_wire_rejection_code InvalidPrice = Some WireInvalidPrice"
| "to_wire_rejection_code InvalidQuantity = Some WireInvalidQuantity"
| "to_wire_rejection_code DuplicateOrderId = Some WireDuplicateOrderId"
| "to_wire_rejection_code QuantityOverflow = Some WireQuantityOverflow"
| "to_wire_rejection_code SequenceExhausted = Some WireSequenceExhausted"
| "to_wire_rejection_code TradeIdExhausted = Some WireTradeIdExhausted"

definition to_domain_rejection_reason :: "WireRejectionCode \<Rightarrow> RejectionReason option" where
  "to_domain_rejection_reason code =
     (if code = WireInvalidOrderId then Some InvalidOrderId
      else if code = WireInvalidSide then Some InvalidSide
      else if code = WireInvalidPrice then Some InvalidPrice
      else if code = WireInvalidQuantity then Some InvalidQuantity
      else if code = WireDuplicateOrderId then Some DuplicateOrderId
      else if code = WireQuantityOverflow then Some QuantityOverflow
      else if code = WireSequenceExhausted then Some SequenceExhausted
      else if code = WireTradeIdExhausted then Some TradeIdExhausted
      else None)"

fun to_wire_cancel_status :: "CancelStatus \<Rightarrow> WireCancelStatus option" where
  "to_wire_cancel_status Cancelled = Some WireCancelled"
| "to_wire_cancel_status NotFound = Some WireNotFound"

definition to_domain_cancel_status :: "WireCancelStatus \<Rightarrow> CancelStatus option" where
  "to_domain_cancel_status status =
     (if status = WireCancelled then Some Cancelled
      else if status = WireNotFound then Some NotFound else None)"

fun to_wire_protocol_error_code :: "WireCodecError \<Rightarrow> WireProtocolErrorCode option" where
  "to_wire_protocol_error_code WireBadMagic = Some PeerBadMagic"
| "to_wire_protocol_error_code WireUnsupportedVersion = Some PeerUnsupportedVersion"
| "to_wire_protocol_error_code WireUnsupportedMessageType = Some PeerUnsupportedMessageType"
| "to_wire_protocol_error_code WirePayloadTooLarge = Some PeerPayloadTooLarge"
| "to_wire_protocol_error_code WireInvalidPayloadLength = Some PeerInvalidPayloadLength"
| "to_wire_protocol_error_code WireMalformedPayload = Some PeerMalformedPayload"
| "to_wire_protocol_error_code WireBufferLimitExceeded = Some PeerBufferLimitExceeded"
| "to_wire_protocol_error_code WireTruncatedInput = None"
| "to_wire_protocol_error_code WireUnexpectedTrailingBytes = None"

section \<open>Encoding\<close>

definition encode_header :: "WireMessageType \<Rightarrow> nat \<Rightarrow> RequestId \<Rightarrow> byte list" where
  "encode_header type payload_length request_id =
     (let bytes = wire_append_u32 [] kWireProtocolMagic;
          bytes = wire_append_u16 bytes kWireProtocolVersion;
          bytes = wire_append_u16 bytes (message_type_value type);
          bytes = wire_append_u32 bytes (of_nat payload_length)
      in wire_append_u64 bytes (request_id_value request_id))"

definition encode_client_frame :: "ClientMessage WireEnvelope \<Rightarrow> WireCodecError + byte list" where
  "encode_client_frame envelope =
     (case env_message envelope of
        ClientSubmit message \<Rightarrow>
          (let bytes = encode_header WireSubmitLimitOrder kSubmitLimitOrderRequestPayloadSize (env_request_id envelope);
               bytes = wire_append_u64 bytes (order_id_value (slr_order_id message));
               bytes = wire_append_u8 bytes (slr_raw_side message);
               bytes = wire_append_u64 bytes (ticks (slr_limit_price message));
               bytes = wire_append_u64 bytes (units (slr_quantity message))
           in Inr bytes)
      | ClientCancel message \<Rightarrow>
          (let bytes = encode_header WireCancelOrder kCancelOrderRequestPayloadSize (env_request_id envelope)
           in Inr (wire_append_u64 bytes (order_id_value (cor_order_id message)))))"

definition encode_server_frame :: "ServerMessage WireEnvelope \<Rightarrow> WireCodecError + byte list" where
  "encode_server_frame envelope =
     (case env_message envelope of
        ServerSubmitResult message \<Rightarrow>
          if \<not> valid_submit_result message then Inl WireMalformedPayload
          else (let bytes = encode_header WireSubmitResult kSubmitResultResponsePayloadSize (env_request_id envelope);
                    bytes = wire_append_u8 bytes (submit_status_value (srr_status message));
                    bytes = wire_append_u8 bytes (rejection_code_value (srr_rejection_code message));
                    bytes = wire_append_u64 bytes (units (srr_executed_quantity message));
                    bytes = wire_append_u64 bytes (units (srr_resting_quantity message))
                in Inr bytes)
      | ServerCancelResult message \<Rightarrow>
          if \<not> valid_cancel_result message then Inl WireMalformedPayload
          else (let bytes = encode_header WireCancelResult kCancelResultResponsePayloadSize (env_request_id envelope);
                    bytes = wire_append_u8 bytes (cancel_status_value (crr_status message));
                    bytes = wire_append_u64 bytes (units (crr_cancelled_quantity message))
                in Inr bytes)
      | ServerProtocolError message \<Rightarrow>
          if decode_protocol_error_code (protocol_error_value (per_code message)) = None then Inl WireMalformedPayload
          else (let bytes = encode_header WireProtocolError kProtocolErrorResponsePayloadSize (env_request_id envelope)
                in Inr (wire_append_u16 bytes (protocol_error_value (per_code message))))
      | ServerEngineUnavailable message \<Rightarrow>
          if eur_code message \<noteq> WireUnavailable then Inl WireMalformedPayload
          else (let bytes = encode_header WireEngineUnavailable kEngineUnavailableResponsePayloadSize (env_request_id envelope)
                in Inr (wire_append_u8 bytes (unavailable_value (eur_code message)))))"

section \<open>Decoding\<close>

definition decode_client_message :: "WireMessageType \<Rightarrow> byte list \<Rightarrow> ClientMessage outcome" where
  "decode_client_message type payload =
     (if type = WireSubmitLimitOrder
      then obind (wire_read_u64 payload 0) (\<lambda>order_id.
           obind (byte_at payload 8) (\<lambda>raw_side.
           obind (wire_read_u64 payload 9) (\<lambda>limit_price.
           obind (wire_read_u64 payload 17) (\<lambda>quantity.
           Done (ClientSubmit \<lparr>slr_order_id = OrderId order_id, slr_raw_side = raw_side,
                   slr_limit_price = Price limit_price, slr_quantity = Quantity quantity\<rparr>)))))
      else obind (wire_read_u64 payload 0) (\<lambda>order_id.
           Done (ClientCancel \<lparr>cor_order_id = OrderId order_id\<rparr>)))"

definition decode_client_frame_prefix :: "byte list \<Rightarrow> (WireCodecError + DecodedClientFrame) outcome" where
  "decode_client_frame_prefix bytes =
     obind (decode_header bytes) (\<lambda>header_result.
     case header_result of
       Inl error \<Rightarrow> Done (Inl error)
     | Inr header \<Rightarrow>
       if \<not> is_client_message_type (hdr_type header) then Done (Inl WireUnsupportedMessageType)
       else if \<not> has_complete_frame bytes header then Done (Inl WireTruncatedInput)
       else obind (subspan bytes kWireFrameHeaderSize (unat (hdr_payload_length header))) (\<lambda>payload.
            obind (decode_client_message (hdr_type header) payload) (\<lambda>message.
            Done (Inr \<lparr>frame_envelope = \<lparr>env_request_id = hdr_request_id header, env_message = message\<rparr>,
                       frame_consumed = kWireFrameHeaderSize + unat (hdr_payload_length header)\<rparr>))))"

definition decode_server_message :: "WireMessageType \<Rightarrow> byte list \<Rightarrow> (WireCodecError + ServerMessage) outcome" where
  "decode_server_message type payload =
     (case type of
        WireSubmitResult \<Rightarrow>
          obind (byte_at payload 0) (\<lambda>raw_status.
          obind (byte_at payload 1) (\<lambda>raw_code.
          case (decode_submit_status raw_status, decode_rejection_code raw_code) of
            (Some status, Some rejection_code) \<Rightarrow>
              obind (wire_read_u64 payload 2) (\<lambda>executed.
              obind (wire_read_u64 payload 10) (\<lambda>resting.
              let response = \<lparr>srr_status = status, srr_rejection_code = rejection_code,
                    srr_executed_quantity = Quantity executed, srr_resting_quantity = Quantity resting\<rparr>
              in if \<not> valid_submit_result response then Done (Inl WireMalformedPayload)
                 else Done (Inr (ServerSubmitResult response))))
          | _ \<Rightarrow> Done (Inl WireMalformedPayload)))
      | WireCancelResult \<Rightarrow>
          obind (byte_at payload 0) (\<lambda>raw_status.
          case decode_cancel_status raw_status of
            None \<Rightarrow> Done (Inl WireMalformedPayload)
          | Some status \<Rightarrow>
              obind (wire_read_u64 payload 1) (\<lambda>cancelled.
              let response = \<lparr>crr_status = status, crr_cancelled_quantity = Quantity cancelled\<rparr>
              in if \<not> valid_cancel_result response then Done (Inl WireMalformedPayload)
                 else Done (Inr (ServerCancelResult response))))
      | WireProtocolError \<Rightarrow>
          obind (wire_read_u16 payload 0) (\<lambda>raw_code.
          case decode_protocol_error_code raw_code of
            None \<Rightarrow> Done (Inl WireMalformedPayload)
          | Some code \<Rightarrow> Done (Inr (ServerProtocolError \<lparr>per_code = code\<rparr>)))
      | WireEngineUnavailable \<Rightarrow>
          obind (byte_at payload 0) (\<lambda>raw_code.
          case decode_engine_unavailable_code raw_code of
            None \<Rightarrow> Done (Inl WireMalformedPayload)
          | Some code \<Rightarrow> Done (Inr (ServerEngineUnavailable \<lparr>eur_code = code\<rparr>)))
      | _ \<Rightarrow> Done (Inl WireUnsupportedMessageType))"

definition decode_server_frame_prefix :: "byte list \<Rightarrow> (WireCodecError + DecodedServerFrame) outcome" where
  "decode_server_frame_prefix bytes =
     obind (decode_header bytes) (\<lambda>header_result.
     case header_result of
       Inl error \<Rightarrow> Done (Inl error)
     | Inr header \<Rightarrow>
       if \<not> is_server_message_type (hdr_type header) then Done (Inl WireUnsupportedMessageType)
       else if \<not> has_complete_frame bytes header then Done (Inl WireTruncatedInput)
       else obind (subspan bytes kWireFrameHeaderSize (unat (hdr_payload_length header))) (\<lambda>payload.
            obind (decode_server_message (hdr_type header) payload) (\<lambda>result.
            case result of
              Inl error \<Rightarrow> Done (Inl error)
            | Inr message \<Rightarrow>
              Done (Inr \<lparr>frame_envelope = \<lparr>env_request_id = hdr_request_id header, env_message = message\<rparr>,
                         frame_consumed = kWireFrameHeaderSize + unat (hdr_payload_length header)\<rparr>))))"

definition require_exact_frame :: "(WireCodecError + 'm DecodedFrame) \<Rightarrow> nat \<Rightarrow> WireCodecError + 'm DecodedFrame" where
  "require_exact_frame result input_size =
     (case result of
        Inl error \<Rightarrow> Inl error
      | Inr frame \<Rightarrow>
          if frame_consumed frame \<noteq> input_size then Inl WireUnexpectedTrailingBytes else Inr frame)"

definition decode_client_frame :: "byte list \<Rightarrow> (WireCodecError + DecodedClientFrame) outcome" where
  "decode_client_frame bytes =
     obind (decode_client_frame_prefix bytes) (\<lambda>result. Done (require_exact_frame result (length bytes)))"

definition decode_server_frame :: "byte list \<Rightarrow> (WireCodecError + DecodedServerFrame) outcome" where
  "decode_server_frame bytes =
     obind (decode_server_frame_prefix bytes) (\<lambda>result. Done (require_exact_frame result (length bytes)))"

end
