(* ===== verification/Gateway_Types.thy ===== *)
theory Gateway_Types
  imports Wire_Protocol Order_Book
begin

text \<open>
  The model of \<^verbatim>\<open>include/matching/gateway_types.hpp\<close> and \<^verbatim>\<open>src/gateway_types.cpp\<close>: the requests and
  responses that the gateway and the engine worker exchange, and the limiter of requests in flight.
  A server has one limiter, so the owner of a reservation is present or absent.
\<close>

section \<open>Requests and responses\<close>

datatype ConnectionId = ConnectionId (connection_id_value: u64)

record SubmitEngineRequest =
  seq_connection_id :: ConnectionId
  seq_request_id :: RequestId
  seq_order :: NewLimitOrder

record CancelEngineRequest =
  ceq_connection_id :: ConnectionId
  ceq_request_id :: RequestId
  ceq_order_id :: OrderId

datatype EngineRequest = EngineSubmit SubmitEngineRequest | EngineCancel CancelEngineRequest

record SubmitEngineResponse =
  ser_connection_id :: ConnectionId
  ser_request_id :: RequestId
  ser_status :: SubmissionStatus
  ser_rejection_reason :: "RejectionReason option"
  ser_executed_quantity :: Quantity
  ser_resting_quantity :: Quantity

record CancelEngineResponse =
  cer_connection_id :: ConnectionId
  cer_request_id :: RequestId
  cer_status :: CancelStatus
  cer_cancelled_quantity :: Quantity

record EngineUnavailableEngineResponse =
  uer_connection_id :: ConnectionId
  uer_request_id :: RequestId

datatype EngineResponse =
    SubmitResponse SubmitEngineResponse
  | CancelResponse CancelEngineResponse
  | UnavailableResponse EngineUnavailableEngineResponse

definition side_from_wire_raw :: "u8 \<Rightarrow> Side" where
  "side_from_wire_raw raw_side = raw_side"

definition to_domain_order :: "SubmitLimitOrderRequest \<Rightarrow> NewLimitOrder" where
  "to_domain_order request =
     \<lparr>nlo_id = slr_order_id request, nlo_side = side_from_wire_raw (slr_raw_side request),
      nlo_price = slr_limit_price request, nlo_quantity = slr_quantity request\<rparr>"

definition to_engine_request :: "ConnectionId \<Rightarrow> ClientMessage WireEnvelope \<Rightarrow> EngineRequest" where
  "to_engine_request cid request =
     (case env_message request of
        ClientSubmit message \<Rightarrow>
          EngineSubmit \<lparr>seq_connection_id = cid, seq_request_id = env_request_id request, seq_order = to_domain_order message\<rparr>
      | ClientCancel message \<Rightarrow>
          EngineCancel \<lparr>ceq_connection_id = cid, ceq_request_id = env_request_id request, ceq_order_id = cor_order_id message\<rparr>)"

definition summarize_submit_result :: "ConnectionId \<Rightarrow> RequestId \<Rightarrow> SubmitResult \<Rightarrow> SubmitEngineResponse" where
  "summarize_submit_result cid rid result =
     \<lparr>ser_connection_id = cid, ser_request_id = rid, ser_status = sr_status result,
      ser_rejection_reason = sr_reason result, ser_executed_quantity = sr_executed result,
      ser_resting_quantity = sr_resting result\<rparr>"

definition summarize_cancel_result :: "ConnectionId \<Rightarrow> RequestId \<Rightarrow> CancelResult \<Rightarrow> CancelEngineResponse" where
  "summarize_cancel_result cid rid result =
     \<lparr>cer_connection_id = cid, cer_request_id = rid, cer_status = cr_status result,
      cer_cancelled_quantity = cr_cancelled result\<rparr>"

section \<open>The limiter\<close>

record InFlightLimiter =
  lim_capacity :: nat
  lim_in_flight :: nat
  lim_maximum_observed :: nat

datatype InFlightReservation = InFlightReservation (owner: bool)

definition new_limiter :: "nat \<Rightarrow> InFlightLimiter" where
  "new_limiter capacity = \<lparr>lim_capacity = capacity, lim_in_flight = 0, lim_maximum_observed = 0\<rparr>"

definition try_acquire :: "InFlightLimiter \<Rightarrow> InFlightLimiter \<times> InFlightReservation option" where
  "try_acquire l =
     (if lim_in_flight l = lim_capacity l then (l, None)
      else let n = lim_in_flight l + 1;
               l = l\<lparr>lim_in_flight := n\<rparr>;
               l = (if n > lim_maximum_observed l then l\<lparr>lim_maximum_observed := n\<rparr> else l)
           in (l, Some (InFlightReservation True)))"

definition release_one :: "InFlightLimiter \<Rightarrow> InFlightLimiter outcome" where
  "release_one l = (if lim_in_flight l = 0 then Terminates else Done (l\<lparr>lim_in_flight := lim_in_flight l - 1\<rparr>))"

definition reservation_release ::
  "InFlightReservation \<Rightarrow> InFlightLimiter \<Rightarrow> (InFlightReservation \<times> InFlightLimiter) outcome" where
  "reservation_release r l =
     (if owner r then obind (release_one l) (\<lambda>l. Done (InFlightReservation False, l)) else Done (r, l))"

text \<open>The destructor; what is left of the reservation is gone.\<close>

definition reservation_destroy :: "InFlightReservation \<Rightarrow> InFlightLimiter \<Rightarrow> InFlightLimiter outcome" where
  "reservation_destroy r l = obind (reservation_release r l) (\<lambda>(_, l). Done l)"

text \<open>Moving gives the new reservation and what is left of the source.\<close>

definition reservation_move :: "InFlightReservation \<Rightarrow> InFlightReservation \<times> InFlightReservation" where
  "reservation_move other = (InFlightReservation (owner other), InFlightReservation False)"

definition reservation_assign ::
  "InFlightReservation \<Rightarrow> InFlightReservation \<Rightarrow> InFlightLimiter \<Rightarrow>
   (InFlightReservation \<times> InFlightReservation \<times> InFlightLimiter) outcome" where
  "reservation_assign r other l =
     obind (reservation_release r l) (\<lambda>(_, l). case reservation_move other of (r, other) \<Rightarrow> Done (r, other, l))"

record AdmittedEngineRequest =
  adm_request :: EngineRequest
  adm_completion :: InFlightReservation

record EngineCompletion =
  cmp_response :: EngineResponse
  cmp_completion :: InFlightReservation

definition response_queue_capacity_for :: "nat \<Rightarrow> nat" where
  "response_queue_capacity_for maximum_in_flight = maximum_in_flight"

section \<open>Which request a response answers\<close>

fun request_key :: "EngineRequest \<Rightarrow> ConnectionId \<times> RequestId" where
  "request_key (EngineSubmit r) = (seq_connection_id r, seq_request_id r)"
| "request_key (EngineCancel r) = (ceq_connection_id r, ceq_request_id r)"

fun response_key :: "EngineResponse \<Rightarrow> ConnectionId \<times> RequestId" where
  "response_key (SubmitResponse r) = (ser_connection_id r, ser_request_id r)"
| "response_key (CancelResponse r) = (cer_connection_id r, cer_request_id r)"
| "response_key (UnavailableResponse r) = (uer_connection_id r, uer_request_id r)"

lemma key_to_engine_request [simp]: "request_key (to_engine_request cid request) = (cid, env_request_id request)"
  by (simp add: to_engine_request_def split: ClientMessage.split)

end
