(* ===== verification/Bounded_Queue.thy ===== *)
theory Bounded_Queue
  imports Matching_Prelude
begin

text \<open>
  The model of \<^verbatim>\<open>include/matching/detail/bounded_queue.hpp\<close>. Every member function holds the mutex for
  all of its effect, so each is one atomic step; \<open>wait_pop\<close> is a step that is not enabled while the
  queue is open and empty, which \<open>None\<close> stands for. A failing allocation of a node is not modelled.
\<close>

section \<open>The queue\<close>

record 'a BoundedQueue =
  bq_capacity :: nat
  bq_items :: "'a list"
  bq_closed :: bool

definition new_queue :: "nat \<Rightarrow> 'a BoundedQueue" where
  "new_queue capacity = \<lparr>bq_capacity = capacity, bq_items = [], bq_closed = False\<rparr>"

definition try_push :: "'a BoundedQueue \<Rightarrow> 'a \<Rightarrow> 'a BoundedQueue \<times> bool" where
  "try_push q value =
     (if bq_closed q \<or> length (bq_items q) = bq_capacity q then (q, False)
      else (q\<lparr>bq_items := bq_items q @ [value]\<rparr>, True))"

definition try_pop :: "'a BoundedQueue \<Rightarrow> 'a BoundedQueue \<times> 'a option" where
  "try_pop q =
     (case bq_items q of
        [] \<Rightarrow> (q, None)
      | value # items \<Rightarrow> (q\<lparr>bq_items := items\<rparr>, Some value))"

definition wait_pop :: "'a BoundedQueue \<Rightarrow> ('a BoundedQueue \<times> 'a option) option" where
  "wait_pop q =
     (if \<not> (bq_closed q \<or> bq_items q \<noteq> []) then None
      else case bq_items q of
          [] \<Rightarrow> Some (q, None)
        | value # items \<Rightarrow> Some (q\<lparr>bq_items := items\<rparr>, Some value))"

definition close :: "'a BoundedQueue \<Rightarrow> 'a BoundedQueue" where
  "close q = (if bq_closed q then q else q\<lparr>bq_closed := True\<rparr>)"

definition queue_size :: "'a BoundedQueue \<Rightarrow> nat" where
  "queue_size q = length (bq_items q)"

section \<open>The contract of a bounded queue\<close>

text \<open>The calls of the threads that share a queue.\<close>

datatype 'a queue_call = Push 'a | Pop | WaitPop | Close

text \<open>
  What the two threads rely on: an accepted value goes to the end, a value is taken from the front,
  nothing is accepted beyond the capacity or after closing, a refused value changes nothing, and only
  an open and empty queue makes a thread wait.
\<close>

locale bounded_fifo =
  fixes push :: "'q \<Rightarrow> 'a \<Rightarrow> 'q \<times> bool" and pop :: "'q \<Rightarrow> 'q \<times> 'a option"
    and wait :: "'q \<Rightarrow> ('q \<times> 'a option) option" and shut :: "'q \<Rightarrow> 'q"
    and items :: "'q \<Rightarrow> 'a list" and capacity :: "'q \<Rightarrow> nat" and is_shut :: "'q \<Rightarrow> bool"
  assumes push_accepts: "snd (push q x) \<longleftrightarrow> \<not> is_shut q \<and> length (items q) \<noteq> capacity q"
    and push_refused: "\<not> snd (push q x) \<Longrightarrow> fst (push q x) = q"
    and push_accepted: "snd (push q x) \<Longrightarrow> items (fst (push q x)) = items q @ [x] \<and>
      capacity (fst (push q x)) = capacity q \<and> is_shut (fst (push q x)) = is_shut q"
    and pop_front: "items q = x # xs \<Longrightarrow> snd (pop q) = Some x \<and> items (fst (pop q)) = xs"
    and pop_empty: "items q = [] \<Longrightarrow> snd (pop q) = None \<and> items (fst (pop q)) = []"
    and pop_keeps: "capacity (fst (pop q)) = capacity q \<and> is_shut (fst (pop q)) = is_shut q"
    and wait_law: "wait q = (if is_shut q \<or> items q \<noteq> [] then Some (pop q) else None)"
    and shut_law: "items (shut q) = items q \<and> capacity (shut q) = capacity q \<and> is_shut (shut q)"
begin

text \<open>A call, with the values it has put into the queue and taken out of it; a waiting thread does nothing.\<close>

fun call :: "'a queue_call \<Rightarrow> 'q \<Rightarrow> 'q \<times> 'a list \<times> 'a list" where
  "call (Push x) q = (if snd (push q x) then (fst (push q x), [x], []) else (fst (push q x), [], []))"
| "call Pop q = (fst (pop q), [], case snd (pop q) of None \<Rightarrow> [] | Some x \<Rightarrow> [x])"
| "call WaitPop q = (case wait q of None \<Rightarrow> (q, [], []) | Some (q', v) \<Rightarrow> (q', [], case v of None \<Rightarrow> [] | Some x \<Rightarrow> [x]))"
| "call Close q = (shut q, [], [])"

fun calls :: "'a queue_call list \<Rightarrow> 'q \<Rightarrow> 'q \<times> 'a list \<times> 'a list" where
  "calls [] q = (q, [], [])"
| "calls (c # cs) q =
     (case call c q of (q1, acc, got) \<Rightarrow> case calls cs q1 of (q', acc', got') \<Rightarrow> (q', acc @ acc', got @ got'))"

definition follows :: "'q \<Rightarrow> 'q \<times> 'a list \<times> 'a list \<Rightarrow> bool" where
  "follows q r \<longleftrightarrow> (case r of (q', acc, got) \<Rightarrow> items q @ acc = got @ items q' \<and> capacity q' = capacity q \<and>
     (is_shut q \<longrightarrow> is_shut q' \<and> acc = []) \<and> (length (items q) \<le> capacity q \<longrightarrow> length (items q') \<le> capacity q'))"

lemma pop_follows: "follows q (fst (pop q), [], case snd (pop q) of None \<Rightarrow> [] | Some x \<Rightarrow> [x])"
  using pop_front [of q] pop_empty [of q] pop_keeps [of q] by (cases "items q") (simp_all add: follows_def)

lemma call_follows: "follows q (call c q)"
proof (cases c)
  case (Push x)
  then show ?thesis using push_accepts [of q x] push_refused [of q x] push_accepted [of q x]
    by (cases "snd (push q x)") (simp_all add: follows_def)
next
  case WaitPop
  show ?thesis
  proof (cases "is_shut q \<or> items q \<noteq> []")
    case True
    with WaitPop pop_follows [of q] show ?thesis by (simp add: wait_law case_prod_beta)
  next
    case False
    with WaitPop show ?thesis by (simp add: wait_law follows_def)
  qed
qed (simp_all add: pop_follows, simp add: follows_def shut_law)

lemma calls_follow: "follows q (calls cs q)"
proof (induction cs arbitrary: q)
  case (Cons c cs)
  obtain q1 a1 g1 where c: "call c q = (q1, a1, g1)" by (rule prod_cases3)
  obtain q2 a2 g2 where r: "calls cs q1 = (q2, a2, g2)" by (rule prod_cases3)
  from call_follows [of q c] Cons.IH [of q1] show ?case
    by (simp add: c r follows_def) (metis append.assoc)
qed (simp add: follows_def)

end

interpretation bq: bounded_fifo try_push try_pop wait_pop close bq_items bq_capacity bq_closed
  by unfold_locales (auto simp: try_push_def try_pop_def wait_pop_def close_def split: list.splits)

text \<open>
  The bounded queue is a FIFO queue. Under any interleaving of pushes, pops, waiting pops and
  closing, the values taken out so far followed by those still in the queue are exactly the accepted
  values in the order of acceptance; the queue never holds more than its capacity.
\<close>

lemma queue_fifo:
  "case bq.calls cs (new_queue n) of (q, accepted, taken) \<Rightarrow>
     accepted = taken @ bq_items q \<and> length (bq_items q) \<le> n \<and> bq_capacity q = n"
  using bq.calls_follow [of "new_queue n" cs] by (auto simp: bq.follows_def new_queue_def)

lemma wait_pop_enabled: "wait_pop q = (if bq_closed q \<or> bq_items q \<noteq> [] then Some (try_pop q) else None)"
  by (rule bq.wait_law)

end
