(* ===== verification/Wire_Frames.thy ===== *)
theory Wire_Frames
  imports Wire_Protocol
begin

text \<open>
  Properties of the frame codec of the wire protocol: no decoder reads outside its input, decoding
  inverts encoding and accepts nothing else, a verdict never changes when more bytes arrive, and the
  conversions between matching and protocol values are inverse to each other.
\<close>

section \<open>Integers\<close>

lemma wire_append_shifts_be: "wire_append_shifts bytes v (8 * n) = bytes @ be_bytes (Suc n) v"
proof (induction n arbitrary: bytes)
  case 0
  then show ?case by (simp add: wire_append_shifts.simps wire_append_u8_def be_bytes_def)
next
  case (Suc n)
  have "wire_append_shifts bytes v (8 * Suc n) =
      wire_append_shifts (wire_append_u8 bytes (ucast (drop_bit (8 * Suc n) v))) v (8 * n)"
    by (subst wire_append_shifts.simps) (simp add: Let_def)
  also have "\<dots> = bytes @ be_bytes (Suc (Suc n)) v"
    unfolding Suc wire_append_u8_def by (simp add: be_bytes_top [of "Suc n"])
  finally show ?case .
qed

interpretation wu16: big_endian wire_append_u16 wire_read_u16 2
proof
  show "LENGTH(16) = 8 * 2" by simp
  show "wire_append_u16 bytes v = bytes @ be_bytes 2 v" for bytes v
    by (simp add: wire_append_u16_def wire_append_u8_def be_bytes_def upt_rec)
  show "wire_read_u16 bytes offset = (if offset + 2 \<le> length bytes
      then Done (be_value (take 2 (drop offset bytes))) else Undefined)" for bytes offset
  proof -
    have "wire_read_u16 bytes offset = read_loop bytes offset 2 0"
      by (simp add: wire_read_u16_def numeral_2_eq_2)
    then show ?thesis by (simp add: read_loop_eq be_value_def)
  qed
qed

interpretation wu32: big_endian wire_append_u32 wire_read_u32 4
proof
  show "LENGTH(32) = 8 * 4" by simp
  show "wire_append_u32 bytes v = bytes @ be_bytes 4 v" for bytes v
    using wire_append_shifts_be [of bytes v 3] by (simp add: wire_append_u32_def)
  show "wire_read_u32 bytes offset = (if offset + 4 \<le> length bytes
      then Done (be_value (take 4 (drop offset bytes))) else Undefined)" for bytes offset
    by (simp add: wire_read_u32_def read_loop_eq be_value_def)
qed

interpretation wu64: big_endian wire_append_u64 wire_read_u64 8
proof
  show "LENGTH(64) = 8 * 8" by simp
  show "wire_append_u64 bytes v = bytes @ be_bytes 8 v" for bytes v
    using wire_append_shifts_be [of bytes v 7] by (simp add: wire_append_u64_def)
  show "wire_read_u64 bytes offset = (if offset + 8 \<le> length bytes
      then Done (be_value (take 8 (drop offset bytes))) else Undefined)" for bytes offset
    by (simp add: wire_read_u64_def read_loop_eq be_value_def)
qed

lemmas wire_append = wire_append_u8_def wu16.append_word wu32.append_word wu64.append_word
lemmas wire_read = wu16.read_word wu32.read_word wu64.read_word
lemmas wire_read_prefix = wu16.read_prefix wu32.read_prefix wu64.read_prefix

section \<open>Headers\<close>

lemma decode_message_type_Some:
  "decode_message_type raw = Some type \<longleftrightarrow> raw = message_type_value type"
  by (cases type) (auto simp: decode_message_type_def)

definition payload_size :: "WireMessageType \<Rightarrow> nat" where
  "payload_size type = the (wire_payload_length type)"

lemma payload_size_simps [simp]:
  "payload_size WireSubmitLimitOrder = 25" "payload_size WireCancelOrder = 8"
  "payload_size WireSubmitResult = 18" "payload_size WireCancelResult = 9"
  "payload_size WireProtocolError = 2" "payload_size WireEngineUnavailable = 1"
  by (simp_all add: payload_size_def)

lemma wire_payload_length_Some [simp]: "wire_payload_length type = Some (payload_size type)"
  by (cases type) simp_all

lemma payload_size_small: "payload_size type \<le> 25"
  by (cases type) simp_all

lemma encode_header_be:
  "encode_header type n request_id =
     be_bytes 4 kWireProtocolMagic @ be_bytes 2 kWireProtocolVersion @ be_bytes 2 (message_type_value type) @
     be_bytes 4 (of_nat n :: u32) @ be_bytes 8 (request_id_value request_id)"
  by (simp add: encode_header_def wire_append Let_def)

lemma length_encode_header [simp]: "length (encode_header type n request_id) = 20"
  by (simp add: encode_header_be)

lemma decode_header_total: "\<exists>r. decode_header bytes = Done r"
  unfolding decode_header_def by (simp add: wire_read split: option.split)

lemma decode_header_settled: "settled WireTruncatedInput (decode_header bytes) (decode_header (bytes @ tail))"
  unfolding decode_header_def
  by (intro settled_more settled_bind settled_if settled_option settled_refl; simp add: wire_read_prefix)

text \<open>The decoded header for a list that starts with an encoded one.\<close>

lemma decode_header_encoded:
  "decode_header (encode_header type (payload_size type) request_id @ tail) =
     Done (Inr \<lparr>hdr_type = type, hdr_payload_length = of_nat (payload_size type), hdr_request_id = request_id\<rparr>)"
proof -
  let ?n = "of_nat (payload_size type) :: u32"
  have n: "unat ?n = payload_size type" "payload_size type \<le> 4096"
    by (cases type; simp)+
  have reads:
    "wire_read_u32 (encode_header type (payload_size type) request_id @ tail) 0 = Done kWireProtocolMagic"
    "wire_read_u16 (encode_header type (payload_size type) request_id @ tail) 4 = Done kWireProtocolVersion"
    "wire_read_u16 (encode_header type (payload_size type) request_id @ tail) 6 = Done (message_type_value type)"
    "wire_read_u32 (encode_header type (payload_size type) request_id @ tail) 8 = Done ?n"
    "wire_read_u64 (encode_header type (payload_size type) request_id @ tail) 12 = Done (request_id_value request_id)"
    using wu32.read_encoded [of "[]" 0]
      wu16.read_encoded [of "be_bytes 4 kWireProtocolMagic" 4]
      wu16.read_encoded [of "be_bytes 4 kWireProtocolMagic @ be_bytes 2 kWireProtocolVersion" 6]
      wu32.read_encoded [of "be_bytes 4 kWireProtocolMagic @ be_bytes 2 kWireProtocolVersion @ be_bytes 2 (message_type_value type)" 8]
      wu64.read_encoded [of "be_bytes 4 kWireProtocolMagic @ be_bytes 2 kWireProtocolVersion @ be_bytes 2 (message_type_value type) @ be_bytes 4 ?n" 12]
    by (simp_all add: encode_header_be)
  have type: "decode_message_type (message_type_value type) = Some type"
    by (simp add: decode_message_type_Some)
  show ?thesis unfolding decode_header_def by (simp add: reads type n not_less)
qed

lemma take_split: "take a xs @ take b (drop a xs) = take (a + b) xs"
  by (simp add: take_add)

text \<open>A header is accepted only if it is an encoded one.\<close>

lemma decode_header_Inr:
  assumes "decode_header bytes = Done (Inr h)"
  shows "20 \<le> length bytes" "take 20 bytes = encode_header (hdr_type h) (payload_size (hdr_type h)) (hdr_request_id h)"
    "unat (hdr_payload_length h) = payload_size (hdr_type h)"
proof -
  from assms obtain type len rid where
    r: "wire_read_u32 bytes 0 = Done kWireProtocolMagic" "wire_read_u16 bytes 4 = Done kWireProtocolVersion"
       "wire_read_u16 bytes 6 = Done (message_type_value type)" "wire_read_u32 bytes 8 = Done len"
       "wire_read_u64 bytes 12 = Done rid" and len: "unat len = payload_size type" and
    h: "h = \<lparr>hdr_type = type, hdr_payload_length = len, hdr_request_id = RequestId rid\<rparr>"
    unfolding decode_header_def
    by (auto simp: obind_eq_Done decode_message_type_Some split: if_splits option.splits)
  note d = wu32.read_determines [OF r(1)] wu16.read_determines [OF r(2)] wu16.read_determines [OF r(3)]
    wu32.read_determines [OF r(4)] wu64.read_determines [OF r(5)]
  show "20 \<le> length bytes" using d by simp
  show "unat (hdr_payload_length h) = payload_size (hdr_type h)" using h len by simp
  have "take 20 bytes = take 4 (drop 0 bytes) @ take 2 (drop 4 bytes) @ take 2 (drop 6 bytes) @
      take 4 (drop 8 bytes) @ take 8 (drop 12 bytes)"
    using take_split [of 12 bytes 8, symmetric] take_split [of 8 bytes 4, symmetric]
      take_split [of 6 bytes 2, symmetric] take_split [of 4 bytes 2, symmetric] by simp
  also have "\<dots> = encode_header type (unat len) (RequestId rid)"
    unfolding d encode_header_be by simp
  finally show "take 20 bytes = encode_header (hdr_type h) (payload_size (hdr_type h)) (hdr_request_id h)"
    by (simp add: h len)
qed

section \<open>Frames\<close>

text \<open>
  What the decoders of both directions rely on: a decoder for the payload of each accepted type that
  inverts the payload encoding. From it follow the properties of the frame decoder.
\<close>

definition wire_frame :: "WireMessageType \<Rightarrow> byte list \<Rightarrow> RequestId \<Rightarrow> byte list" where
  "wire_frame type payload request_id = encode_header type (payload_size type) request_id @ payload"

lemma subspan_20: "20 + n \<le> length bytes \<Longrightarrow> subspan bytes 20 n = Done (take n (drop 20 bytes))"
  by (simp add: subspan_def)

lemma split_at: "n + k \<le> length xs \<Longrightarrow> drop n xs = take k (drop n xs) @ drop (n + k) xs"
  by (metis append_take_drop_id drop_drop add.commute)

locale frame_codec =
  fixes message_type :: "'m \<Rightarrow> WireMessageType"
    and payload_of :: "'m \<Rightarrow> byte list"
    and valid :: "'m \<Rightarrow> bool"
    and accepts :: "WireMessageType \<Rightarrow> bool"
    and decode_message :: "WireMessageType \<Rightarrow> byte list \<Rightarrow> (WireCodecError + 'm) outcome"
    and decode_prefix :: "byte list \<Rightarrow> (WireCodecError + 'm DecodedFrame) outcome"
  assumes prefix: "decode_prefix bytes = obind (decode_header bytes) (\<lambda>header_result.
      case header_result of
        Inl error \<Rightarrow> Done (Inl error)
      | Inr header \<Rightarrow>
        if \<not> accepts (hdr_type header) then Done (Inl WireUnsupportedMessageType)
        else if \<not> has_complete_frame bytes header then Done (Inl WireTruncatedInput)
        else obind (subspan bytes 20 (unat (hdr_payload_length header))) (\<lambda>payload.
             obind (decode_message (hdr_type header) payload) (\<lambda>result.
             case result of
               Inl error \<Rightarrow> Done (Inl error)
             | Inr message \<Rightarrow>
               Done (Inr \<lparr>frame_envelope = \<lparr>env_request_id = hdr_request_id header, env_message = message\<rparr>,
                          frame_consumed = 20 + unat (hdr_payload_length header)\<rparr>))))"
    and accepts: "accepts (message_type m)"
    and length_payload: "length (payload_of m) = payload_size (message_type m)"
    and decode_payload: "valid m \<Longrightarrow> decode_message (message_type m) (payload_of m) = Done (Inr m)"
    and payload_decode: "accepts type \<Longrightarrow> length payload = payload_size type \<Longrightarrow>
      (\<exists>e. decode_message type payload = Done (Inl e)) \<or>
      (\<exists>m. valid m \<and> message_type m = type \<and> payload_of m = payload)"
begin

lemma decode_encoded:
  assumes "valid m"
  shows "decode_prefix (wire_frame (message_type m) (payload_of m) request_id @ tail) =
     Done (Inr \<lparr>frame_envelope = \<lparr>env_request_id = request_id, env_message = m\<rparr>,
                frame_consumed = 20 + payload_size (message_type m)\<rparr>)"
proof -
  let ?t = "message_type m" and ?bytes = "wire_frame (message_type m) (payload_of m) request_id @ tail"
  have n: "unat (of_nat (payload_size ?t) :: u32) = payload_size ?t" by (cases ?t) simp_all
  have len: "20 + payload_size ?t \<le> length ?bytes" by (simp add: wire_frame_def length_payload)
  have sub: "subspan ?bytes 20 (payload_size ?t) = Done (payload_of m)"
    using len by (simp add: subspan_20) (simp add: wire_frame_def length_payload)
  have "decode_header ?bytes = Done (Inr \<lparr>hdr_type = ?t,
      hdr_payload_length = of_nat (payload_size ?t), hdr_request_id = request_id\<rparr>)"
    using decode_header_encoded by (simp add: wire_frame_def)
  with len show ?thesis unfolding prefix
    by (simp add: n sub has_complete_frame_def decode_payload accepts assms)
qed

lemma decode_cases:
  obtains (error) e where "decode_prefix bytes = Done (Inl e)"
  | (frame) m request_id tail where "valid m" "bytes = wire_frame (message_type m) (payload_of m) request_id @ tail"
      "decode_prefix bytes =
         Done (Inr \<lparr>frame_envelope = \<lparr>env_request_id = request_id, env_message = m\<rparr>,
                    frame_consumed = 20 + payload_size (message_type m)\<rparr>)"
proof -
  obtain r where r: "decode_header bytes = Done r" using decode_header_total by blast
  consider (1) e where "r = Inl e"
    | (2) h where "r = Inr h" "\<not> (accepts (hdr_type h) \<and> has_complete_frame bytes h)"
    | (3) h where "r = Inr h" "accepts (hdr_type h)" "has_complete_frame bytes h" by (cases r) blast+
  then show ?thesis
  proof cases
    case 1
    with r error show ?thesis by (simp add: prefix)
  next
    case 2
    with r have "\<exists>e. decode_prefix bytes = Done (Inl e)" by (auto simp: prefix)
    with error show ?thesis by blast
  next
    case 3
    note h = decode_header_Inr [OF r [unfolded 3(1)]]
    let ?n = "payload_size (hdr_type h)" let ?p = "take ?n (drop 20 bytes)"
    from 3 have len: "20 + ?n \<le> length bytes" by (simp add: has_complete_frame_def h)
    with payload_decode [of "hdr_type h" ?p] 3 consider
      e where "decode_message (hdr_type h) ?p = Done (Inl e)"
      | m where "valid m" "message_type m = hdr_type h" "payload_of m = ?p" by auto
    then show ?thesis
    proof cases
      case 1
      with error r 3 len show ?thesis by (simp add: prefix h subspan_20)
    next
      case 2
      have "bytes = wire_frame (message_type m) (payload_of m) (hdr_request_id h) @ drop (20 + ?n) bytes"
        using h(2) append_take_drop_id [of 20 bytes] split_at [of 20 ?n bytes] len
        by (simp add: wire_frame_def 2)
      then show ?thesis using frame [OF 2(1)] decode_encoded [OF 2(1)] by metis
    qed
  qed
qed

lemma decode_settled: "settled WireTruncatedInput (decode_prefix bytes) (decode_prefix (bytes @ tail))"
proof -
  obtain r where r: "decode_header bytes = Done r" using decode_header_total by blast
  show ?thesis
  proof (cases "r = Inl WireTruncatedInput")
    case True
    with r show ?thesis by (simp add: prefix)
  next
    case False
    with r decode_header_settled [of bytes tail] have "decode_header (bytes @ tail) = Done r" by (simp add: settled_def)
    with r show ?thesis unfolding prefix
      by (cases r) (auto simp: has_complete_frame_def subspan_prefix intro!: settled_if settled_more settled_refl settled_bind)
  qed
qed

text \<open>A frame that has not arrived completely asks for more bytes and for nothing else.\<close>

lemma decode_truncated:
  assumes "valid m" and k: "k < 20 + payload_size (message_type m)"
  shows "decode_prefix (take k (wire_frame (message_type m) (payload_of m) request_id)) = Done (Inl WireTruncatedInput)"
    (is "decode_prefix (take k ?f) = _")
proof (rule ccontr)
  assume *: "decode_prefix (take k ?f) \<noteq> Done (Inl WireTruncatedInput)"
  with decode_settled [of "take k ?f" "drop k ?f"] have "decode_prefix ?f = decode_prefix (take k ?f)"
    by (simp add: settled_def)
  with decode_encoded [OF assms(1), of request_id "[]"] have
    d: "decode_prefix (take k ?f) = Done (Inr \<lparr>frame_envelope = \<lparr>env_request_id = request_id, env_message = m\<rparr>,
                frame_consumed = 20 + payload_size (message_type m)\<rparr>)" by simp
  show False
  proof (cases rule: decode_cases [of "take k ?f"])
    case (frame m' request_id' tail)
    then have "20 + payload_size (message_type m') \<le> length (take k ?f)"
      by (simp add: wire_frame_def length_payload)
    moreover have "m' = m" using frame(3) d by simp
    ultimately show ?thesis using k by simp
  qed (use d in simp)
qed

end

section \<open>Client messages\<close>

fun client_type :: "ClientMessage \<Rightarrow> WireMessageType" where
  "client_type (ClientSubmit m) = WireSubmitLimitOrder"
| "client_type (ClientCancel m) = WireCancelOrder"

fun client_payload :: "ClientMessage \<Rightarrow> byte list" where
  "client_payload (ClientSubmit m) =
     be_bytes 8 (order_id_value (slr_order_id m)) @ [slr_raw_side m] @
     be_bytes 8 (ticks (slr_limit_price m)) @ be_bytes 8 (units (slr_quantity m))"
| "client_payload (ClientCancel m) = be_bytes 8 (order_id_value (cor_order_id m))"

definition client_frame :: "ClientMessage WireEnvelope \<Rightarrow> byte list" where
  "client_frame envelope =
     wire_frame (client_type (env_message envelope)) (client_payload (env_message envelope)) (env_request_id envelope)"

lemma length_client_payload [simp]: "length (client_payload m) = payload_size (client_type m)"
  by (cases m) simp_all

lemma length_client_frame: "length (client_frame envelope) = 20 + payload_size (client_type (env_message envelope))"
  by (simp add: client_frame_def wire_frame_def)

lemma encode_client_frame_eq: "encode_client_frame envelope = Inr (client_frame envelope)"
  by (cases "env_message envelope")
     (simp_all add: encode_client_frame_def client_frame_def wire_frame_def wire_append Let_def)

lemma decode_client_payload: "decode_client_message (client_type m) (client_payload m) = Done m"
proof (cases m)
  case (ClientSubmit r)
  let ?a = "order_id_value (slr_order_id r)" and ?p = "ticks (slr_limit_price r)" and ?q = "units (slr_quantity r)"
  have "wire_read_u64 (client_payload m) 0 = Done ?a" "byte_at (client_payload m) 8 = Done (slr_raw_side r)"
    "wire_read_u64 (client_payload m) 9 = Done ?p" "wire_read_u64 (client_payload m) 17 = Done ?q"
    using wu64.read_encoded [of "[]" 0 ?a] wu64.read_encoded [of "be_bytes 8 ?a @ [slr_raw_side r]" 9 ?p]
      wu64.read_encoded [of "be_bytes 8 ?a @ [slr_raw_side r] @ be_bytes 8 ?p" 17 ?q "[]"]
    by (simp_all add: ClientSubmit byte_at_def nth_append)
  then show ?thesis by (simp add: ClientSubmit decode_client_message_def)
next
  case (ClientCancel r)
  then show ?thesis using wu64.read_encoded [of "[]" 0 "order_id_value (cor_order_id r)" "[]"]
    by (simp add: decode_client_message_def)
qed

text \<open>Every payload of the right size is the encoding of a message.\<close>

lemma client_payload_split:
  assumes "is_client_message_type type" "length payload = payload_size type"
  obtains m where "client_type m = type" "client_payload m = payload"
proof (cases "type = WireSubmitLimitOrder")
  case True
  with assms have len: "length payload = 25" by simp
  obtain a p q :: u64 where v: "wire_read_u64 payload 0 = Done a" "wire_read_u64 payload 9 = Done p"
    "wire_read_u64 payload 17 = Done q"
    using wu64.read_in_range len by fastforce
  have "payload = take 8 (drop 0 payload) @ [payload ! 8] @ take 8 (drop 9 payload) @ take 8 (drop 17 payload)"
    using split_at [of 0 8 payload] split_at [of 9 8 payload] Cons_nth_drop_Suc [of 8 payload] len by simp
  also have "\<dots> = client_payload (ClientSubmit \<lparr>slr_order_id = OrderId a, slr_raw_side = payload ! 8,
      slr_limit_price = Price p, slr_quantity = Quantity q\<rparr>)"
    unfolding wu64.read_determines(1) [OF v(1)] wu64.read_determines(1) [OF v(2)] wu64.read_determines(1) [OF v(3)]
    by simp
  finally show ?thesis using True that by (metis client_type.simps(1))
next
  case False
  with assms have type: "type = WireCancelOrder" and len: "length payload = 8"
    by (auto simp: is_client_message_type_def)
  obtain a :: u64 where v: "wire_read_u64 payload 0 = Done a" using wu64.read_in_range [of 0 payload] len by auto
  have "client_payload (ClientCancel \<lparr>cor_order_id = OrderId a\<rparr>) = payload"
    using wu64.read_determines(1) [OF v] len by simp
  with type that show ?thesis by (metis client_type.simps(2))
qed

interpretation client: frame_codec client_type client_payload "\<lambda>m. True" is_client_message_type
  "\<lambda>type payload. obind (decode_client_message type payload) (\<lambda>m. Done (Inr m))" decode_client_frame_prefix
proof
  show "decode_client_frame_prefix bytes = obind (decode_header bytes) (\<lambda>header_result.
      case header_result of
        Inl error \<Rightarrow> Done (Inl error)
      | Inr header \<Rightarrow>
        if \<not> is_client_message_type (hdr_type header) then Done (Inl WireUnsupportedMessageType)
        else if \<not> has_complete_frame bytes header then Done (Inl WireTruncatedInput)
        else obind (subspan bytes 20 (unat (hdr_payload_length header))) (\<lambda>payload.
             obind (obind (decode_client_message (hdr_type header) payload) (\<lambda>m. Done (Inr m))) (\<lambda>result.
             case result of
               Inl error \<Rightarrow> Done (Inl error)
             | Inr message \<Rightarrow>
               Done (Inr \<lparr>frame_envelope = \<lparr>env_request_id = hdr_request_id header, env_message = message\<rparr>,
                          frame_consumed = 20 + unat (hdr_payload_length header)\<rparr>))))" for bytes
    unfolding decode_client_frame_prefix_def obind_assoc obind.simps sum.case by (rule refl)
  show "is_client_message_type (client_type m)" for m by (cases m) (simp_all add: is_client_message_type_def)
  show "obind (decode_client_message (client_type m) (client_payload m)) (\<lambda>m. Done (Inr m)) = Done (Inr m)" for m
    by (simp add: decode_client_payload)
  show "(\<exists>e. obind (decode_client_message type payload) (\<lambda>m. Done (Inr m)) = Done (Inl e)) \<or>
      (\<exists>m. True \<and> client_type m = type \<and> client_payload m = payload)"
    if "is_client_message_type type" "length payload = payload_size type" for type payload
    using client_payload_split [OF that] by metis
qed simp

section \<open>Server messages\<close>

fun server_type :: "ServerMessage \<Rightarrow> WireMessageType" where
  "server_type (ServerSubmitResult m) = WireSubmitResult"
| "server_type (ServerCancelResult m) = WireCancelResult"
| "server_type (ServerProtocolError m) = WireProtocolError"
| "server_type (ServerEngineUnavailable m) = WireEngineUnavailable"

fun server_payload :: "ServerMessage \<Rightarrow> byte list" where
  "server_payload (ServerSubmitResult m) =
     [submit_status_value (srr_status m), rejection_code_value (srr_rejection_code m)] @
     be_bytes 8 (units (srr_executed_quantity m)) @ be_bytes 8 (units (srr_resting_quantity m))"
| "server_payload (ServerCancelResult m) =
     cancel_status_value (crr_status m) # be_bytes 8 (units (crr_cancelled_quantity m))"
| "server_payload (ServerProtocolError m) = be_bytes 2 (protocol_error_value (per_code m))"
| "server_payload (ServerEngineUnavailable m) = [unavailable_value (eur_code m)]"

text \<open>The enumerators of a message that may be sent are the named ones, and they fit together.\<close>

fun server_valid :: "ServerMessage \<Rightarrow> bool" where
  "server_valid (ServerSubmitResult m) \<longleftrightarrow>
     (srr_status m = WireAccepted \<and> srr_rejection_code m = WireNone) \<or>
     (srr_status m = WireRejected \<and> 1 \<le> rejection_code_value (srr_rejection_code m) \<and>
      rejection_code_value (srr_rejection_code m) \<le> 8)"
| "server_valid (ServerCancelResult m) \<longleftrightarrow> crr_status m = WireCancelled \<or> crr_status m = WireNotFound"
| "server_valid (ServerProtocolError m) \<longleftrightarrow>
     1 \<le> protocol_error_value (per_code m) \<and> protocol_error_value (per_code m) \<le> 7"
| "server_valid (ServerEngineUnavailable m) \<longleftrightarrow> eur_code m = WireUnavailable"

definition server_frame :: "ServerMessage WireEnvelope \<Rightarrow> byte list" where
  "server_frame envelope =
     wire_frame (server_type (env_message envelope)) (server_payload (env_message envelope)) (env_request_id envelope)"

lemma length_server_payload [simp]: "length (server_payload m) = payload_size (server_type m)"
  by (cases m) simp_all

lemma length_server_frame: "length (server_frame envelope) = 20 + payload_size (server_type (env_message envelope))"
  by (simp add: server_frame_def wire_frame_def)

lemma unat_word_eq: "v = w \<longleftrightarrow> unat v = unat w"
  by (rule word_eq_iff_unsigned)

lemma word_small_cases:
  fixes w :: "'a::len word"
  assumes "8 \<le> LENGTH('a)"
  shows "w \<le> 8 \<longleftrightarrow> w = 0 \<or> w = 1 \<or> w = 2 \<or> w = 3 \<or> w = 4 \<or> w = 5 \<or> w = 6 \<or> w = 7 \<or> w = 8"
proof -
  have "2 ^ 8 \<le> (2 :: nat) ^ LENGTH('a)" using assms by (intro power_increasing) simp_all
  then have n: "unat (of_nat k :: 'a word) = k" if "k \<le> 8" for k
    using that by (simp add: unat_of_nat)
  have eq: "w = of_nat k \<longleftrightarrow> unat w = k" if "k \<le> 8" for k
    using n [OF that] by (simp add: unat_word_eq)
  have "w \<le> 8 \<longleftrightarrow> unat w \<le> 8" using n [of 8] by (simp add: word_le_nat_alt)
  also have "\<dots> \<longleftrightarrow> unat w = 0 \<or> unat w = 1 \<or> unat w = 2 \<or> unat w = 3 \<or> unat w = 4 \<or>
      unat w = 5 \<or> unat w = 6 \<or> unat w = 7 \<or> unat w = 8" by linarith
  finally show ?thesis
    using eq [of 0] eq [of 1] eq [of 2] eq [of 3] eq [of 4] eq [of 5] eq [of 6] eq [of 7] eq [of 8] by simp
qed

lemma is_known_rejection_code_le: "is_known_rejection_code code \<longleftrightarrow> rejection_code_value code \<le> 8"
  by (cases code) (simp add: is_known_rejection_code_def word_small_cases)

lemma decode_protocol_error_Some:
  "decode_protocol_error_code v = Some c \<longleftrightarrow> 1 \<le> v \<and> v \<le> 7 \<and> c = WireProtocolErrorCode v"
proof -
  have "1 \<le> v \<and> v \<le> 7 \<longleftrightarrow> v \<le> 8 \<and> v \<noteq> 0 \<and> v \<noteq> 8"
    by (simp add: word_le_nat_alt unat_word_eq) arith
  then show ?thesis by (auto simp: decode_protocol_error_code_def word_small_cases)
qed

lemma decode_submit_status_Some:
  "decode_submit_status v = Some st \<longleftrightarrow> st = WireSubmitStatus v \<and> (v = 1 \<or> v = 2)"
  by (auto simp: decode_submit_status_def)

lemma decode_cancel_status_Some:
  "decode_cancel_status v = Some st \<longleftrightarrow> st = WireCancelStatus v \<and> (v = 1 \<or> v = 2)"
  by (auto simp: decode_cancel_status_def)

lemma valid_submit_result_iff: "valid_submit_result m \<longleftrightarrow> server_valid (ServerSubmitResult m)"
  by (cases "srr_rejection_code m")
     (auto simp: valid_submit_result_def is_known_rejection_code_le word_neq_0_conv word_le_nat_alt
       word_less_nat_alt unat_eq_0)

lemma encode_server_frame_eq:
  "encode_server_frame envelope =
     (if server_valid (env_message envelope) then Inr (server_frame envelope) else Inl WireMalformedPayload)"
proof (cases "env_message envelope")
  case (ServerProtocolError m)
  have "decode_protocol_error_code (protocol_error_value (per_code m)) = None \<longleftrightarrow> \<not> server_valid (ServerProtocolError m)"
    using decode_protocol_error_Some by (auto simp flip: not_Some_eq)
  then show ?thesis using ServerProtocolError
    by (simp add: encode_server_frame_def server_frame_def wire_frame_def wire_append Let_def)
qed (simp_all add: encode_server_frame_def server_frame_def wire_frame_def wire_append Let_def
       valid_submit_result_iff valid_cancel_result_def)

lemma decode_server_payload:
  assumes "server_valid m"
  shows "decode_server_message (server_type m) (server_payload m) = Done (Inr m)"
proof (cases m)
  case (ServerSubmitResult r)
  let ?x = "units (srr_executed_quantity r)" and ?q = "units (srr_resting_quantity r)"
  have reads: "byte_at (server_payload m) 0 = Done (submit_status_value (srr_status r))"
    "byte_at (server_payload m) 1 = Done (rejection_code_value (srr_rejection_code r))"
    "wire_read_u64 (server_payload m) 2 = Done ?x" "wire_read_u64 (server_payload m) 10 = Done ?q"
    using wu64.read_encoded [of "[submit_status_value (srr_status r), rejection_code_value (srr_rejection_code r)]" 2 ?x "be_bytes 8 ?q"]
      wu64.read_encoded [of "[submit_status_value (srr_status r), rejection_code_value (srr_rejection_code r)] @ be_bytes 8 ?x" 10 ?q "[]"]
    by (simp_all add: ServerSubmitResult byte_at_def)
  have v: "valid_submit_result r" using assms by (simp add: ServerSubmitResult valid_submit_result_iff)
  then have "decode_submit_status (submit_status_value (srr_status r)) = Some (srr_status r)"
    "decode_rejection_code (rejection_code_value (srr_rejection_code r)) = Some (srr_rejection_code r)"
    by (auto simp: decode_submit_status_Some valid_submit_result_def decode_rejection_code_def)
  with reads v show ?thesis by (cases r) (simp add: ServerSubmitResult decode_server_message_def Let_def)
next
  case (ServerCancelResult r)
  have "byte_at (server_payload m) 0 = Done (cancel_status_value (crr_status r))"
    "wire_read_u64 (server_payload m) 1 = Done (units (crr_cancelled_quantity r))"
    using wu64.read_encoded [of "[cancel_status_value (crr_status r)]" 1 "units (crr_cancelled_quantity r)" "[]"]
    by (simp_all add: ServerCancelResult byte_at_def)
  moreover have "decode_cancel_status (cancel_status_value (crr_status r)) = Some (crr_status r)" "valid_cancel_result r"
    using assms by (auto simp: ServerCancelResult decode_cancel_status_Some valid_cancel_result_def)
  ultimately show ?thesis by (cases r) (simp add: ServerCancelResult decode_server_message_def Let_def)
next
  case (ServerProtocolError r)
  have "wire_read_u16 (server_payload m) 0 = Done (protocol_error_value (per_code r))"
    using wu16.read_encoded [of "[]" 0 "protocol_error_value (per_code r)" "[]"] by (simp add: ServerProtocolError)
  moreover have "decode_protocol_error_code (protocol_error_value (per_code r)) = Some (per_code r)"
    using assms by (simp add: decode_protocol_error_Some ServerProtocolError)
  ultimately show ?thesis by (simp add: ServerProtocolError decode_server_message_def)
next
  case (ServerEngineUnavailable r)
  then show ?thesis using assms
    by (simp add: decode_server_message_def byte_at_def decode_engine_unavailable_code_def)
qed

lemma server_submit_split:
  assumes len: "length payload = 18"
  shows "(\<exists>e. decode_server_message WireSubmitResult payload = Done (Inl e)) \<or>
    (\<exists>m. server_valid m \<and> server_type m = WireSubmitResult \<and> server_payload m = payload)"
proof -
  obtain x q :: u64 where v: "wire_read_u64 payload 2 = Done x" "wire_read_u64 payload 10 = Done q"
    using wu64.read_in_range len by fastforce
  define m where "m = \<lparr>srr_status = WireSubmitStatus (payload ! 0), srr_rejection_code = WireRejectionCode (payload ! 1),
    srr_executed_quantity = Quantity x, srr_resting_quantity = Quantity q\<rparr>"
  have "payload = [payload ! 0, payload ! 1] @ take 8 (drop 2 payload) @ take 8 (drop 10 payload)"
    using split_at [of 2 8 payload] Cons_nth_drop_Suc [of 0 payload] Cons_nth_drop_Suc [of 1 payload] len
    by (simp add: numeral_2_eq_2)
  also have "\<dots> = server_payload (ServerSubmitResult m)"
    unfolding wu64.read_determines(1) [OF v(1)] wu64.read_determines(1) [OF v(2)] by (simp add: m_def)
  finally have payload: "server_payload (ServerSubmitResult m) = payload" by simp
  show ?thesis
  proof (cases "valid_submit_result m")
    case True
    with payload show ?thesis by (metis valid_submit_result_iff server_type.simps(1))
  next
    case False
    then have "\<exists>e. decode_server_message WireSubmitResult payload = Done (Inl e)"
      using len v by (auto simp: decode_server_message_def byte_at_def Let_def m_def
        decode_submit_status_Some decode_rejection_code_def split: option.splits)
    then show ?thesis ..
  qed
qed

lemma server_cancel_split:
  assumes len: "length payload = 9"
  shows "(\<exists>e. decode_server_message WireCancelResult payload = Done (Inl e)) \<or>
    (\<exists>m. server_valid m \<and> server_type m = WireCancelResult \<and> server_payload m = payload)"
proof -
  obtain x :: u64 where v: "wire_read_u64 payload 1 = Done x" using wu64.read_in_range len by fastforce
  define m where "m = \<lparr>crr_status = WireCancelStatus (payload ! 0), crr_cancelled_quantity = Quantity x\<rparr>"
  have "payload = payload ! 0 # take 8 (drop 1 payload)"
    using Cons_nth_drop_Suc [of 0 payload] len by simp
  also have "\<dots> = server_payload (ServerCancelResult m)"
    unfolding wu64.read_determines(1) [OF v] by (simp add: m_def)
  finally have payload: "server_payload (ServerCancelResult m) = payload" by simp
  show ?thesis
  proof (cases "valid_cancel_result m")
    case True
    with payload show ?thesis by (metis valid_cancel_result_def server_valid.simps(2) server_type.simps(2))
  next
    case False
    then have "\<exists>e. decode_server_message WireCancelResult payload = Done (Inl e)"
      using len v by (auto simp: decode_server_message_def byte_at_def Let_def m_def valid_cancel_result_def
        decode_cancel_status_Some split: option.splits)
    then show ?thesis ..
  qed
qed

lemma server_error_split:
  assumes len: "length payload = 2"
  shows "(\<exists>e. decode_server_message WireProtocolError payload = Done (Inl e)) \<or>
    (\<exists>m. server_valid m \<and> server_type m = WireProtocolError \<and> server_payload m = payload)"
proof -
  obtain x :: u16 where v: "wire_read_u16 payload 0 = Done x" using wu16.read_in_range len by fastforce
  have payload: "server_payload (ServerProtocolError \<lparr>per_code = WireProtocolErrorCode x\<rparr>) = payload"
    using wu16.read_determines(1) [OF v] len by simp
  show ?thesis
  proof (cases "1 \<le> x \<and> x \<le> 7")
    case True
    with payload show ?thesis
      by (intro disjI2 exI [of _ "ServerProtocolError \<lparr>per_code = WireProtocolErrorCode x\<rparr>"]) simp
  next
    case False
    then have "decode_protocol_error_code x = None" using decode_protocol_error_Some [of x] by (cases "decode_protocol_error_code x") auto
    with v show ?thesis by (simp add: decode_server_message_def)
  qed
qed

lemma server_unavailable_split:
  assumes len: "length payload = 1"
  shows "(\<exists>e. decode_server_message WireEngineUnavailable payload = Done (Inl e)) \<or>
    (\<exists>m. server_valid m \<and> server_type m = WireEngineUnavailable \<and> server_payload m = payload)"
proof -
  from len obtain b where b: "payload = [b]" by (auto simp: length_Suc_conv)
  show ?thesis
  proof (cases "b = 1")
    case True
    with b show ?thesis
      by (intro disjI2 exI [of _ "ServerEngineUnavailable \<lparr>eur_code = WireUnavailable\<rparr>"]) simp
  qed (simp add: b decode_server_message_def byte_at_def decode_engine_unavailable_code_def)
qed

interpretation server: frame_codec server_type server_payload server_valid is_server_message_type
  decode_server_message decode_server_frame_prefix
proof
  show "is_server_message_type (server_type m)" for m by (cases m) (simp_all add: is_server_message_type_def)
  show "(\<exists>e. decode_server_message type payload = Done (Inl e)) \<or>
      (\<exists>m. server_valid m \<and> server_type m = type \<and> server_payload m = payload)"
    if "is_server_message_type type" "length payload = payload_size type" for type payload
    using that server_submit_split [of payload] server_cancel_split [of payload]
      server_error_split [of payload] server_unavailable_split [of payload]
    by (cases type) (simp_all add: is_server_message_type_def)
qed (simp_all add: decode_server_frame_prefix_def decode_server_payload)

section \<open>Properties\<close>

text \<open>
  Client frames round trip. Every client message can be encoded, in at most 45 bytes, and
  decoding the bytes, whatever follows them, gives back the message, its request id and its size.
  Every strict prefix of the frame asks for more input.
\<close>

lemma client_frame_roundtrip:
  "\<exists>bytes. encode_client_frame envelope = Inr bytes \<and> length bytes \<le> 45 \<and>
     (\<forall>tail. decode_client_frame_prefix (bytes @ tail) =
        Done (Inr \<lparr>frame_envelope = envelope, frame_consumed = length bytes\<rparr>)) \<and>
     (\<forall>k. decode_client_frame_prefix (take k bytes) =
        (if k < length bytes then Done (Inl WireTruncatedInput)
         else Done (Inr \<lparr>frame_envelope = envelope, frame_consumed = length bytes\<rparr>)))"
proof -
  have d: "decode_client_frame_prefix (client_frame envelope @ tail) =
      Done (Inr \<lparr>frame_envelope = envelope, frame_consumed = length (client_frame envelope)\<rparr>)" for tail
    using client.decode_encoded by (simp add: client_frame_def length_client_frame [unfolded client_frame_def])
  moreover have "decode_client_frame_prefix (take k (client_frame envelope)) = Done (Inl WireTruncatedInput)"
    if "k < length (client_frame envelope)" for k
    using that client.decode_truncated by (simp add: client_frame_def length_client_frame [unfolded client_frame_def])
  moreover have "length (client_frame envelope) \<le> 45"
    using payload_size_small by (simp add: length_client_frame)
  ultimately show ?thesis using d [of "[]"] by (simp add: encode_client_frame_eq)
qed

text \<open>
  C32. Server frames round trip. The encoder refuses a message exactly when one of its enumerators is
  not a named one or when status and rejection code contradict each other; every other message is
  encoded, and decoding the bytes, whatever follows them, gives it back.
\<close>

theorem server_frame_roundtrip:
  "if server_valid (env_message envelope)
   then \<exists>bytes. encode_server_frame envelope = Inr bytes \<and>
     (\<forall>tail. decode_server_frame_prefix (bytes @ tail) =
        Done (Inr \<lparr>frame_envelope = envelope, frame_consumed = length bytes\<rparr>)) \<and>
     decode_server_frame bytes = Done (Inr \<lparr>frame_envelope = envelope, frame_consumed = length bytes\<rparr>)
   else encode_server_frame envelope = Inl WireMalformedPayload"
proof (cases "server_valid (env_message envelope)")
  case True
  have d: "decode_server_frame_prefix (server_frame envelope @ tail) =
      Done (Inr \<lparr>frame_envelope = envelope, frame_consumed = length (server_frame envelope)\<rparr>)" for tail
    using server.decode_encoded [OF True] by (simp add: server_frame_def length_server_frame [unfolded server_frame_def])
  from True d d [of "[]"] show ?thesis
    by (simp add: encode_server_frame_eq decode_server_frame_def require_exact_frame_def)
qed (simp add: encode_server_frame_eq)

text \<open>
  C33. The decoders accept nothing but encoder output and read only bytes they were given: on every
  byte sequence they return, and a frame is returned only if the consumed bytes are exactly what
  the encoder produces for it.
\<close>

theorem wire_decode_canonical:
  "(\<exists>r. decode_client_frame_prefix bytes = Done r \<and>
      (case r of Inl e \<Rightarrow> True
       | Inr f \<Rightarrow> encode_client_frame (frame_envelope f) = Inr (take (frame_consumed f) bytes) \<and>
                  frame_consumed f \<le> length bytes)) \<and>
   (\<exists>r. decode_server_frame_prefix bytes = Done r \<and>
      (case r of Inl e \<Rightarrow> True
       | Inr f \<Rightarrow> encode_server_frame (frame_envelope f) = Inr (take (frame_consumed f) bytes) \<and>
                  frame_consumed f \<le> length bytes))"
proof (rule conjI)
  show "\<exists>r. decode_client_frame_prefix bytes = Done r \<and>
      (case r of Inl e \<Rightarrow> True
       | Inr f \<Rightarrow> encode_client_frame (frame_envelope f) = Inr (take (frame_consumed f) bytes) \<and>
                  frame_consumed f \<le> length bytes)"
    by (cases rule: client.decode_cases [of bytes])
       (simp_all add: encode_client_frame_eq client_frame_def wire_frame_def)
  show "\<exists>r. decode_server_frame_prefix bytes = Done r \<and>
      (case r of Inl e \<Rightarrow> True
       | Inr f \<Rightarrow> encode_server_frame (frame_envelope f) = Inr (take (frame_consumed f) bytes) \<and>
                  frame_consumed f \<le> length bytes)"
    by (cases rule: server.decode_cases [of bytes])
       (simp_all add: encode_server_frame_eq server_frame_def wire_frame_def)
qed

text \<open>
  A verdict is final: unless a frame decoder asks for more input, the bytes that arrive later
  do not change its answer, be it a frame or an error.
\<close>

lemma wire_verdict_final:
  assumes "decode_client_frame_prefix bytes = Done r" and "r \<noteq> Inl WireTruncatedInput"
  shows "decode_client_frame_prefix (bytes @ tail) = Done r"
  using client.decode_settled [of bytes tail] assms by (simp add: settled_def)

text \<open>
  Protocol values. The conversions of rejection reasons and cancel statuses to their protocol
  values are total and inverse to the conversions back, no reason is sent as \<open>None\<close>, and every
  parser error that is not a request for more bytes or trailing input has a code for the peer.
\<close>

lemma protocol_values_roundtrip:
  "(\<exists>code. to_wire_rejection_code reason = Some code \<and> to_domain_rejection_reason code = Some reason \<and>
      code \<noteq> WireNone \<and> decode_rejection_code (rejection_code_value code) = Some code) \<and>
   (\<forall>code. to_domain_rejection_reason code = Some reason \<longleftrightarrow> to_wire_rejection_code reason = Some code) \<and>
   (\<exists>wire. to_wire_cancel_status status = Some wire \<and> to_domain_cancel_status wire = Some status) \<and>
   (to_wire_protocol_error_code e = None \<longleftrightarrow> e \<in> {WireTruncatedInput, WireUnexpectedTrailingBytes})"
proof (intro conjI)
  show "\<exists>code. to_wire_rejection_code reason = Some code \<and> to_domain_rejection_reason code = Some reason \<and>
      code \<noteq> WireNone \<and> decode_rejection_code (rejection_code_value code) = Some code"
    by (cases reason) (simp_all add: to_domain_rejection_reason_def decode_rejection_code_def is_known_rejection_code_def)
  show "\<forall>code. to_domain_rejection_reason code = Some reason \<longleftrightarrow> to_wire_rejection_code reason = Some code"
    by (cases reason) (auto simp: to_domain_rejection_reason_def)
  show "\<exists>wire. to_wire_cancel_status status = Some wire \<and> to_domain_cancel_status wire = Some status"
    by (cases status) (simp_all add: to_domain_cancel_status_def)
  show "to_wire_protocol_error_code e = None \<longleftrightarrow> e \<in> {WireTruncatedInput, WireUnexpectedTrailingBytes}"
    by (cases e) simp_all
qed

end
