(* ===== verification/Wire_Stream.thy ===== *)
theory Wire_Stream
  imports Wire_Frames
begin

text \<open>
  The \<open>ClientStreamParser\<close> of \<^verbatim>\<open>src/wire_protocol.cpp\<close>, which cuts the bytes of a connection into
  client messages, and its properties: it never holds more than its limit, the messages it delivers
  do not depend on how the bytes are cut into reads, and its first error is final.
\<close>

section \<open>The parser\<close>

record ClientStreamParser =
  parser_buffer :: "byte list"
  read_cursor :: nat
  maximum_buffered_bytes :: nat
  parser_failure :: "WireCodecError option"

record ClientParseFeedResult =
  feed_messages :: "ClientMessage WireEnvelope list"
  feed_error :: "WireCodecError option"

definition new_parser :: "nat \<Rightarrow> ClientStreamParser" where
  "new_parser maximum =
     \<lparr>parser_buffer = [], read_cursor = 0, maximum_buffered_bytes = maximum, parser_failure = None\<rparr>"

definition parser_fail ::
  "ClientStreamParser \<Rightarrow> ClientParseFeedResult \<Rightarrow> WireCodecError \<Rightarrow> ClientStreamParser \<times> ClientParseFeedResult" where
  "parser_fail p result error = (p\<lparr>parser_failure := Some error\<rparr>, result\<lparr>feed_error := Some error\<rparr>)"

definition compact_if_needed :: "ClientStreamParser \<Rightarrow> ClientStreamParser" where
  "compact_if_needed p =
     (if read_cursor p = 0 then p
      else if read_cursor p = length (parser_buffer p) then p\<lparr>parser_buffer := [], read_cursor := 0\<rparr>
      else if read_cursor p \<ge> length (parser_buffer p) div 2 \<or>
              length (parser_buffer p) = maximum_buffered_bytes p
           then p\<lparr>parser_buffer := drop (read_cursor p) (parser_buffer p), read_cursor := 0\<rparr>
      else p)"

lemma decode_client_progress:
  assumes "decode_client_frame_prefix bytes = Done (Inr frame)"
  shows "28 \<le> frame_consumed frame" "frame_consumed frame \<le> length bytes"
proof -
  have "8 \<le> payload_size (client_type m)" for m by (cases m) simp_all
  with assms show "28 \<le> frame_consumed frame" "frame_consumed frame \<le> length bytes"
    by (cases rule: client.decode_cases [of bytes]; simp add: wire_frame_def)+
qed

function process_available ::
  "ClientStreamParser \<Rightarrow> ClientParseFeedResult \<Rightarrow> (ClientStreamParser \<times> ClientParseFeedResult) outcome" where
  "process_available p result =
     (if parser_failure p = None \<and> read_cursor p < length (parser_buffer p)
      then case decode_client_frame_prefix (drop (read_cursor p) (parser_buffer p)) of
          Done (Inl error) \<Rightarrow>
            if error = WireTruncatedInput then Done (p, result) else Done (parser_fail p result error)
        | Done (Inr frame) \<Rightarrow>
            process_available (p\<lparr>read_cursor := read_cursor p + frame_consumed frame\<rparr>)
              (result\<lparr>feed_messages := feed_messages result @ [frame_envelope frame]\<rparr>)
        | Throws \<Rightarrow> Throws | Terminates \<Rightarrow> Terminates | Undefined \<Rightarrow> Undefined
      else Done (p, result))"
  by pat_completeness auto
termination
  by (relation "measure (\<lambda>(p, result). length (parser_buffer p) - read_cursor p)")
     (use decode_client_progress in fastforce)+

declare process_available.simps [simp del]

text \<open>
  The loop of \<open>feed\<close>. \<open>Undefined\<close> marks a buffer with more unread bytes than the maximum, where the
  unsigned subtraction \<open>maximum_buffered_bytes_ - unread\<close> would wrap around; it is not reachable.
\<close>

lemma obind_cong [fundef_cong]:
  "r = r' \<Longrightarrow> (\<And>x. r' = Done x \<Longrightarrow> f x = f' x) \<Longrightarrow> obind r f = obind r' f'"
  by (cases r') simp_all

function feed_loop ::
  "ClientStreamParser \<Rightarrow> ClientParseFeedResult \<Rightarrow> byte list \<Rightarrow> nat \<Rightarrow>
   (ClientStreamParser \<times> ClientParseFeedResult) outcome" where
  "feed_loop p result bytes consumed =
     (if consumed < length bytes
      then let p = compact_if_needed p;
               unread = length (parser_buffer p) - read_cursor p
           in if unread = maximum_buffered_bytes p
              then Done (parser_fail p result WireBufferLimitExceeded)
              else if unread > maximum_buffered_bytes p then Undefined
              else let append_count = min (maximum_buffered_bytes p - unread) (length bytes - consumed);
                       p = p\<lparr>parser_buffer := parser_buffer p @ take append_count (drop consumed bytes)\<rparr>
                   in obind (process_available p result) (\<lambda>(p, result).
                      if parser_failure p \<noteq> None then Done (p, result)
                      else feed_loop p result bytes (consumed + append_count))
      else Done (compact_if_needed p, result))"
  by pat_completeness auto
termination
  by (relation "measure (\<lambda>(p, result, bytes, consumed). length bytes - consumed)") auto

declare feed_loop.simps [simp del]

definition parser_feed ::
  "ClientStreamParser \<Rightarrow> byte list \<Rightarrow> (ClientStreamParser \<times> ClientParseFeedResult) outcome" where
  "parser_feed p bytes =
     (let result = \<lparr>feed_messages = [], feed_error = None\<rparr>
      in if parser_failure p \<noteq> None then Done (p, result\<lparr>feed_error := parser_failure p\<rparr>)
         else obind (process_available p result) (\<lambda>(p, result).
              if parser_failure p \<noteq> None then Done (p, result)
              else feed_loop p result bytes 0))"

definition parser_failed :: "ClientStreamParser \<Rightarrow> bool" where
  "parser_failed p \<longleftrightarrow> parser_failure p \<noteq> None"

definition has_incomplete_frame :: "ClientStreamParser \<Rightarrow> bool" where
  "has_incomplete_frame p \<longleftrightarrow> parser_failure p = None \<and> length (parser_buffer p) \<noteq> read_cursor p"

definition buffered_size :: "ClientStreamParser \<Rightarrow> nat" where
  "buffered_size p = length (parser_buffer p) - read_cursor p"

section \<open>The stream of a connection\<close>

text \<open>
  The reference for the parser: the messages in a byte stream, the error that ends it, if any, and
  the bytes that belong to no complete message.
\<close>

function parse_stream :: "byte list \<Rightarrow> ClientMessage WireEnvelope list \<times> WireCodecError option \<times> byte list" where
  "parse_stream bytes =
     (if bytes = [] then ([], None, [])
      else case decode_client_frame_prefix bytes of
          Done (Inr frame) \<Rightarrow>
            (let (messages, error, rest) = parse_stream (drop (frame_consumed frame) bytes)
             in (frame_envelope frame # messages, error, rest))
        | Done (Inl error) \<Rightarrow> ([], if error = WireTruncatedInput then None else Some error, bytes)
        | _ \<Rightarrow> ([], None, bytes))"
  by pat_completeness auto
termination
  by (relation "measure length") (use decode_client_progress in fastforce)+

declare parse_stream.simps [simp del]

lemma parse_stream_Nil [simp]: "parse_stream [] = ([], None, [])"
  by (simp add: parse_stream.simps)

lemma parse_stream_frame:
  "decode_client_frame_prefix bytes = Done (Inr frame) \<Longrightarrow>
   parse_stream bytes = (case parse_stream (drop (frame_consumed frame) bytes) of
     (messages, error, rest) \<Rightarrow> (frame_envelope frame # messages, error, rest))"
  using decode_client_progress [of bytes frame] by (subst parse_stream.simps) auto

lemma parse_stream_error:
  "decode_client_frame_prefix bytes = Done (Inl e) \<Longrightarrow> bytes \<noteq> [] \<Longrightarrow>
   parse_stream bytes = ([], if e = WireTruncatedInput then None else Some e, bytes)"
  by (subst parse_stream.simps) simp

lemma decode_client_returns:
  obtains (error) e where "decode_client_frame_prefix bytes = Done (Inl e)"
  | (frame) frame where "decode_client_frame_prefix bytes = Done (Inr frame)"
  by (cases rule: client.decode_cases [of bytes])

lemma decode_client_Nil: "decode_client_frame_prefix [] = Done (Inl WireTruncatedInput)"
  by (simp add: decode_client_frame_prefix_def decode_header_def)

lemma client_settled:
  "decode_client_frame_prefix bytes = Done r \<Longrightarrow> r \<noteq> Inl WireTruncatedInput \<Longrightarrow>
   decode_client_frame_prefix (bytes @ tail) = Done r"
  using client.decode_settled [of bytes tail] by (simp add: settled_def)

lemma parse_stream_append:
  "parse_stream (bytes @ tail) =
     (case parse_stream bytes of (messages, error, rest) \<Rightarrow>
        if error = None
        then (case parse_stream (rest @ tail) of (messages', error', rest') \<Rightarrow> (messages @ messages', error', rest'))
        else (messages, error, rest @ tail))"
proof (induction bytes rule: parse_stream.induct)
  case (1 bytes)
  show ?case
  proof (cases rule: decode_client_returns [of bytes])
    case (error e)
    show ?thesis
    proof (cases "bytes = [] \<or> e = WireTruncatedInput")
      case True
      then show ?thesis using error by (cases "bytes = []") (simp_all add: parse_stream_error split: prod.split)
    next
      case False
      then have "decode_client_frame_prefix (bytes @ tail) = Done (Inl e)" using error client_settled by simp
      with error False show ?thesis by (simp add: parse_stream_error)
    qed
  next
    case (frame f)
    then have ne: "bytes \<noteq> []" using decode_client_Nil by auto
    have "decode_client_frame_prefix (bytes @ tail) = Done (Inr f)" using frame client_settled by simp
    moreover have "drop (frame_consumed f) (bytes @ tail) = drop (frame_consumed f) bytes @ tail"
      using decode_client_progress(2) [OF frame] by simp
    moreover obtain ms e r where "parse_stream (drop (frame_consumed f) bytes) = (ms, e, r)" by (rule prod_cases3)
    moreover obtain ms' e' r' where "parse_stream (r @ tail) = (ms', e', r')" by (rule prod_cases3)
    ultimately show ?thesis using 1 [OF ne frame refl] frame by (simp add: parse_stream_frame)
  qed
qed

text \<open>An incomplete message is shorter than the largest client frame.\<close>

lemma decode_header_truncated: "decode_header bytes = Done (Inl WireTruncatedInput) \<Longrightarrow> length bytes < 20"
  unfolding decode_header_def by (auto simp: wire_read split: if_splits option.splits)

lemma decode_client_truncated:
  assumes "decode_client_frame_prefix bytes = Done (Inl WireTruncatedInput)"
  shows "length bytes < 45"
proof -
  obtain r where r: "decode_header bytes = Done r" using decode_header_total by blast
  show ?thesis
  proof (cases r)
    case (Inl e)
    with r assms have "e = WireTruncatedInput" by (simp add: decode_client_frame_prefix_def)
    with r Inl decode_header_truncated show ?thesis by fastforce
  next
    case (Inr h)
    show ?thesis
    proof (cases "has_complete_frame bytes h")
      case True
      with assms r Inr have "obind (subspan bytes 20 (unat (hdr_payload_length h))) (\<lambda>payload.
            obind (decode_client_message (hdr_type h) payload) (\<lambda>message.
            Done (Inr \<lparr>frame_envelope = \<lparr>env_request_id = hdr_request_id h, env_message = message\<rparr>,
              frame_consumed = 20 + unat (hdr_payload_length h)\<rparr> :: WireCodecError + DecodedClientFrame))) =
            Done (Inl WireTruncatedInput)"
        by (auto simp: decode_client_frame_prefix_def split: if_splits)
      then show ?thesis by (auto simp: obind_eq_Done)
    next
      case False
      then show ?thesis using decode_header_Inr(3) [OF r [unfolded Inr]] payload_size_small [of "hdr_type h"]
        by (simp add: has_complete_frame_def)
    qed
  qed
qed

lemma parse_stream_rest:
  "parse_stream bytes = (messages, None, rest) \<Longrightarrow> length rest < 45 \<and> length rest \<le> length bytes \<and> parse_stream rest = ([], None, rest)"
proof (induction bytes arbitrary: messages rule: parse_stream.induct)
  case (1 bytes)
  show ?case
  proof (cases rule: decode_client_returns [of bytes])
    case (error e)
    with 1(2) show ?thesis using decode_client_truncated [of bytes]
      by (cases "bytes = []") (auto simp: parse_stream_error split: if_splits)
  next
    case (frame f)
    then have ne: "bytes \<noteq> []" using decode_client_Nil by auto
    from 1(2) frame obtain ms where "parse_stream (drop (frame_consumed f) bytes) = (ms, None, rest)"
      by (auto simp: parse_stream_frame split: prod.splits)
    with 1(1) [OF ne frame refl] show ?thesis by fastforce
  qed
qed

section \<open>The parser follows the stream\<close>

definition pending :: "ClientStreamParser \<Rightarrow> byte list" where
  "pending p = drop (read_cursor p) (parser_buffer p)"

definition parser_ok :: "ClientStreamParser \<Rightarrow> bool" where
  "parser_ok p \<longleftrightarrow> read_cursor p \<le> length (parser_buffer p) \<and>
     length (pending p) \<le> maximum_buffered_bytes p \<and>
     length (parser_buffer p) \<le> 2 * maximum_buffered_bytes p"

lemma compact_pending [simp]:
  "read_cursor p \<le> length (parser_buffer p) \<Longrightarrow> pending (compact_if_needed p) = pending p"
  by (simp add: compact_if_needed_def pending_def)

lemma compact_keeps [simp]:
  "maximum_buffered_bytes (compact_if_needed p) = maximum_buffered_bytes p"
  "parser_failure (compact_if_needed p) = parser_failure p"
  by (simp_all add: compact_if_needed_def)

lemma compact_cursor:
  assumes "read_cursor p \<le> length (parser_buffer p)"
  shows "read_cursor (compact_if_needed p) \<le> length (pending p)"
    "length (parser_buffer (compact_if_needed p)) = read_cursor (compact_if_needed p) + length (pending p)"
  using assms by (auto simp: compact_if_needed_def pending_def)

lemma compact_ok: "parser_ok p \<Longrightarrow> parser_ok (compact_if_needed p)"
  using compact_cursor [of p] by (simp add: parser_ok_def)

lemma process_available_follows:
  assumes "parser_failure p = None" "read_cursor p \<le> length (parser_buffer p)"
    "parse_stream (pending p) = (messages, error, rest)"
  shows "\<exists>p'. process_available p result =
      Done (p', result\<lparr>feed_messages := feed_messages result @ messages,
                       feed_error := if error = None then feed_error result else error\<rparr>) \<and>
    parser_buffer p' = parser_buffer p \<and> maximum_buffered_bytes p' = maximum_buffered_bytes p \<and>
    read_cursor p \<le> read_cursor p' \<and> read_cursor p' \<le> length (parser_buffer p') \<and> parser_failure p' = error \<and> pending p' = rest"
  using assms
proof (induction p result arbitrary: messages rule: process_available.induct)
  case (1 p result)
  show ?case
  proof (cases "read_cursor p < length (parser_buffer p)")
    case False
    then have "pending p = []" by (simp add: pending_def)
    with 1 False show ?thesis by (subst process_available.simps) (auto simp: pending_def)
  next
    case True
    show ?thesis
    proof (cases rule: decode_client_returns [of "pending p"])
      case (error e)
      with True 1(2-) show ?thesis
        by (subst process_available.simps)
           (auto simp: pending_def parse_stream_error parser_fail_def split: if_splits)
    next
      case (frame f)
      let ?p = "p\<lparr>read_cursor := read_cursor p + frame_consumed f\<rparr>"
      let ?r = "result\<lparr>feed_messages := feed_messages result @ [frame_envelope f]\<rparr>"
      have step: "process_available p result = process_available ?p ?r"
        using True frame 1(2) by (subst process_available.simps) (simp add: pending_def)
      obtain ms where ms: "messages = frame_envelope f # ms" "parse_stream (pending ?p) = (ms, error, rest)"
        using 1(4) frame by (auto simp: parse_stream_frame pending_def drop_drop add.commute split: prod.splits)
      have le: "read_cursor ?p \<le> length (parser_buffer ?p)"
        using decode_client_progress(2) [OF frame] True by (simp add: pending_def)
      have guard: "parser_failure p = None \<and> read_cursor p < length (parser_buffer p)" using True 1(2) by simp
      show ?thesis unfolding step
        using 1(1) [OF guard frame [unfolded pending_def] refl _ le ms(2)] 1(2) by (cases error) (auto simp: ms(1))
    qed
  qed
qed

text \<open>One round of the loop of \<open>feed\<close>.\<close>

lemma feed_loop_end: "length bytes \<le> consumed \<Longrightarrow> feed_loop p result bytes consumed = Done (compact_if_needed p, result)"
  by (subst feed_loop.simps) simp

lemma unread_pending:
  "read_cursor p \<le> length (parser_buffer p) \<Longrightarrow>
   length (parser_buffer (compact_if_needed p)) - read_cursor (compact_if_needed p) = length (pending p)"
  using compact_cursor(2) [of p] by simp

lemma feed_loop_full:
  assumes "consumed < length bytes" "parser_ok p" "length (pending p) = maximum_buffered_bytes p"
  shows "feed_loop p result bytes consumed = Done (parser_fail (compact_if_needed p) result WireBufferLimitExceeded)"
  using assms by (subst feed_loop.simps) (simp add: Let_def unread_pending parser_ok_def)

definition append_to :: "ClientStreamParser \<Rightarrow> byte list \<Rightarrow> ClientStreamParser" where
  "append_to p bytes = p\<lparr>parser_buffer := parser_buffer p @ bytes\<rparr>"

lemma append_to_ok:
  assumes "parser_ok p" "length (pending p) + length bytes \<le> maximum_buffered_bytes p"
  shows "pending (append_to (compact_if_needed p) bytes) = pending p @ bytes"
    "parser_ok (append_to (compact_if_needed p) bytes)"
proof -
  have c: "read_cursor (compact_if_needed p) \<le> length (pending p)"
    "length (parser_buffer (compact_if_needed p)) = read_cursor (compact_if_needed p) + length (pending p)"
    using assms(1) compact_cursor [of p] by (simp_all add: parser_ok_def)
  have "pending (append_to (compact_if_needed p) bytes) = pending (compact_if_needed p) @ bytes"
    using c(2) by (simp add: pending_def append_to_def)
  then show eq: "pending (append_to (compact_if_needed p) bytes) = pending p @ bytes"
    using assms(1) by (simp add: parser_ok_def)
  show "parser_ok (append_to (compact_if_needed p) bytes)"
    unfolding parser_ok_def eq using c assms(2) by (simp add: append_to_def)
qed

lemma feed_loop_step:
  assumes c: "consumed < length bytes" and p: "parser_ok p" "parser_failure p = None"
    and room: "length (pending p) < maximum_buffered_bytes p"
    and n: "n = min (maximum_buffered_bytes p - length (pending p)) (length bytes - consumed)"
    and stream: "parse_stream (pending p @ take n (drop consumed bytes)) = (messages, error, rest)"
  shows "\<exists>p' result'. result' = result\<lparr>feed_messages := feed_messages result @ messages,
                       feed_error := if error = None then feed_error result else error\<rparr> \<and>
    parser_ok p' \<and> maximum_buffered_bytes p' = maximum_buffered_bytes p \<and> parser_failure p' = error \<and> pending p' = rest \<and>
    feed_loop p result bytes consumed =
      (if error = None then feed_loop p' result' bytes (consumed + n) else Done (p', result'))"
proof -
  let ?q = "append_to (compact_if_needed p) (take n (drop consumed bytes))"
  have fit: "length (pending p) + length (take n (drop consumed bytes)) \<le> maximum_buffered_bytes p"
    using n room by simp
  note q = append_to_ok [OF p(1) fit]
  have "parser_failure ?q = None" "read_cursor ?q \<le> length (parser_buffer ?q)"
    using q(2) p(2) by (simp_all add: parser_ok_def append_to_def)
  from process_available_follows [OF this stream [folded q(1)], of result] obtain p' where
    p': "process_available ?q result = Done (p', result\<lparr>feed_messages := feed_messages result @ messages,
                       feed_error := if error = None then feed_error result else error\<rparr>)"
      "parser_buffer p' = parser_buffer ?q" "maximum_buffered_bytes p' = maximum_buffered_bytes p"
      "read_cursor ?q \<le> read_cursor p'" "read_cursor p' \<le> length (parser_buffer p')" "parser_failure p' = error" "pending p' = rest"
    by (auto simp: append_to_def)
  have "length (pending p') \<le> length (pending ?q)"
    unfolding pending_def p'(2) length_drop using p'(4) by (rule diff_le_mono2)
  with p'(2-5) q(2) have "parser_ok p'" by (simp add: parser_ok_def append_to_def)
  have step: "feed_loop p result bytes consumed =
      obind (process_available ?q result) (\<lambda>(p, result).
        if parser_failure p \<noteq> None then Done (p, result) else feed_loop p result bytes (consumed + n))"
    using c p(1) room unfolding n by (subst feed_loop.simps) (simp add: Let_def unread_pending parser_ok_def append_to_def)
  with p' \<open>parser_ok p'\<close> show ?thesis by auto
qed

text \<open>For any limit the loop returns and keeps the bounds.\<close>

lemma feed_loop_bounded:
  assumes "parser_ok p" "parser_failure p = None"
  shows "\<exists>p' result'. feed_loop p result bytes consumed = Done (p', result') \<and> parser_ok p' \<and>
    maximum_buffered_bytes p' = maximum_buffered_bytes p"
  using assms
proof (induction "length bytes - consumed" arbitrary: p result consumed rule: less_induct)
  case less
  show ?case
  proof (cases "consumed < length bytes")
    case False
    then show ?thesis using compact_ok less.prems by (simp add: feed_loop_end)
  next
    case c: True
    show ?thesis
    proof (cases "length (pending p) = maximum_buffered_bytes p")
      case True
      then show ?thesis using c less.prems compact_ok [of p]
        by (simp add: feed_loop_full parser_fail_def parser_ok_def pending_def)
    next
      case False
      then have room: "length (pending p) < maximum_buffered_bytes p" using less.prems(1) by (simp add: parser_ok_def)
      define n where "n = min (maximum_buffered_bytes p - length (pending p)) (length bytes - consumed)"
      obtain ms e r where "parse_stream (pending p @ take n (drop consumed bytes)) = (ms, e, r)" by (rule prod_cases3)
      from feed_loop_step [OF c less.prems room n_def this, of result] obtain p' result' where
        p': "parser_ok p'" "maximum_buffered_bytes p' = maximum_buffered_bytes p" "parser_failure p' = e"
        "feed_loop p result bytes consumed =
          (if e = None then feed_loop p' result' bytes (consumed + n) else Done (p', result'))" by blast
      have "length bytes - (consumed + n) < length bytes - consumed" using c room by (simp add: n_def)
      from less.hyps [OF this p'(1), of result'] p' show ?thesis by (cases e) auto
    qed
  qed
qed

text \<open>With room for a whole frame the loop follows the stream.\<close>

lemma feed_loop_follows:
  assumes "parser_ok p" "parser_failure p = None" "45 \<le> maximum_buffered_bytes p"
    "parse_stream (pending p) = ([], None, pending p)" "consumed \<le> length bytes"
    "parse_stream (pending p @ drop consumed bytes) = (messages, error, rest)"
  shows "\<exists>p'. feed_loop p result bytes consumed =
      Done (p', result\<lparr>feed_messages := feed_messages result @ messages,
                       feed_error := if error = None then feed_error result else error\<rparr>) \<and>
    parser_ok p' \<and> maximum_buffered_bytes p' = maximum_buffered_bytes p \<and> parser_failure p' = error \<and>
    (error = None \<longrightarrow> pending p' = rest)"
  using assms
proof (induction "length bytes - consumed" arbitrary: p result consumed messages rule: less_induct)
  case less
  show ?case
  proof (cases "consumed < length bytes")
    case False
    with less.prems have "messages = [] \<and> error = None \<and> rest = pending p" by simp
    with False less.prems show ?thesis using compact_ok [of p] by (simp add: feed_loop_end parser_ok_def)
  next
    case c: True
    have room: "length (pending p) < maximum_buffered_bytes p"
      using parse_stream_rest [OF less.prems(4)] less.prems(3) by simp
    define n where "n = min (maximum_buffered_bytes p - length (pending p)) (length bytes - consumed)"
    obtain ms e r where st: "parse_stream (pending p @ take n (drop consumed bytes)) = (ms, e, r)" by (rule prod_cases3)
    from feed_loop_step [OF c less.prems(1,2) room n_def this, of result] obtain p' result' where
      r': "result' = result\<lparr>feed_messages := feed_messages result @ ms,
                       feed_error := if e = None then feed_error result else e\<rparr>" and
      p': "parser_ok p'" "maximum_buffered_bytes p' = maximum_buffered_bytes p" "parser_failure p' = e" "pending p' = r"
      "feed_loop p result bytes consumed =
        (if e = None then feed_loop p' result' bytes (consumed + n) else Done (p', result'))" by blast
    have split: "pending p @ drop consumed bytes =
        (pending p @ take n (drop consumed bytes)) @ drop (consumed + n) bytes"
      using append_take_drop_id [of n "drop consumed bytes"] by (simp add: add.commute)
    have app: "parse_stream (pending p @ drop consumed bytes) =
        (if e = None then (case parse_stream (r @ drop (consumed + n) bytes) of (m', e', r') \<Rightarrow> (ms @ m', e', r'))
         else (ms, e, r @ drop (consumed + n) bytes))"
      unfolding split by (subst parse_stream_append) (simp add: st)
    show ?thesis
    proof (cases e)
      case (Some e')
      with less.prems(6) app have "messages = ms" "error = e" by auto
      with Some p' r' show ?thesis by simp
    next
      case None
      obtain ms2 where ms2: "parse_stream (r @ drop (consumed + n) bytes) = (ms2, error, rest)" "messages = ms @ ms2"
        using less.prems(6) app None by (auto split: prod.splits)
      have "length bytes - (consumed + n) < length bytes - consumed" "consumed + n \<le> length bytes"
        using c room by (simp_all add: n_def)
      with less.hyps [of "consumed + n" p' ms2 result'] p' None ms2 parse_stream_rest [OF st [unfolded None]] less.prems(3)
      show ?thesis by (cases error) (auto simp: r')
    qed
  qed
qed

section \<open>Feeding a connection\<close>

text \<open>A connection delivers its bytes in reads of any size; \<open>feed\<close> is called once for each.\<close>

fun feed_all ::
  "ClientStreamParser \<Rightarrow> byte list list \<Rightarrow> (ClientStreamParser \<times> ClientMessage WireEnvelope list) outcome" where
  "feed_all p [] = Done (p, [])"
| "feed_all p (chunk # chunks) =
     obind (parser_feed p chunk) (\<lambda>(p, result).
     obind (feed_all p chunks) (\<lambda>(p, messages). Done (p, feed_messages result @ messages)))"

lemma process_available_ok:
  assumes "parser_ok p" "parser_failure p = None"
  shows "\<exists>p' result'. process_available p result = Done (p', result') \<and> parser_ok p' \<and>
    maximum_buffered_bytes p' = maximum_buffered_bytes p"
proof -
  obtain ms e r where "parse_stream (pending p) = (ms, e, r)" by (rule prod_cases3)
  from process_available_follows [OF assms(2) _ this, of result] assms(1) obtain p' result' where
    p': "process_available p result = Done (p', result')" "parser_buffer p' = parser_buffer p"
      "maximum_buffered_bytes p' = maximum_buffered_bytes p" "read_cursor p \<le> read_cursor p'"
      "read_cursor p' \<le> length (parser_buffer p')" by (auto simp: parser_ok_def)
  have "length (pending p') \<le> length (pending p)"
    unfolding pending_def p'(2) length_drop using p'(4) by (rule diff_le_mono2)
  with p' assms(1) have "parser_ok p'" by (simp add: parser_ok_def)
  with p' show ?thesis by blast
qed

lemma parser_feed_bounded:
  assumes "parser_ok p"
  shows "\<exists>p' result. parser_feed p bytes = Done (p', result) \<and> parser_ok p' \<and>
    maximum_buffered_bytes p' = maximum_buffered_bytes p"
proof (cases "parser_failure p")
  case (Some e)
  with assms show ?thesis by (simp add: parser_feed_def)
next
  case None
  let ?r = "\<lparr>feed_messages = [], feed_error = None\<rparr>"
  from process_available_ok [OF assms None, of ?r] obtain p' r' where
    p': "process_available p ?r = Done (p', r')" "parser_ok p'" "maximum_buffered_bytes p' = maximum_buffered_bytes p"
    by blast
  show ?thesis
  proof (cases "parser_failure p'")
    case None
    from feed_loop_bounded [OF p'(2) None, of r' bytes 0] p' \<open>parser_failure p = None\<close> None show ?thesis
      by (auto simp: parser_feed_def)
  qed (use p' None in \<open>simp add: parser_feed_def\<close>)
qed

lemma parser_feed_follows:
  assumes p: "parser_ok p" "parser_failure p = None" "45 \<le> maximum_buffered_bytes p"
    "parse_stream (pending p) = ([], None, pending p)"
    and stream: "parse_stream (pending p @ bytes) = (messages, error, rest)"
  shows "\<exists>p'. parser_feed p bytes = Done (p', \<lparr>feed_messages = messages, feed_error = error\<rparr>) \<and>
    parser_ok p' \<and> maximum_buffered_bytes p' = maximum_buffered_bytes p \<and> parser_failure p' = error \<and>
    (error = None \<longrightarrow> pending p' = rest)"
proof -
  let ?r = "\<lparr>feed_messages = [], feed_error = None\<rparr>"
  from process_available_follows [OF p(2) _ p(4), of ?r] p(1) obtain q where
    q: "process_available p ?r = Done (q, ?r)" "parser_buffer q = parser_buffer p"
      "maximum_buffered_bytes q = maximum_buffered_bytes p"
      "read_cursor q \<le> length (parser_buffer q)" "parser_failure q = None" "pending q = pending p"
    by (auto simp: parser_ok_def)
  with p(1) have "parser_ok q" by (simp add: parser_ok_def)
  from feed_loop_follows [OF this q(5), of 0 bytes messages error rest ?r] p q stream show ?thesis
    by (cases error) (auto simp: parser_feed_def)
qed

lemma feed_all_failed: "parser_failure p \<noteq> None \<Longrightarrow> feed_all p chunks = Done (p, [])"
  by (induction chunks) (auto simp: parser_feed_def)

lemma feed_all_follows:
  assumes "parser_ok p" "parser_failure p = None" "45 \<le> maximum_buffered_bytes p"
    "parse_stream (pending p) = ([], None, pending p)"
    "parse_stream (pending p @ concat chunks) = (messages, error, rest)"
  shows "\<exists>p'. feed_all p chunks = Done (p', messages) \<and> parser_ok p' \<and> parser_failure p' = error \<and>
    (error = None \<longrightarrow> pending p' = rest)"
  using assms
proof (induction chunks arbitrary: p messages)
  case (Cons chunk chunks)
  obtain ms e r where st: "parse_stream (pending p @ chunk) = (ms, e, r)" by (rule prod_cases3)
  from parser_feed_follows [OF Cons.prems(1-4) this] obtain q where
    q: "parser_feed p chunk = Done (q, \<lparr>feed_messages = ms, feed_error = e\<rparr>)" "parser_ok q"
      "maximum_buffered_bytes q = maximum_buffered_bytes p" "parser_failure q = e" "e = None \<longrightarrow> pending q = r"
    by (elim exE conjE) (rule that)
  have app: "parse_stream (pending p @ concat (chunk # chunks)) =
      (if e = None then (case parse_stream (r @ concat chunks) of (m', e', r') \<Rightarrow> (ms @ m', e', r'))
       else (ms, e, r @ concat chunks))"
    using parse_stream_append [of "pending p @ chunk" "concat chunks"] by (simp add: st)
  show ?case
  proof (cases e)
    case None
    with Cons.prems(5) app obtain ms2 where
      ms2: "parse_stream (r @ concat chunks) = (ms2, error, rest)" "messages = ms @ ms2" by (auto split: prod.splits)
    from q(5) None have pq: "pending q = r" by simp
    have "parse_stream (pending q) = ([], None, pending q)" using parse_stream_rest [OF st [unfolded None]] pq by simp
    moreover have "parser_failure q = None" "45 \<le> maximum_buffered_bytes q" using q None Cons.prems(3) by simp_all
    ultimately obtain p' where "feed_all q chunks = Done (p', ms2)" "parser_ok p'" "parser_failure p' = error"
      "error = None \<longrightarrow> pending p' = rest" using Cons.IH [OF q(2), of ms2] ms2(1) pq by auto
    with q(1) ms2(2) show ?thesis by simp
  next
    case (Some e')
    with Cons.prems(5) app have "messages = ms" "error = e" by auto
    with q Some feed_all_failed [of q chunks] show ?thesis by simp
  qed
qed simp

lemma new_parser_ok: "parser_ok (new_parser maximum)" "pending (new_parser maximum) = []"
  "parser_failure (new_parser maximum) = None" "maximum_buffered_bytes (new_parser maximum) = maximum"
  by (simp_all add: parser_ok_def new_parser_def pending_def)

lemma new_parser_follows:
  assumes "45 \<le> maximum" "parse_stream (concat chunks) = (messages, error, rest)"
  obtains p where "feed_all (new_parser maximum) chunks = Done (p, messages)" "parser_failure p = error"
    "parser_ok p" "error = None \<longrightarrow> pending p = rest"
  using feed_all_follows [OF new_parser_ok(1,3), of maximum chunks messages error rest] assms that
  by (auto simp: new_parser_ok)

lemma pending_queries:
  "parser_ok p \<Longrightarrow> buffered_size p = length (pending p)"
  "parser_ok p \<Longrightarrow> has_incomplete_frame p \<longleftrightarrow> parser_failure p = None \<and> pending p \<noteq> []"
  by (auto simp: parser_ok_def buffered_size_def has_incomplete_frame_def pending_def)

lemma feed_all_bounded:
  "parser_ok p \<Longrightarrow> \<exists>p' messages. feed_all p chunks = Done (p', messages) \<and> parser_ok p' \<and>
     maximum_buffered_bytes p' = maximum_buffered_bytes p"
proof (induction chunks arbitrary: p)
  case (Cons chunk chunks)
  from parser_feed_bounded [OF Cons.prems, of chunk] obtain q r where
    q: "parser_feed p chunk = Done (q, r)" "parser_ok q" "maximum_buffered_bytes q = maximum_buffered_bytes p" by blast
  from Cons.IH [OF q(2)] q show ?case by auto
qed simp

lemma parse_stream_frames: "parse_stream (concat (map client_frame envelopes)) = (envelopes, None, [])"
proof (induction envelopes)
  case (Cons envelope envelopes)
  let ?bytes = "client_frame envelope @ concat (map client_frame envelopes)"
  have "decode_client_frame_prefix ?bytes =
      Done (Inr \<lparr>frame_envelope = envelope, frame_consumed = length (client_frame envelope)\<rparr>)"
    using client.decode_encoded by (simp add: client_frame_def length_client_frame [unfolded client_frame_def])
  from parse_stream_frame [OF this] Cons show ?case by simp
qed simp

section \<open>Properties\<close>

text \<open>
  C22. Fragmentation does not matter. However the bytes of a connection are cut into reads, a parser
  whose limit holds a whole frame delivers exactly the messages of the stream up to its first
  error, ends with that error or none, and keeps buffered exactly the bytes of the message that is
  not complete yet.
\<close>

theorem parser_fragmentation:
  assumes "45 \<le> maximum"
  shows "case parse_stream (concat chunks) of (messages, error, rest) \<Rightarrow>
    \<exists>p. feed_all (new_parser maximum) chunks = Done (p, messages) \<and> parser_failure p = error \<and>
      (parser_failed p \<or> buffered_size p = length rest \<and> (has_incomplete_frame p \<longleftrightarrow> rest \<noteq> []))"
proof -
  obtain ms e r where "parse_stream (concat chunks) = (ms, e, r)" by (rule prod_cases3)
  moreover from new_parser_follows [OF assms this] obtain p where
    "feed_all (new_parser maximum) chunks = Done (p, ms)" "parser_failure p = e" "parser_ok p" "e = None \<longrightarrow> pending p = r" .
  ultimately show ?thesis by (cases e) (auto simp: parser_failed_def pending_queries)
qed

theorem parser_fragmentation_witness:
  "\<exists>p. feed_all (new_parser 64) [[0x4D, 0x45, 0x58], [], [0x47, 0], [9, 9, 9]] = Done (p, []) \<and>
     parser_failure p = Some WireUnsupportedVersion"
proof -
  have "parse_stream (concat [[0x4D, 0x45, 0x58], [], [0x47, 0], [9, 9, 9]]) =
      ([], Some WireUnsupportedVersion, [0x4D, 0x45, 0x58, 0x47, 0, 9, 9, 9])" by code_simp
  with parser_fragmentation [of 64 "[[0x4D, 0x45, 0x58], [], [0x47, 0], [9, 9, 9]]"] show ?thesis by auto
qed

text \<open>
  C29. Every message arrives. When the frames of any messages are sent one after the other and the
  connection cuts them into reads of any size, the parser delivers all of them, in order and
  unchanged, and nothing stays behind in its buffer.
\<close>

theorem parser_delivers_all:
  assumes "45 \<le> maximum" and "map Inr frames = map encode_client_frame envelopes" and "concat chunks = concat frames"
  shows "\<exists>p. feed_all (new_parser maximum) chunks = Done (p, envelopes) \<and>
    \<not> parser_failed p \<and> \<not> has_incomplete_frame p \<and> buffered_size p = 0"
proof -
  have "frames = map client_frame envelopes"
    using assms(2) by (induction frames arbitrary: envelopes) (auto simp: encode_client_frame_eq map_eq_Cons_conv)
  then have "parse_stream (concat chunks) = (envelopes, None, [])" by (simp add: assms(3) parse_stream_frames)
  from new_parser_follows [OF assms(1) this] obtain p where "feed_all (new_parser maximum) chunks = Done (p, envelopes)"
    "parser_failure p = None" "parser_ok p" "pending p = []" by auto
  then show ?thesis by (auto simp: parser_failed_def pending_queries)
qed

definition sample_cancel :: "ClientMessage WireEnvelope" where
  "sample_cancel = \<lparr>env_request_id = RequestId 9, env_message = ClientCancel \<lparr>cor_order_id = OrderId 5\<rparr>\<rparr>"

theorem parser_delivers_all_witness:
  "\<exists>p. feed_all (new_parser 45) [take 27 (client_frame sample_cancel), drop 27 (client_frame sample_cancel) @ client_frame sample_cancel] =
       Done (p, [sample_cancel, sample_cancel]) \<and> \<not> parser_failed p"
  using parser_delivers_all [of 45 "[client_frame sample_cancel, client_frame sample_cancel]" "[sample_cancel, sample_cancel]"
    "[take 27 (client_frame sample_cancel), drop 27 (client_frame sample_cancel) @ client_frame sample_cancel]"]
  by (auto simp: encode_client_frame_eq simp flip: append_assoc)

text \<open>
  C30. The parser is bounded and always returns. Whatever bytes a connection sends, in whatever
  pieces, every call of \<open>feed\<close> returns, the unread bytes never exceed the configured maximum, the
  physical buffer never exceeds twice the maximum, and the cursor stays inside the buffer.
\<close>

theorem parser_bounded:
  "\<exists>p messages. feed_all (new_parser maximum) chunks = Done (p, messages) \<and>
     buffered_size p \<le> maximum \<and> length (parser_buffer p) \<le> 2 * maximum \<and>
     read_cursor p \<le> length (parser_buffer p)"
  using feed_all_bounded [OF new_parser_ok(1), of maximum chunks]
  by (auto simp: parser_ok_def new_parser_ok buffered_size_def pending_def)

text \<open>
  C34. A limit below the size of a submit frame makes submitting impossible: a parser configured with
  fewer than 45 bytes fails with \<open>BufferLimitExceeded\<close> on every submit request, although the frame
  itself is valid.
\<close>

theorem parser_small_limit:
  assumes "maximum < 45" and "encode_client_frame \<lparr>env_request_id = rid, env_message = ClientSubmit order\<rparr> = Inr bytes"
  shows "\<exists>p. parser_feed (new_parser maximum) bytes =
      Done (p, \<lparr>feed_messages = [], feed_error = Some WireBufferLimitExceeded\<rparr>) \<and> parser_failed p"
proof -
  let ?env = "\<lparr>env_request_id = rid, env_message = ClientSubmit order\<rparr>"
  let ?r = "\<lparr>feed_messages = [], feed_error = None\<rparr>"
  have bytes: "bytes = client_frame ?env" "length bytes = 45"
    using assms(2) by (simp_all add: encode_client_frame_eq length_client_frame) (auto simp: length_client_frame)
  have trunc: "parse_stream (take k bytes) = ([], None, take k bytes)" if "k < 45" for k
  proof (cases "k = 0")
    case False
    have "decode_client_frame_prefix (take k bytes) = Done (Inl WireTruncatedInput)"
      using client.decode_truncated [where m = "ClientSubmit order" and k = k and request_id = rid] that
      by (simp add: bytes client_frame_def)
    moreover have "take k bytes \<noteq> []" using bytes(2) False by auto
    ultimately show ?thesis by (simp add: parse_stream_error)
  qed simp
  have "\<exists>p. feed_loop (new_parser maximum) ?r bytes 0 =
      Done (p, \<lparr>feed_messages = [], feed_error = Some WireBufferLimitExceeded\<rparr>) \<and> parser_failed p"
  proof (cases "maximum = 0")
    case True
    moreover have "0 < length bytes" using bytes(2) by simp
    ultimately show ?thesis using feed_loop_full [of 0 bytes "new_parser maximum" ?r]
      by (simp del: length_greater_0_conv add: new_parser_ok parser_fail_def parser_failed_def)
  next
    case False
    from feed_loop_step [of 0 bytes "new_parser maximum" maximum "[]" None "take maximum bytes" ?r] False assms(1) bytes(2) trunc
    obtain p where p: "parser_ok p" "maximum_buffered_bytes p = maximum" "pending p = take maximum bytes"
      "feed_loop (new_parser maximum) ?r bytes 0 = feed_loop p ?r bytes maximum"
      by (auto simp: new_parser_ok simp del: length_greater_0_conv)
    with feed_loop_full [of maximum bytes p ?r] assms(1) bytes show ?thesis
      by (simp add: parser_fail_def parser_failed_def)
  qed
  moreover have "process_available (new_parser maximum) ?r = Done (new_parser maximum, ?r)"
    by (subst process_available.simps) (simp add: new_parser_def)
  ultimately show ?thesis by (simp add: parser_feed_def new_parser_ok)
qed

theorem parser_small_limit_witness:
  "\<exists>p. parser_feed (new_parser 28) (client_frame \<lparr>env_request_id = RequestId 1, env_message =
       ClientSubmit \<lparr>slr_order_id = OrderId 1, slr_raw_side = Buy, slr_limit_price = Price 10, slr_quantity = Quantity 5\<rparr>\<rparr>) =
     Done (p, \<lparr>feed_messages = [], feed_error = Some WireBufferLimitExceeded\<rparr>) \<and> parser_failed p"
  by (rule parser_small_limit [OF _ encode_client_frame_eq]) simp

end
