(* ===== verification/Connection_Output.thy ===== *)
theory Connection_Output
  imports Posix_Files
begin

text \<open>
  The model of \<^verbatim>\<open>src/connection.hpp\<close>, the output buffer of a connection: a vector of bytes and the
  offset of the first byte that has not been sent. \<open>flush\<close> takes the function that sends, over an
  arbitrary type of system states; it returns \<open>None\<close> if it never returns. The offset is at most the
  size of the vector (\<open>output_ok\<close>), so the subtraction in \<open>pending_size\<close> does not wrap.
\<close>

section \<open>The buffer\<close>

datatype OutputFlushResult = Drained | WouldBlock | Fatal

record ConnectionOutputBuffer =
  cob_bytes :: "byte list"
  cob_offset :: nat

definition new_output :: ConnectionOutputBuffer where
  "new_output = \<lparr>cob_bytes = [], cob_offset = 0\<rparr>"

definition pending_size :: "ConnectionOutputBuffer \<Rightarrow> nat" where
  "pending_size b = length (cob_bytes b) - cob_offset b"

definition output_empty :: "ConnectionOutputBuffer \<Rightarrow> bool" where
  "output_empty b \<longleftrightarrow> pending_size b = 0"

definition output_clear :: "ConnectionOutputBuffer \<Rightarrow> ConnectionOutputBuffer" where
  "output_clear b = b\<lparr>cob_bytes := [], cob_offset := 0\<rparr>"

definition output_compact :: "ConnectionOutputBuffer \<Rightarrow> ConnectionOutputBuffer" where
  "output_compact b =
     (if cob_offset b = 0 then b
      else if cob_offset b = length (cob_bytes b) then b\<lparr>cob_bytes := [], cob_offset := 0\<rparr>
      else b\<lparr>cob_bytes := drop (cob_offset b) (cob_bytes b), cob_offset := 0\<rparr>)"

definition output_append :: "ConnectionOutputBuffer \<Rightarrow> byte list \<Rightarrow> nat \<Rightarrow> ConnectionOutputBuffer \<times> bool" where
  "output_append b bytes maximum_pending_bytes =
     (let pending = pending_size b
      in if pending > maximum_pending_bytes \<or> length bytes > maximum_pending_bytes - pending then (b, False)
         else let b = output_compact b in (b\<lparr>cob_bytes := cob_bytes b @ bytes\<rparr>, True))"

partial_function (option) output_flush ::
  "(byte list \<Rightarrow> 's \<Rightarrow> 's \<times> (errno + nat)) \<Rightarrow> ConnectionOutputBuffer \<Rightarrow> 's \<Rightarrow>
   ('s \<times> ConnectionOutputBuffer \<times> OutputFlushResult) option" where
  "output_flush send b s =
     (if output_empty b then Some (s, b, Drained)
      else case send (drop (cob_offset b) (cob_bytes b)) s of
          (s, Inr sent) \<Rightarrow>
            if sent = 0 then Some (s, b, Fatal)
            else if sent > pending_size b then Some (s, b, Fatal)
            else let b = b\<lparr>cob_offset := cob_offset b + sent\<rparr>
                 in if output_empty b then Some (s, b\<lparr>cob_bytes := [], cob_offset := 0\<rparr>, Drained)
                    else output_flush send b s
        | (s, Inl e) \<Rightarrow>
            if e = EINTR then output_flush send b s
            else if e = EAGAIN then Some (s, b, WouldBlock)
            else Some (s, b, Fatal))"

section \<open>What is pending\<close>

definition output_ok :: "ConnectionOutputBuffer \<Rightarrow> bool" where
  "output_ok b \<longleftrightarrow> cob_offset b \<le> length (cob_bytes b)"

definition output_pending :: "ConnectionOutputBuffer \<Rightarrow> byte list" where
  "output_pending b = drop (cob_offset b) (cob_bytes b)"

lemma pending_size_pending: "pending_size b = length (output_pending b)"
  by (simp add: pending_size_def output_pending_def)

lemma output_empty_pending: "output_empty b \<longleftrightarrow> output_pending b = []"
  by (simp add: output_empty_def pending_size_pending)

lemma output_new [simp]: "output_ok new_output" "output_pending new_output = []"
  by (simp_all add: output_ok_def output_pending_def new_output_def)

lemma output_clear_pending [simp]: "output_ok (output_clear b)" "output_pending (output_clear b) = []"
  by (simp_all add: output_ok_def output_pending_def output_clear_def)

lemma output_append_pending:
  assumes "output_ok b" "output_append b bytes n = (b', accepted)"
  shows "output_ok b'" "accepted \<longleftrightarrow> length (output_pending b) + length bytes \<le> n"
    "output_pending b' = output_pending b @ (if accepted then bytes else [])"
  using assms
  by (auto simp: output_append_def output_compact_def output_ok_def output_pending_def pending_size_def Let_def split: if_splits)

section \<open>Sending\<close>

text \<open>
  What is relied on of \<open>send\<close> on a stream socket: it takes over a prefix of what it is given, or
  nothing when it fails, and it is not interrupted without end. \<open>delivered\<close> is what it has taken over.
\<close>

definition send_law :: "(byte list \<Rightarrow> 's \<Rightarrow> 's \<times> (errno + nat)) \<Rightarrow> ('s \<Rightarrow> byte list) \<Rightarrow> ('s \<Rightarrow> nat) \<Rightarrow> bool" where
  "send_law send delivered pauses \<longleftrightarrow> (\<forall>bytes s s' r. send bytes s = (s', r) \<longrightarrow>
     pauses s' \<le> pauses s \<and> (r = Inl EINTR \<longrightarrow> pauses s' < pauses s) \<and>
     (case r of Inl e \<Rightarrow> delivered s' = delivered s
      | Inr n \<Rightarrow> n \<le> length bytes \<and> delivered s' = delivered s @ take n bytes))"

lemma output_flush_effect:
  assumes law: "send_law send delivered pauses" and "output_ok b"
  shows "\<exists>s' b' r. output_flush send b s = Some (s', b', r) \<and> output_ok b' \<and>
    delivered s' @ output_pending b' = delivered s @ output_pending b \<and> (r = Drained \<longleftrightarrow> output_pending b' = [])"
  using assms(2)
proof (induction "length (output_pending b) + pauses s" arbitrary: b s rule: less_induct)
  case less
  show ?case
  proof (cases "output_empty b")
    case True
    then show ?thesis using less.prems by (subst output_flush.simps) (simp add: output_empty_pending)
  next
    case False
    then have ne: "output_pending b \<noteq> []" by (simp add: output_empty_pending)
    obtain s1 r where r: "send (output_pending b) s = (s1, r)" by (cases "send (output_pending b) s")
    note l = law [unfolded send_law_def, rule_format, OF r]
    show ?thesis
    proof (cases r)
      case (Inl e)
      show ?thesis
      proof (cases "e = EINTR")
        case True
        with l Inl have "length (output_pending b) + pauses s1 < length (output_pending b) + pauses s" by simp
        from less.hyps [OF this less.prems] l Inl True False r show ?thesis
          by (subst output_flush.simps) (simp add: output_pending_def)
      next
        case ne': False
        with l Inl False r less.prems ne show ?thesis
          by (subst output_flush.simps) (auto simp: output_pending_def)
      qed
    next
      case (Inr n)
      with l have n: "n \<le> length (output_pending b)" "delivered s1 = delivered s @ take n (output_pending b)" by simp_all
      let ?b = "b\<lparr>cob_offset := cob_offset b + n\<rparr>"
      have b: "output_ok ?b" "output_pending ?b = drop n (output_pending b)" "n \<le> pending_size b"
        using n(1) less.prems by (auto simp: output_ok_def output_pending_def pending_size_def add.commute)
      show ?thesis
      proof (cases "n = 0 \<or> output_empty ?b")
        case True
        with r Inr False n b less.prems ne show ?thesis
          by (subst output_flush.simps) (auto simp: output_pending_def Let_def output_ok_def output_empty_pending)
      next
        case go: False
        have "length (output_pending ?b) + pauses s1 < length (output_pending b) + pauses s"
          unfolding b(2) length_drop using go n(1) l by linarith
        from less.hyps [OF this b(1)] have "\<exists>s' b' r. output_flush send ?b s1 = Some (s', b', r) \<and> output_ok b' \<and>
            delivered s' @ output_pending b' = delivered s @ output_pending b \<and> (r = Drained \<longleftrightarrow> output_pending b' = [])"
          by (simp add: n(2) b(2))
        moreover have "output_flush send b s = output_flush send ?b s1"
          using r Inr False go b(3) by (subst output_flush.simps) (simp add: output_pending_def Let_def)
        ultimately show ?thesis by simp
      qed
    qed
  qed
qed

section \<open>Properties\<close>

text \<open>
  C38. The output buffer loses, repeats and reorders nothing. Appending a frame either adds exactly its
  bytes after what is pending, which is possible if and only if the total stays within the limit, or
  changes nothing; and flushing returns, with what has been handed to the socket followed by what is
  still pending unchanged, everything being sent if and only if the result is \<open>Drained\<close>.
\<close>

theorem output_is_a_stream:
  assumes "send_law send delivered pauses" and "output_ok b"
  shows "(case output_append b bytes n of (b', accepted) \<Rightarrow>
      output_ok b' \<and> (accepted \<longleftrightarrow> length (output_pending b) + length bytes \<le> n) \<and>
      output_pending b' = output_pending b @ (if accepted then bytes else [])) \<and>
    (\<exists>s' b' r. output_flush send b s = Some (s', b', r) \<and> output_ok b' \<and>
      delivered s' @ output_pending b' = delivered s @ output_pending b \<and> (r = Drained \<longleftrightarrow> output_pending b' = []))"
proof
  obtain b' accepted where a: "output_append b bytes n = (b', accepted)" by (cases "output_append b bytes n")
  from output_append_pending [OF assms(2) a] a show "case output_append b bytes n of (b', accepted) \<Rightarrow>
      output_ok b' \<and> (accepted \<longleftrightarrow> length (output_pending b) + length bytes \<le> n) \<and>
      output_pending b' = output_pending b @ (if accepted then bytes else [])" by simp
qed (rule output_flush_effect [OF assms])

text \<open>A socket that takes two bytes at a time and is interrupted as often as its first component says.\<close>

definition slow_send :: "byte list \<Rightarrow> nat \<times> byte list \<Rightarrow> (nat \<times> byte list) \<times> (errno + nat)" where
  "slow_send bytes s =
     (if fst s > 0 then ((fst s - 1, snd s), Inl EINTR)
      else ((0, snd s @ take (min 2 (length bytes)) bytes), Inr (min 2 (length bytes))))"

theorem output_is_a_stream_witness:
  "\<exists>s' b' r. output_flush slow_send \<lparr>cob_bytes = [7, 8, 9, 10], cob_offset = 1\<rparr> (3, []) = Some (s', b', r) \<and>
    snd s' @ output_pending b' = [8, 9, 10]"
proof -
  have "send_law slow_send snd fst" by (auto simp: send_law_def slow_send_def split: if_splits)
  from output_is_a_stream [OF this, of "\<lparr>cob_bytes = [7, 8, 9, 10], cob_offset = 1\<rparr>" "[]" 0 "(3, [])"]
  show ?thesis by (auto simp: output_ok_def output_pending_def)
qed

end
