(* ===== verification/Gateway_Server.thy ===== *)
theory Gateway_Server
  imports Gateway_Types Bounded_Queue Wire_Stream Connection_Output
begin

text \<open>
  The model of \<^verbatim>\<open>include/matching/gateway_server.hpp\<close> and \<^verbatim>\<open>src/gateway_server.cpp\<close>: connections, admission
  of requests, delivery of responses, shutdown, and the turns of the poll loop. Socket calls are a
  record that the functions take as an argument, over an arbitrary type of system states. What the
  gateway shares with the engine worker is the record \<open>Shared\<close>. A function that may wait for the
  network for ever returns an option; \<open>outcome\<close> tells returning from \<open>std::terminate\<close> and undefined
  behaviour. The response queue is always there and the response hook is not set, as in production.
  Writing to the event descriptor and reading it only wake \<open>poll\<close> up and are not represented.
\<close>

section \<open>Types\<close>

record ServerConfig =
  cfg_bind_address :: string
  cfg_port :: u16
  cfg_maximum_connections :: nat
  cfg_maximum_input_buffer_bytes :: nat
  cfg_maximum_output_buffer_bytes :: nat

datatype GatewayServerErrorCode =
    GatewayInvalidConfiguration | InvalidBindAddress | SocketCreationFailed | SocketOptionFailed | NonblockingFailed
  | BindFailed | ListenFailed | SocketNameFailed | WakeupCreationFailed

record GatewayServerError =
  gse_code :: GatewayServerErrorCode
  gse_system_error :: "errno option"

text \<open>Shared by the two threads: the limiter, the two queues, and the two atomic flags.\<close>

record Shared =
  sh_limiter :: InFlightLimiter
  sh_requests :: "AdmittedEngineRequest BoundedQueue"
  sh_responses :: "EngineCompletion BoundedQueue"
  sh_stop_requested :: bool
  sh_engine_failed :: bool

record Connection =
  con_id :: ConnectionId
  con_parser :: ClientStreamParser
  con_output :: ConnectionOutputBuffer
  con_closing :: bool

record PendingRequest =
  pen_connection_id :: ConnectionId
  pen_request :: "ClientMessage WireEnvelope"

record Gateway =
  gw_config :: ServerConfig
  gw_listener :: int
  gw_wakeup :: int
  gw_port :: u16
  gw_connections :: "(int \<times> Connection) list"
  gw_pending :: "PendingRequest list"
  gw_next_connection_id :: u64
  gw_reads_paused :: bool
  gw_shutdown_started :: bool

text \<open>The calls of the socket interface in use; \<open>poll\<close> returns the events of each descriptor.\<close>

record poll_events =
  poll_in :: bool
  poll_out :: bool
  poll_error :: bool

record 's sockets =
  sk_recv :: "int \<Rightarrow> nat \<Rightarrow> 's \<Rightarrow> 's \<times> (errno + byte list)"
  sk_send :: "int \<Rightarrow> byte list \<Rightarrow> 's \<Rightarrow> 's \<times> (errno + nat)"
  sk_accept :: "int \<Rightarrow> 's \<Rightarrow> 's \<times> (errno + int)"
  sk_close :: "int \<Rightarrow> 's \<Rightarrow> 's"
  sk_getfl :: "int \<Rightarrow> 's \<Rightarrow> errno + u32"
  sk_setfl :: "int \<Rightarrow> u32 \<Rightarrow> 's \<Rightarrow> 's \<times> errno option"
  sk_getfd :: "int \<Rightarrow> 's \<Rightarrow> errno + u32"
  sk_setfd :: "int \<Rightarrow> u32 \<Rightarrow> 's \<Rightarrow> 's \<times> errno option"
  sk_inet_pton :: "string \<Rightarrow> u32 option"
  sk_socket :: "'s \<Rightarrow> 's \<times> (errno + int)"
  sk_reuse_address :: "int \<Rightarrow> 's \<Rightarrow> 's \<times> errno option"
  sk_bind :: "int \<Rightarrow> u32 \<Rightarrow> u16 \<Rightarrow> 's \<Rightarrow> 's \<times> errno option"
  sk_listen :: "int \<Rightarrow> nat \<Rightarrow> 's \<Rightarrow> 's \<times> errno option"
  sk_getsockname :: "int \<Rightarrow> 's \<Rightarrow> errno + u16"
  sk_eventfd :: "'s \<Rightarrow> 's \<times> (errno + int)"

definition gateway_error :: "GatewayServerErrorCode \<Rightarrow> errno option \<Rightarrow> GatewayServerError" where
  "gateway_error code error_number = \<lparr>gse_code = code, gse_system_error = error_number\<rparr>"

definition new_connection :: "ConnectionId \<Rightarrow> nat \<Rightarrow> Connection" where
  "new_connection cid input_limit =
     \<lparr>con_id = cid, con_parser = new_parser input_limit, con_output = new_output, con_closing = False\<rparr>"

section \<open>Descriptors\<close>

definition close_socket :: "'s sockets \<Rightarrow> int \<Rightarrow> 's \<Rightarrow> 's" where
  "close_socket sk descriptor s = (if descriptor \<ge> 0 then sk_close sk descriptor s else s)"

abbreviation (input) O_NONBLOCK :: u32 where "O_NONBLOCK \<equiv> 0x800"
abbreviation (input) FD_CLOEXEC :: u32 where "FD_CLOEXEC \<equiv> 1"

definition set_nonblocking :: "'s sockets \<Rightarrow> int \<Rightarrow> 's \<Rightarrow> 's \<times> errno option" where
  "set_nonblocking sk descriptor s =
     (case sk_getfl sk descriptor s of
        Inl error \<Rightarrow> (s, Some error)
      | Inr flags \<Rightarrow> sk_setfl sk descriptor (or flags O_NONBLOCK) s)"

definition set_close_on_exec :: "'s sockets \<Rightarrow> int \<Rightarrow> 's \<Rightarrow> 's \<times> errno option" where
  "set_close_on_exec sk descriptor s =
     (case sk_getfd sk descriptor s of
        Inl error \<Rightarrow> (s, Some error)
      | Inr flags \<Rightarrow> sk_setfd sk descriptor (or flags FD_CLOEXEC) s)"

section \<open>Responses\<close>

fun to_wire_response :: "EngineResponse \<Rightarrow> ServerMessage WireEnvelope option" where
  "to_wire_response (SubmitResponse value) =
     (let status = (if ser_status value = Accepted then WireAccepted else WireRejected)
      in case (case ser_rejection_reason value of None \<Rightarrow> Some WireNone | Some reason \<Rightarrow> to_wire_rejection_code reason) of
           None \<Rightarrow> None
         | Some rejection \<Rightarrow>
             Some \<lparr>env_request_id = ser_request_id value,
               env_message = ServerSubmitResult \<lparr>srr_status = status, srr_rejection_code = rejection,
                 srr_executed_quantity = ser_executed_quantity value, srr_resting_quantity = ser_resting_quantity value\<rparr>\<rparr>)"
| "to_wire_response (CancelResponse value) =
     (case to_wire_cancel_status (cer_status value) of
        None \<Rightarrow> None
      | Some status \<Rightarrow>
          Some \<lparr>env_request_id = cer_request_id value,
            env_message = ServerCancelResult \<lparr>crr_status = status, crr_cancelled_quantity = cer_cancelled_quantity value\<rparr>\<rparr>)"
| "to_wire_response (UnavailableResponse value) =
     Some \<lparr>env_request_id = uer_request_id value, env_message = ServerEngineUnavailable \<lparr>eur_code = WireUnavailable\<rparr>\<rparr>"

fun response_connection_id :: "EngineResponse \<Rightarrow> ConnectionId" where
  "response_connection_id (SubmitResponse value) = ser_connection_id value"
| "response_connection_id (CancelResponse value) = cer_connection_id value"
| "response_connection_id (UnavailableResponse value) = uer_connection_id value"

section \<open>Connections\<close>

definition update_connection :: "int \<Rightarrow> (Connection \<Rightarrow> Connection) \<Rightarrow> Gateway \<Rightarrow> Gateway" where
  "update_connection fd f g = g\<lparr>gw_connections := map (\<lambda>(d, c). (d, if d = fd then f c else c)) (gw_connections g)\<rparr>"

definition find_connection :: "Gateway \<Rightarrow> ConnectionId \<Rightarrow> (int \<times> Connection) option" where
  "find_connection g cid = find (\<lambda>(d, c). con_id c = cid) (gw_connections g)"

definition queue_response :: "int \<Rightarrow> ServerMessage WireEnvelope \<Rightarrow> Gateway \<Rightarrow> Gateway" where
  "queue_response fd response g =
     update_connection fd (\<lambda>c.
       case encode_server_frame response of
         Inr bytes \<Rightarrow>
           (case output_append (con_output c) bytes (cfg_maximum_output_buffer_bytes (gw_config g)) of
              (output, True) \<Rightarrow> c\<lparr>con_output := output\<rparr>
            | (output, False) \<Rightarrow> c\<lparr>con_output := output_clear output, con_closing := True\<rparr>)
       | Inl _ \<Rightarrow> c\<lparr>con_output := output_clear (con_output c), con_closing := True\<rparr>) g"

definition flush_output ::
  "'s sockets \<Rightarrow> int \<Rightarrow> Gateway \<Rightarrow> 's \<Rightarrow> ('s \<times> Gateway) option" where
  "flush_output sk fd g s =
     (case map_of (gw_connections g) fd of
        None \<Rightarrow> Some (s, g)
      | Some c \<Rightarrow>
          Option.bind (output_flush (sk_send sk fd) (con_output c) s) (\<lambda>(s, output, result).
          if result = Fatal
          then Some (s, update_connection fd (\<lambda>c. c\<lparr>con_closing := True, con_output := output_clear output\<rparr>) g)
          else Some (s, update_connection fd (\<lambda>c. c\<lparr>con_output := output\<rparr>) g)))"

fun flush_outputs_once :: "'s sockets \<Rightarrow> int list \<Rightarrow> Gateway \<Rightarrow> 's \<Rightarrow> ('s \<times> Gateway) option" where
  "flush_outputs_once sk [] g s = Some (s, g)"
| "flush_outputs_once sk (fd # fds) g s =
     (case map_of (gw_connections g) fd of
        None \<Rightarrow> flush_outputs_once sk fds g s
      | Some c \<Rightarrow>
          if output_empty (con_output c) then flush_outputs_once sk fds g s
          else Option.bind (flush_output sk fd g s) (\<lambda>(s, g). flush_outputs_once sk fds g s))"

definition close_if_finished :: "'s sockets \<Rightarrow> int \<Rightarrow> Gateway \<Rightarrow> 's \<Rightarrow> 's \<times> Gateway" where
  "close_if_finished sk fd g s =
     (case map_of (gw_connections g) fd of
        None \<Rightarrow> (s, g)
      | Some c \<Rightarrow>
          if con_closing c \<and> output_empty (con_output c)
          then (close_socket sk fd s, g\<lparr>gw_connections := filter (\<lambda>(d, c). d \<noteq> fd) (gw_connections g)\<rparr>)
          else (s, g))"

definition close_all_connections :: "'s sockets \<Rightarrow> Gateway \<Rightarrow> 's \<Rightarrow> 's \<times> Gateway" where
  "close_all_connections sk g s =
     (fold (\<lambda>(d, c) s. close_socket sk d s) (gw_connections g) s, g\<lparr>gw_connections := []\<rparr>)"

section \<open>Admission\<close>

definition admit ::
  "Shared \<Rightarrow> Gateway \<Rightarrow> ConnectionId \<Rightarrow> ClientMessage WireEnvelope \<Rightarrow> (Shared \<times> bool) outcome" where
  "admit sh g cid request =
     (if gw_shutdown_started g \<or> sh_engine_failed sh then Done (sh, False)
      else case try_acquire (sh_limiter sh) of
          (limiter, None) \<Rightarrow> Done (sh\<lparr>sh_limiter := limiter\<rparr>, False)
        | (limiter, Some reservation) \<Rightarrow>
            let sh = sh\<lparr>sh_limiter := limiter\<rparr>;
                admitted = \<lparr>adm_request = to_engine_request cid request, adm_completion = fst (reservation_move reservation)\<rparr>
            in case try_push (sh_requests sh) admitted of
                 (requests, True) \<Rightarrow> Done (sh\<lparr>sh_requests := requests\<rparr>, True)
               | (requests, False) \<Rightarrow>
                   obind (reservation_destroy (adm_completion admitted) limiter) (\<lambda>limiter.
                   Done (sh\<lparr>sh_limiter := limiter\<rparr>, False)))"

abbreviation (input) kMaximumPendingRequests :: nat where "kMaximumPendingRequests \<equiv> 4096"
abbreviation (input) kReceiveBufferSize :: nat where "kReceiveBufferSize \<equiv> 4096"

definition retain_pending :: "ConnectionId \<Rightarrow> ClientMessage WireEnvelope \<Rightarrow> Gateway \<Rightarrow> Gateway" where
  "retain_pending cid request g =
     (if length (gw_pending g) = kMaximumPendingRequests
      then case find_connection g cid of
          None \<Rightarrow> g
        | Some (fd, c) \<Rightarrow> update_connection fd (\<lambda>c. c\<lparr>con_closing := True\<rparr>) g
      else g\<lparr>gw_pending := gw_pending g @ [\<lparr>pen_connection_id = cid, pen_request = request\<rparr>]\<rparr>)"

text \<open>The loop over the messages of one \<open>feed\<close>: once one is refused, it and all after it are retained.\<close>

fun admit_messages ::
  "Shared \<Rightarrow> Gateway \<Rightarrow> ConnectionId \<Rightarrow> ClientMessage WireEnvelope list \<Rightarrow> (Shared \<times> Gateway) outcome" where
  "admit_messages sh g cid [] = Done (sh, g)"
| "admit_messages sh g cid (m # ms) =
     obind (admit sh g cid m) (\<lambda>(sh, accepted).
     if accepted then admit_messages sh g cid ms
     else Done (sh, (fold (retain_pending cid) (m # ms) g)\<lparr>gw_reads_paused := True\<rparr>))"

partial_function (option) receive_from ::
  "'s sockets \<Rightarrow> int \<Rightarrow> Shared \<Rightarrow> Gateway \<Rightarrow> 's \<Rightarrow> ('s \<times> (Shared \<times> Gateway) outcome) option" where
  "receive_from sk fd sh g s =
     (case map_of (gw_connections g) fd of
        None \<Rightarrow> Some (s, Undefined)
      | Some c \<Rightarrow>
          if con_closing c \<or> gw_reads_paused g \<or> gw_shutdown_started g then Some (s, Done (sh, g))
          else case sk_recv sk fd kReceiveBufferSize s of
              (s, Inr bytes) \<Rightarrow>
                if bytes \<noteq> []
                then (case parser_feed (con_parser c) bytes of
                    Done (parser, parsed) \<Rightarrow>
                      (case admit_messages sh (update_connection fd (\<lambda>c. c\<lparr>con_parser := parser\<rparr>) g) (con_id c)
                              (feed_messages parsed) of
                         Done (sh, g) \<Rightarrow>
                           receive_from sk fd sh
                             (if feed_error parsed \<noteq> None then update_connection fd (\<lambda>c. c\<lparr>con_closing := True\<rparr>) g else g) s
                       | Throws \<Rightarrow> Some (s, Throws) | Terminates \<Rightarrow> Some (s, Terminates) | Undefined \<Rightarrow> Some (s, Undefined))
                  | Throws \<Rightarrow> Some (s, Throws) | Terminates \<Rightarrow> Some (s, Terminates) | Undefined \<Rightarrow> Some (s, Undefined))
                else Some (s, Done (sh, update_connection fd (\<lambda>c. c\<lparr>con_closing := True\<rparr>) g))
            | (s, Inl error) \<Rightarrow>
                if error = EINTR then receive_from sk fd sh g s
                else if error = EAGAIN then Some (s, Done (sh, g))
                else Some (s, Done (sh, update_connection fd (\<lambda>c. c\<lparr>con_closing := True\<rparr>) g)))"

fun drain_pending_loop :: "Shared \<Rightarrow> Gateway \<Rightarrow> PendingRequest list \<Rightarrow> (Shared \<times> Gateway) outcome" where
  "drain_pending_loop sh g [] = Done (sh, g\<lparr>gw_pending := [], gw_reads_paused := False\<rparr>)"
| "drain_pending_loop sh g (p # ps) =
     (case find_connection g (pen_connection_id p) of
        None \<Rightarrow> drain_pending_loop sh g ps
      | Some (fd, c) \<Rightarrow>
          if con_closing c then drain_pending_loop sh g ps
          else obind (admit sh g (con_id c) (pen_request p)) (\<lambda>(sh, accepted).
               if accepted then drain_pending_loop sh g ps
               else Done (sh, g\<lparr>gw_pending := p # ps, gw_reads_paused := True\<rparr>)))"

definition drain_pending_requests :: "Shared \<Rightarrow> Gateway \<Rightarrow> (Shared \<times> Gateway) outcome" where
  "drain_pending_requests sh g =
     (if gw_shutdown_started g \<or> sh_engine_failed sh then Done (sh, g)
      else drain_pending_loop sh g (gw_pending g))"

section \<open>Delivery\<close>

definition deliver_completion :: "EngineResponse \<Rightarrow> Gateway \<Rightarrow> Gateway" where
  "deliver_completion response g =
     (case find_connection g (response_connection_id response) of
        None \<Rightarrow> g
      | Some (fd, c) \<Rightarrow>
          if con_closing c then g
          else (case to_wire_response response of
              Some wire \<Rightarrow> queue_response fd wire g
            | None \<Rightarrow> update_connection fd (\<lambda>c. c\<lparr>con_output := output_clear (con_output c), con_closing := True\<rparr>) g))"

text \<open>The loop that empties the response queue, over the completions in it.\<close>

fun drain_completions_loop ::
  "Shared \<Rightarrow> Gateway \<Rightarrow> EngineCompletion list \<Rightarrow> (Shared \<times> Gateway) outcome" where
  "drain_completions_loop sh g [] = Done (sh, g)"
| "drain_completions_loop sh g (completion # completions) =
     (let sh = sh\<lparr>sh_responses := fst (try_pop (sh_responses sh))\<rparr>;
          g = deliver_completion (cmp_response completion) g
      in obind (reservation_release (cmp_completion completion) (sh_limiter sh)) (\<lambda>(_, limiter).
         drain_completions_loop (sh\<lparr>sh_limiter := limiter\<rparr>) g completions))"

definition drain_engine_completions :: "Shared \<Rightarrow> Gateway \<Rightarrow> (Shared \<times> Gateway) outcome" where
  "drain_engine_completions sh g = drain_completions_loop sh g (bq_items (sh_responses sh))"

section \<open>Shutdown\<close>

definition request_stop :: "Shared \<Rightarrow> Shared" where
  "request_stop sh = sh\<lparr>sh_stop_requested := True\<rparr>"

definition enter_fail_stop :: "Shared \<Rightarrow> Shared" where
  "enter_fail_stop sh = request_stop (sh\<lparr>sh_engine_failed := True\<rparr>)"

definition begin_shutdown_if_requested :: "'s sockets \<Rightarrow> Shared \<Rightarrow> Gateway \<Rightarrow> 's \<Rightarrow> 's \<times> Shared \<times> Gateway" where
  "begin_shutdown_if_requested sk sh g s =
     (if \<not> sh_stop_requested sh \<or> gw_shutdown_started g then (s, sh, g)
      else (close_socket sk (gw_listener g) s, sh\<lparr>sh_requests := close (sh_requests sh)\<rparr>,
            g\<lparr>gw_shutdown_started := True, gw_listener := - 1, gw_pending := []\<rparr>))"

definition shutdown_complete :: "Shared \<Rightarrow> Gateway \<Rightarrow> bool" where
  "shutdown_complete sh g \<longleftrightarrow>
     gw_shutdown_started g \<and> bq_closed (sh_responses sh) \<and> queue_size (sh_responses sh) = 0"

section \<open>The poll loop\<close>

partial_function (option) accept_connections :: "'s sockets \<Rightarrow> Gateway \<Rightarrow> 's \<Rightarrow> ('s \<times> Gateway) option" where
  "accept_connections sk g s =
     (case sk_accept sk (gw_listener g) s of
        (s, Inr descriptor) \<Rightarrow>
          if length (gw_connections g) \<ge> cfg_maximum_connections (gw_config g) \<or> gw_next_connection_id g = 0
          then accept_connections sk g (close_socket sk descriptor s)
          else (case set_nonblocking sk descriptor s of
              (s, Some _) \<Rightarrow> accept_connections sk g (close_socket sk descriptor s)
            | (s, None) \<Rightarrow>
                (case set_close_on_exec sk descriptor s of
                   (s, Some _) \<Rightarrow> accept_connections sk g (close_socket sk descriptor s)
                 | (s, None) \<Rightarrow>
                     accept_connections sk
                       (g\<lparr>gw_next_connection_id := gw_next_connection_id g + 1,
                         gw_connections := gw_connections g @
                           [(descriptor, new_connection (ConnectionId (gw_next_connection_id g))
                                           (cfg_maximum_input_buffer_bytes (gw_config g)))]\<rparr>) s))
      | (s, Inl error) \<Rightarrow> if error = EINTR then accept_connections sk g s else Some (s, g))"

text \<open>The part of a turn before \<open>poll\<close>; the flag tells that the loop ends.\<close>

definition turn_before_poll ::
  "'s sockets \<Rightarrow> Shared \<Rightarrow> Gateway \<Rightarrow> 's \<Rightarrow> ('s \<times> (Shared \<times> Gateway \<times> bool) outcome) option" where
  "turn_before_poll sk sh g s =
     (case begin_shutdown_if_requested sk sh g s of
        (s, sh, g) \<Rightarrow>
          (case obind (drain_engine_completions sh g) (\<lambda>(sh, g). drain_pending_requests sh g) of
             Done (sh, g) \<Rightarrow>
               if shutdown_complete sh g
               then Option.bind (flush_outputs_once sk (map fst (gw_connections g)) g s) (\<lambda>(s, g). Some (s, Done (sh, g, True)))
               else Some (s, Done (sh, g, False))
           | Throws \<Rightarrow> Some (s, Throws) | Terminates \<Rightarrow> Some (s, Terminates) | Undefined \<Rightarrow> Some (s, Undefined)))"

text \<open>Whether a connection is polled for input and for output.\<close>

definition interest :: "Gateway \<Rightarrow> Connection \<Rightarrow> bool \<times> bool" where
  "interest g c =
     (\<not> gw_shutdown_started g \<and> \<not> gw_reads_paused g \<and> \<not> con_closing c, \<not> output_empty (con_output c))"

fun serve_clients ::
  "'s sockets \<Rightarrow> (int \<times> poll_events) list \<Rightarrow> Shared \<Rightarrow> Gateway \<Rightarrow> 's \<Rightarrow> ('s \<times> (Shared \<times> Gateway) outcome) option" where
  "serve_clients sk [] sh g s = Some (s, Done (sh, g))"
| "serve_clients sk ((fd, events) # clients) sh g s =
     (if map_of (gw_connections g) fd = None then serve_clients sk clients sh g s
      else Option.bind (if poll_in events then receive_from sk fd sh g s else Some (s, Done (sh, g))) (\<lambda>(s, received).
        case received of
          Done (sh, g) \<Rightarrow>
            Option.bind (if poll_out events then flush_output sk fd g s else Some (s, g)) (\<lambda>(s, g).
              let g = (if poll_error events then update_connection fd (\<lambda>c. c\<lparr>con_closing := True\<rparr>) g else g)
              in case close_if_finished sk fd g s of (s, g) \<Rightarrow> serve_clients sk clients sh g s)
        | Throws \<Rightarrow> Some (s, Throws) | Terminates \<Rightarrow> Some (s, Terminates) | Undefined \<Rightarrow> Some (s, Undefined)))"

text \<open>The part after \<open>poll\<close>, given whether the wake-up descriptor is readable and the events of the others.\<close>

definition turn_after_poll ::
  "'s sockets \<Rightarrow> bool \<Rightarrow> poll_events \<Rightarrow> (int \<times> poll_events) list \<Rightarrow> Shared \<Rightarrow> Gateway \<Rightarrow> 's \<Rightarrow>
   ('s \<times> (Shared \<times> Gateway) outcome) option" where
  "turn_after_poll sk woken listener_events clients sh g s =
     (case (if woken
            then case begin_shutdown_if_requested sk sh g s of
                (s, sh, g) \<Rightarrow> (s, obind (drain_engine_completions sh g) (\<lambda>(sh, g). drain_pending_requests sh g))
            else (s, Done (sh, g))) of
        (s, Done (sh, g)) \<Rightarrow>
          Option.bind (if gw_listener g \<ge> 0 \<and> poll_in listener_events \<and> \<not> gw_shutdown_started g
                       then accept_connections sk g s else Some (s, g)) (\<lambda>(s, g).
          serve_clients sk clients
            (if gw_listener g \<ge> 0 \<and> poll_error listener_events then request_stop sh else sh) g s)
      | (s, Throws) \<Rightarrow> Some (s, Throws) | (s, Terminates) \<Rightarrow> Some (s, Terminates) | (s, Undefined) \<Rightarrow> Some (s, Undefined))"

text \<open>What follows the loop.\<close>

definition finish_run :: "'s sockets \<Rightarrow> Gateway \<Rightarrow> 's \<Rightarrow> 's \<times> Gateway" where
  "finish_run sk g s = close_all_connections sk (g\<lparr>gw_listener := - 1\<rparr>) (close_socket sk (gw_listener g) s)"

section \<open>Creation\<close>

definition valid_gateway_config :: "ServerConfig \<Rightarrow> bool" where
  "valid_gateway_config config \<longleftrightarrow>
     \<not> (cfg_bind_address config = [] \<or> cfg_maximum_connections config = 0 \<or>
        cfg_maximum_input_buffer_bytes config < kWireFrameHeaderSize + kCancelOrderRequestPayloadSize \<or>
        cfg_maximum_output_buffer_bytes config = 0)"

definition new_gateway :: "ServerConfig \<Rightarrow> int \<Rightarrow> int \<Rightarrow> u16 \<Rightarrow> Gateway" where
  "new_gateway config listener wakeup port =
     \<lparr>gw_config = config, gw_listener = listener, gw_wakeup = wakeup, gw_port = port, gw_connections = [],
      gw_pending = [], gw_next_connection_id = 1, gw_reads_paused = False, gw_shutdown_started = False\<rparr>"

definition gateway_create ::
  "'s sockets \<Rightarrow> ServerConfig \<Rightarrow> 's \<Rightarrow> 's \<times> (GatewayServerError + Gateway)" where
  "gateway_create sk config s =
     (if \<not> valid_gateway_config config then (s, Inl (gateway_error GatewayInvalidConfiguration None))
      else case sk_inet_pton sk (cfg_bind_address config) of
          None \<Rightarrow> (s, Inl (gateway_error InvalidBindAddress None))
        | Some address \<Rightarrow>
     (case sk_socket sk s of
        (s, Inl error) \<Rightarrow> (s, Inl (gateway_error SocketCreationFailed (Some error)))
      | (s, Inr listener) \<Rightarrow>
     (case sk_reuse_address sk listener s of
        (s, Some error) \<Rightarrow> (close_socket sk listener s, Inl (gateway_error SocketOptionFailed (Some error)))
      | (s, None) \<Rightarrow>
     (case set_nonblocking sk listener s of
        (s, Some error) \<Rightarrow> (close_socket sk listener s, Inl (gateway_error NonblockingFailed (Some error)))
      | (s, None) \<Rightarrow>
     (case set_close_on_exec sk listener s of
        (s, Some error) \<Rightarrow> (close_socket sk listener s, Inl (gateway_error NonblockingFailed (Some error)))
      | (s, None) \<Rightarrow>
     (case sk_bind sk listener address (cfg_port config) s of
        (s, Some error) \<Rightarrow> (close_socket sk listener s, Inl (gateway_error BindFailed (Some error)))
      | (s, None) \<Rightarrow>
     (case sk_listen sk listener (min (cfg_maximum_connections config) 2147483647) s of
        (s, Some error) \<Rightarrow> (close_socket sk listener s, Inl (gateway_error ListenFailed (Some error)))
      | (s, None) \<Rightarrow>
     (case sk_getsockname sk listener s of
        Inl error \<Rightarrow> (close_socket sk listener s, Inl (gateway_error SocketNameFailed (Some error)))
      | Inr port \<Rightarrow>
     (case sk_eventfd sk s of
        (s, Inl error) \<Rightarrow> (close_socket sk listener s, Inl (gateway_error WakeupCreationFailed (Some error)))
      | (s, Inr wakeup) \<Rightarrow> (s, Inr (new_gateway config listener wakeup port)))))))))))"

end
