(* ===== verification/Durable_Engine.thy ===== *)
theory Durable_Engine
  imports Journal_Storage Order_Book
begin

text \<open>
  The model of \<^verbatim>\<open>include/matching/durable_engine.hpp\<close> and \<^verbatim>\<open>src/durable_engine.cpp\<close>: a book and
  a journal writer, where every batch of commands is on disk before the first of them is applied.
  Allocation failures are given by an argument: \<open>ef_journal\<close> while the frames of a batch are prepared,
  \<open>ef_results\<close> for the vector of results, \<open>ef_command i\<close> for the book while it applies command \<open>i\<close>, and
  \<open>ef_book\<close> for a new book. \<open>None\<close> means that the call does not return, as in \<open>Journal_Storage\<close>, or
  that the book has called \<open>std::terminate\<close> or has undefined behaviour. The hook for tests is not set.
\<close>

section \<open>Types\<close>

datatype DurableEngineErrorCode = JournalFailure | ApplicationFailure | RecoveryReplayFailure | EngineFailed

record DurableEngineError =
  dee_code :: DurableEngineErrorCode
  dee_journal_error :: "JournalStorageError option"

datatype DurableEngineState = Healthy | Failed

record DurableEngine =
  eng_book :: OrderBook
  eng_writer :: JournalWriter
  eng_state :: DurableEngineState

datatype BatchCommandResult = BatchSubmit SubmitResult | BatchCancel CancelResult

record engine_faults =
  ef_journal :: bool
  ef_results :: bool
  ef_command :: "nat \<Rightarrow> faults"
  ef_book :: bool

definition journal_failure :: "JournalStorageError \<Rightarrow> DurableEngineError" where
  "journal_failure error = \<lparr>dee_code = JournalFailure, dee_journal_error = Some error\<rparr>"

definition application_failure :: "DurableEngineErrorCode \<Rightarrow> DurableEngineError" where
  "application_failure code = \<lparr>dee_code = code, dee_journal_error = None\<rparr>"

definition new_engine :: "OrderBook \<Rightarrow> JournalWriter \<Rightarrow> DurableEngine" where
  "new_engine book writer = \<lparr>eng_book = book, eng_writer = writer, eng_state = Healthy\<rparr>"

section \<open>Applying commands\<close>

fun apply_command :: "faults \<Rightarrow> OrderBook \<Rightarrow> JournalCommand \<Rightarrow> OrderBook \<times> BatchCommandResult outcome" where
  "apply_command faults book (SubmitLimitOrderCommand order) =
     (case submit faults book order of (book, result) \<Rightarrow> (book, obind result (\<lambda>r. Done (BatchSubmit r))))"
| "apply_command faults book (CancelOrderCommand oid) =
     (case cancel book oid of (book, result) \<Rightarrow> (book, obind result (\<lambda>r. Done (BatchCancel r))))"

fun apply_record :: "faults \<Rightarrow> OrderBook \<Rightarrow> JournalRecord \<Rightarrow> OrderBook \<times> unit outcome" where
  "apply_record faults book record =
     (case rec_command record of
        SubmitLimitOrderCommand order \<Rightarrow>
          (case submit faults book order of (book, result) \<Rightarrow> (book, obind result (\<lambda>_. Done ())))
      | CancelOrderCommand oid \<Rightarrow>
          (case cancel book oid of (book, result) \<Rightarrow> (book, obind result (\<lambda>_. Done ()))))"

declare apply_record.simps [simp del]

text \<open>The loop of \<open>execute_batch\<close> over the commands, from \<open>index\<close> on.\<close>

fun apply_batch ::
  "(nat \<Rightarrow> faults) \<Rightarrow> nat \<Rightarrow> OrderBook \<Rightarrow> JournalCommand list \<Rightarrow> BatchCommandResult list \<Rightarrow>
   OrderBook \<times> BatchCommandResult list outcome" where
  "apply_batch faults index book [] results = (book, Done results)"
| "apply_batch faults index book (command # commands) results =
     (case apply_command (faults index) book command of
        (book, Done result) \<Rightarrow> apply_batch faults (Suc index) book commands (results @ [result])
      | (book, Throws) \<Rightarrow> (book, Throws)
      | (book, Terminates) \<Rightarrow> (book, Terminates)
      | (book, Undefined) \<Rightarrow> (book, Undefined))"

fun replay_records :: "(nat \<Rightarrow> faults) \<Rightarrow> nat \<Rightarrow> OrderBook \<Rightarrow> JournalRecord list \<Rightarrow> OrderBook \<times> unit outcome" where
  "replay_records faults index book [] = (book, Done ())"
| "replay_records faults index book (record # records) =
     (case apply_record (faults index) book record of
        (book, Done _) \<Rightarrow> replay_records faults (Suc index) book records
      | (book, Throws) \<Rightarrow> (book, Throws)
      | (book, Terminates) \<Rightarrow> (book, Terminates)
      | (book, Undefined) \<Rightarrow> (book, Undefined))"

definition replay ::
  "(nat \<Rightarrow> faults) \<Rightarrow> OrderBook \<Rightarrow> JournalRecord list \<Rightarrow> (OrderBook \<times> DurableEngineError option) option" where
  "replay faults book records =
     (case replay_records faults 0 book records of
        (book, Done _) \<Rightarrow> Some (book, None)
      | (book, Throws) \<Rightarrow> Some (book, Some (application_failure RecoveryReplayFailure))
      | (book, _) \<Rightarrow> None)"

section \<open>Operations\<close>

definition execute_batch ::
  "'s posix \<Rightarrow> engine_faults \<Rightarrow> DurableEngine \<Rightarrow> JournalCommand list \<Rightarrow> 's \<Rightarrow>
   ('s \<times> DurableEngine \<times> (DurableEngineError + BatchCommandResult list)) option" where
  "execute_batch os faults e commands s =
     (if eng_state e = Failed then Some (s, e, Inl (application_failure EngineFailed))
      else Option.bind (append_batch_and_sync os (ef_journal faults) (eng_writer e) commands s) (\<lambda>(s, writer, append_result).
        let e = e\<lparr>eng_writer := writer\<rparr>
        in case append_result of
             Inl error \<Rightarrow> Some (s, e\<lparr>eng_state := Failed\<rparr>, Inl (journal_failure error))
           | Inr sequences \<Rightarrow>
               if ef_results faults
               then Some (s, e\<lparr>eng_state := Failed\<rparr>, Inl (application_failure ApplicationFailure))
               else (case apply_batch (ef_command faults) 0 (eng_book e) commands [] of
                   (book, Done results) \<Rightarrow> Some (s, e\<lparr>eng_book := book\<rparr>, Inr results)
                 | (book, Throws) \<Rightarrow>
                     Some (s, e\<lparr>eng_book := book, eng_state := Failed\<rparr>, Inl (application_failure ApplicationFailure))
                 | (book, _) \<Rightarrow> None)))"

definition engine_submit ::
  "'s posix \<Rightarrow> engine_faults \<Rightarrow> DurableEngine \<Rightarrow> NewLimitOrder \<Rightarrow> 's \<Rightarrow>
   ('s \<times> DurableEngine \<times> (DurableEngineError + SubmitResult)) option" where
  "engine_submit os faults e order s =
     Option.bind (execute_batch os faults e [SubmitLimitOrderCommand order] s) (\<lambda>(s, e, batch_result).
     case batch_result of
       Inl error \<Rightarrow> Some (s, e, Inl error)
     | Inr (BatchSubmit result # _) \<Rightarrow> Some (s, e, Inr result)
     | Inr _ \<Rightarrow> None)"

definition engine_cancel ::
  "'s posix \<Rightarrow> engine_faults \<Rightarrow> DurableEngine \<Rightarrow> OrderId \<Rightarrow> 's \<Rightarrow>
   ('s \<times> DurableEngine \<times> (DurableEngineError + CancelResult)) option" where
  "engine_cancel os faults e oid s =
     Option.bind (execute_batch os faults e [CancelOrderCommand oid] s) (\<lambda>(s, e, batch_result).
     case batch_result of
       Inl error \<Rightarrow> Some (s, e, Inl error)
     | Inr (BatchCancel result # _) \<Rightarrow> Some (s, e, Inr result)
     | Inr _ \<Rightarrow> None)"

definition engine_create ::
  "'s posix \<Rightarrow> engine_faults \<Rightarrow> path \<Rightarrow> 's \<Rightarrow> ('s \<times> (DurableEngineError + DurableEngine)) option" where
  "engine_create os faults path s =
     Option.bind (writer_create os path s) (\<lambda>(s, writer_result).
     case writer_result of
       Inl error \<Rightarrow> Some (s, Inl (journal_failure error))
     | Inr writer \<Rightarrow>
         if ef_book faults
         then Some (writer_destroy os writer s, Inl (application_failure ApplicationFailure))
         else Some (s, Inr (new_engine new_order_book writer)))"

text \<open>
  \<open>recover\<close> in two parts: the scan, which repairs a truncated tail and then scans again, keeping the
  repaired writer, and the replay. The repaired writer is destroyed on every return that does not
  hand it to the engine.
\<close>

definition scan_or_repair ::
  "'s posix \<Rightarrow> path \<Rightarrow> 's \<Rightarrow> ('s \<times> (DurableEngineError + JournalScan \<times> JournalWriter option)) option" where
  "scan_or_repair os path s =
     Option.bind (journal_scan os path s) (\<lambda>(s, scan_result).
     case scan_result of
       Inl error \<Rightarrow> Some (s, Inl (journal_failure error))
     | Inr scan \<Rightarrow>
         if scan_has_truncated_tail scan
         then Option.bind (writer_repair_and_open os path s) (\<lambda>(s, repair_result).
              case repair_result of
                Inl error \<Rightarrow> Some (s, Inl (journal_failure error))
              | Inr writer \<Rightarrow>
                  Option.bind (journal_scan os path s) (\<lambda>(s, scan_result).
                  case scan_result of
                    Inl error \<Rightarrow> Some (writer_destroy os writer s, Inl (journal_failure error))
                  | Inr scan \<Rightarrow>
                      if scan_has_truncated_tail scan
                      then Some (writer_destroy os writer s, Inl (application_failure RecoveryReplayFailure))
                      else Some (s, Inr (scan, Some writer))))
         else Some (s, Inr (scan, None)))"

definition destroy_repaired :: "'s posix \<Rightarrow> JournalWriter option \<Rightarrow> 's \<Rightarrow> 's" where
  "destroy_repaired os repaired s = (case repaired of None \<Rightarrow> s | Some writer \<Rightarrow> writer_destroy os writer s)"

definition engine_recover ::
  "'s posix \<Rightarrow> engine_faults \<Rightarrow> path \<Rightarrow> 's \<Rightarrow> ('s \<times> (DurableEngineError + DurableEngine)) option" where
  "engine_recover os faults path s =
     Option.bind (scan_or_repair os path s) (\<lambda>(s, result).
     case result of
       Inl error \<Rightarrow> Some (s, Inl error)
     | Inr (scan, repaired_writer) \<Rightarrow>
         if ef_book faults
         then Some (destroy_repaired os repaired_writer s, Inl (application_failure RecoveryReplayFailure))
         else Option.bind (replay (ef_command faults) new_order_book (scan_records scan)) (\<lambda>(book, replay_error).
           case replay_error of
             Some error \<Rightarrow> Some (destroy_repaired os repaired_writer s, Inl error)
           | None \<Rightarrow>
               (case repaired_writer of
                  Some writer \<Rightarrow> Some (s, Inr (new_engine book writer))
                | None \<Rightarrow>
                    Option.bind (writer_open_recovered os path s) (\<lambda>(s, writer_result).
                    case writer_result of
                      Inl error \<Rightarrow> Some (s, Inl (journal_failure error))
                    | Inr writer \<Rightarrow> Some (s, Inr (new_engine book writer))))))"

end
