(* ===== verification/Exchange_Server.thy ===== *)
theory Exchange_Server
  imports Gateway_Server Durable_Engine
begin

text \<open>
  The model of \<^verbatim>\<open>include/matching/exchange_server.hpp\<close> and \<^verbatim>\<open>src/exchange_server.cpp\<close>: the engine worker,
  which takes admitted requests from one queue in batches, executes them on the durable engine and
  publishes one completion for each on the other queue, and the creation of a server. The state that
  the worker alone uses is the record \<open>Worker\<close>; the rest is \<open>Shared\<close>. Waking the gateway up has no
  effect on either. The hooks for tests are not set.
\<close>

section \<open>Types\<close>

datatype ExchangeStartupMode = CreateNew | Recover

record ExchangeServerConfig =
  exc_gateway :: ServerConfig
  exc_maximum_in_flight :: nat
  exc_request_queue_capacity :: nat
  exc_max_durable_batch_size :: nat

datatype ExchangeServerErrorCode = ExchangeInvalidConfiguration | DurableEngineStartupFailed | GatewayStartupFailed

record ExchangeServerError =
  ese_code :: ExchangeServerErrorCode
  ese_durable_engine_error :: "DurableEngineError option"
  ese_gateway_error :: "GatewayServerError option"

record Worker =
  wk_engine :: DurableEngine
  wk_commands_processed :: u64
  wk_batches_processed :: u64
  wk_batch_size_histogram :: "u64 list"

section \<open>Requests, commands and responses\<close>

fun unavailable_response :: "EngineRequest \<Rightarrow> EngineResponse" where
  "unavailable_response (EngineSubmit value) =
     UnavailableResponse \<lparr>uer_connection_id = seq_connection_id value, uer_request_id = seq_request_id value\<rparr>"
| "unavailable_response (EngineCancel value) =
     UnavailableResponse \<lparr>uer_connection_id = ceq_connection_id value, uer_request_id = ceq_request_id value\<rparr>"

fun to_journal_command :: "EngineRequest \<Rightarrow> JournalCommand" where
  "to_journal_command (EngineSubmit value) = SubmitLimitOrderCommand (seq_order value)"
| "to_journal_command (EngineCancel value) = CancelOrderCommand (ceq_order_id value)"

fun summarize :: "EngineRequest \<Rightarrow> BatchCommandResult \<Rightarrow> EngineResponse outcome" where
  "summarize (EngineSubmit request) (BatchSubmit result) =
     Done (SubmitResponse (summarize_submit_result (seq_connection_id request) (seq_request_id request) result))"
| "summarize (EngineCancel request) (BatchCancel result) =
     Done (CancelResponse (summarize_cancel_result (ceq_connection_id request) (ceq_request_id request) result))"
| "summarize _ _ = Terminates"

section \<open>Publishing\<close>

definition publish :: "EngineCompletion \<Rightarrow> Shared \<Rightarrow> Shared outcome" where
  "publish completion sh =
     (case try_push (sh_responses sh) completion of
        (responses, True) \<Rightarrow> Done (sh\<lparr>sh_responses := responses\<rparr>)
      | (responses, False) \<Rightarrow> Terminates)"

text \<open>What remains to be published of a batch: a request with its result, or one that has none.\<close>

datatype publication = Answer AdmittedEngineRequest BatchCommandResult | Unanswered AdmittedEngineRequest

fun publication_request :: "publication \<Rightarrow> AdmittedEngineRequest" where
  "publication_request (Answer admitted result) = admitted"
| "publication_request (Unanswered admitted) = admitted"

fun publication_response :: "publication \<Rightarrow> EngineResponse outcome" where
  "publication_response (Answer admitted result) = summarize (adm_request admitted) result"
| "publication_response (Unanswered admitted) = Done (unavailable_response (adm_request admitted))"

definition publish_one :: "publication \<Rightarrow> Shared \<Rightarrow> Shared outcome" where
  "publish_one p sh =
     obind (publication_response p) (\<lambda>response.
     publish \<lparr>cmp_response = response, cmp_completion = fst (reservation_move (adm_completion (publication_request p)))\<rparr> sh)"

fun publish_all :: "publication list \<Rightarrow> Shared \<Rightarrow> Shared outcome" where
  "publish_all [] sh = Done sh"
| "publish_all (p # ps) sh = obind (publish_one p sh) (publish_all ps)"

section \<open>Executing a batch\<close>

text \<open>
  \<open>execute_and_publish_batch\<close> up to its publications: the statistics, where the histogram is indexed
  with the size of the batch, then the engine. \<open>no_memory\<close> tells that the vector of commands cannot
  be allocated. The result has the new value of \<open>failed\<close>.
\<close>

definition count_batch :: "nat \<Rightarrow> Worker \<Rightarrow> Worker outcome" where
  "count_batch n w =
     (if n < length (wk_batch_size_histogram w)
      then Done (w\<lparr>wk_batches_processed := wk_batches_processed w + 1,
                   wk_commands_processed := wk_commands_processed w + of_nat n,
                   wk_batch_size_histogram := (wk_batch_size_histogram w)[n := wk_batch_size_histogram w ! n + 1]\<rparr>)
      else Undefined)"

definition execute_for_batch ::
  "'s posix \<Rightarrow> engine_faults \<Rightarrow> bool \<Rightarrow> AdmittedEngineRequest list \<Rightarrow> bool \<Rightarrow> Worker \<Rightarrow> Shared \<Rightarrow> 's \<Rightarrow>
   ('s \<times> (Worker \<times> Shared \<times> bool \<times> publication list) outcome) option" where
  "execute_for_batch os faults no_memory batch failed w sh s =
     (if failed then Some (s, Done (w, sh, True, map Unanswered batch))
      else if no_memory then Some (s, Done (w, enter_fail_stop sh, True, map Unanswered batch))
      else Option.bind (execute_batch os faults (wk_engine w) (map (to_journal_command \<circ> adm_request) batch) s) (\<lambda>(s, e, result).
        let w = w\<lparr>wk_engine := e\<rparr>
        in case result of
             Inr results \<Rightarrow>
               if length results \<noteq> length batch then Some (s, Terminates)
               else Some (s, Done (w, sh, False, map2 Answer batch results))
           | Inl _ \<Rightarrow> Some (s, Done (w, enter_fail_stop sh, True, map Unanswered batch))))"

definition execute_and_publish_batch ::
  "'s posix \<Rightarrow> engine_faults \<Rightarrow> bool \<Rightarrow> AdmittedEngineRequest list \<Rightarrow> bool \<Rightarrow> Worker \<Rightarrow> Shared \<Rightarrow> 's \<Rightarrow>
   ('s \<times> (Worker \<times> Shared \<times> bool) outcome) option" where
  "execute_and_publish_batch os faults no_memory batch failed w sh s =
     (case count_batch (length batch) w of
        Done w \<Rightarrow>
          Option.bind (execute_for_batch os faults no_memory batch failed w sh s) (\<lambda>(s, r).
          Some (s, obind r (\<lambda>(w, sh, failed, ps). obind (publish_all ps sh) (\<lambda>sh. Done (w, sh, failed)))))
      | Throws \<Rightarrow> Some (s, Throws) | Terminates \<Rightarrow> Some (s, Terminates) | Undefined \<Rightarrow> Some (s, Undefined))"

section \<open>The steps of the worker thread\<close>

text \<open>
  Where the thread of \<open>worker_loop\<close> stands: at the head of its loop; collecting a batch; publishing
  what a batch has led to; at the head of the loop of its exception handler; publishing there; past
  the loops; returned.
\<close>

datatype worker_place =
    AtHead bool
  | Collecting "AdmittedEngineRequest list" bool
  | Publishing "publication list" bool
  | AtHandler
  | HandlerPublishing publication
  | Leaving
  | Returned

definition new_worker :: "ExchangeServerConfig \<Rightarrow> DurableEngine \<Rightarrow> Worker" where
  "new_worker config e =
     \<lparr>wk_engine = e, wk_commands_processed = 0, wk_batches_processed = 0,
      wk_batch_size_histogram = replicate (exc_request_queue_capacity config + 1) 0\<rparr>"

definition new_shared :: "ExchangeServerConfig \<Rightarrow> Shared" where
  "new_shared config =
     \<lparr>sh_limiter = new_limiter (exc_maximum_in_flight config), sh_requests = new_queue (exc_request_queue_capacity config),
      sh_responses = new_queue (response_queue_capacity_for (exc_maximum_in_flight config)),
      sh_stop_requested = False, sh_engine_failed = False\<rparr>"

text \<open>
  One step of the thread, up to and with its next access to what it shares with the gateway. \<open>None\<close>
  means that it has to wait, or does not return from the engine. \<open>no_batch\<close> tells that the storage of
  the batch cannot be reserved: the exception destroys the request that has just been taken.
\<close>

fun worker_step ::
  "'s posix \<Rightarrow> ExchangeServerConfig \<Rightarrow> engine_faults \<Rightarrow> bool \<Rightarrow> bool \<Rightarrow> worker_place \<Rightarrow> Worker \<Rightarrow> Shared \<Rightarrow> 's \<Rightarrow>
   ('s \<times> (worker_place \<times> Worker \<times> Shared) outcome) option" where
  "worker_step os config faults no_batch no_memory (AtHead failed) w sh s =
     (case wait_pop (sh_requests sh) of
        None \<Rightarrow> None
      | Some (requests, None) \<Rightarrow> Some (s, Done (Leaving, w, sh\<lparr>sh_requests := requests\<rparr>))
      | Some (requests, Some admitted) \<Rightarrow>
          let sh = sh\<lparr>sh_requests := requests\<rparr>
          in if no_batch
             then Some (s, obind (reservation_destroy (adm_completion admitted) (sh_limiter sh)) (\<lambda>limiter.
                           Done (AtHandler, w, enter_fail_stop (sh\<lparr>sh_limiter := limiter\<rparr>))))
             else Some (s, Done (Collecting [admitted] failed, w, sh)))"
| "worker_step os config faults no_batch no_memory (Collecting batch failed) w sh s =
     (case (if length batch < exc_max_durable_batch_size config then try_pop (sh_requests sh) else (sh_requests sh, None)) of
        (requests, Some admitted) \<Rightarrow> Some (s, Done (Collecting (batch @ [admitted]) failed, w, sh\<lparr>sh_requests := requests\<rparr>))
      | (requests, None) \<Rightarrow>
          (case count_batch (length batch) w of
             Done w \<Rightarrow>
               Option.bind (execute_for_batch os faults no_memory batch failed w sh s) (\<lambda>(s, r).
               Some (s, obind r (\<lambda>(w, sh, failed, ps). Done (Publishing ps failed, w, sh))))
           | Throws \<Rightarrow> Some (s, Throws) | Terminates \<Rightarrow> Some (s, Terminates) | Undefined \<Rightarrow> Some (s, Undefined)))"
| "worker_step os config faults no_batch no_memory (Publishing [] failed) w sh s = Some (s, Done (AtHead failed, w, sh))"
| "worker_step os config faults no_batch no_memory (Publishing (p # ps) failed) w sh s =
     Some (s, obind (publish_one p sh) (\<lambda>sh. Done (Publishing ps failed, w, sh)))"
| "worker_step os config faults no_batch no_memory AtHandler w sh s =
     (case wait_pop (sh_requests sh) of
        None \<Rightarrow> None
      | Some (requests, None) \<Rightarrow> Some (s, Done (Leaving, w, sh\<lparr>sh_requests := requests\<rparr>))
      | Some (requests, Some admitted) \<Rightarrow>
          Some (s, Done (HandlerPublishing (Unanswered admitted), w, sh\<lparr>sh_requests := requests\<rparr>)))"
| "worker_step os config faults no_batch no_memory (HandlerPublishing p) w sh s =
     Some (s, obind (publish_one p sh) (\<lambda>sh. Done (AtHandler, w, sh)))"
| "worker_step os config faults no_batch no_memory Leaving w sh s =
     Some (s, Done (Returned, w, sh\<lparr>sh_responses := close (sh_responses sh)\<rparr>))"
| "worker_step os config faults no_batch no_memory Returned w sh s = None"

section \<open>Creation\<close>

definition exchange_create ::
  "'s posix \<Rightarrow> 's sockets \<Rightarrow> engine_faults \<Rightarrow> ExchangeServerConfig \<Rightarrow> path \<Rightarrow> ExchangeStartupMode \<Rightarrow> 's \<Rightarrow>
   ('s \<times> (ExchangeServerError + Worker \<times> Shared \<times> Gateway)) option" where
  "exchange_create os sk faults config journal_path startup_mode s =
     (if exc_maximum_in_flight config = 0 \<or> exc_request_queue_capacity config = 0 \<or> exc_max_durable_batch_size config = 0
      then Some (s, Inl \<lparr>ese_code = ExchangeInvalidConfiguration, ese_durable_engine_error = None, ese_gateway_error = None\<rparr>)
      else Option.bind (if startup_mode = CreateNew then engine_create os faults journal_path s
                        else engine_recover os faults journal_path s) (\<lambda>(s, engine_result).
        case engine_result of
          Inl error \<Rightarrow>
            Some (s, Inl \<lparr>ese_code = DurableEngineStartupFailed, ese_durable_engine_error = Some error, ese_gateway_error = None\<rparr>)
        | Inr e \<Rightarrow>
            (case gateway_create sk (exc_gateway config) s of
               (s, Inl error) \<Rightarrow>
                 Some (writer_destroy os (eng_writer e) s,
                       Inl \<lparr>ese_code = GatewayStartupFailed, ese_durable_engine_error = None, ese_gateway_error = Some error\<rparr>)
             | (s, Inr g) \<Rightarrow> Some (s, Inr (new_worker config e, new_shared config, g)))))"

end
