(* ===== verification/Durable_Recovery.thy ===== *)
theory Durable_Recovery
  imports Durable_Engine Journal_Recovery Order_Book_Properties "HOL-Library.Sublist"
begin

text \<open>
  What the durable engine promises: a batch is on disk before it is applied, the results are those of
  the order book specification, a journal is replayed to the book it was written from, and over any
  history of batches, failures, crashes and recoveries no acknowledged command is lost.
\<close>

section \<open>Specification\<close>

fun spec_command :: "FlatBook \<Rightarrow> JournalCommand \<Rightarrow> FlatBook \<times> BatchCommandResult" where
  "spec_command f (SubmitLimitOrderCommand order) = map_prod id BatchSubmit (spec_submit f order)"
| "spec_command f (CancelOrderCommand oid) = map_prod id BatchCancel (spec_cancel f oid)"

fun spec_commands :: "FlatBook \<Rightarrow> JournalCommand list \<Rightarrow> FlatBook \<times> BatchCommandResult list" where
  "spec_commands f [] = (f, [])"
| "spec_commands f (c # cs) =
     (case spec_command f c of (f, r) \<Rightarrow> case spec_commands f cs of (f, rs) \<Rightarrow> (f, r # rs))"

text \<open>The book after the commands \<open>cs\<close> on an empty one.\<close>

definition flat_after :: "JournalCommand list \<Rightarrow> FlatBook" where
  "flat_after cs = fst (spec_commands (flat new_order_book) cs)"

lemma spec_commands_append:
  "fst (spec_commands f (as @ bs)) = fst (spec_commands (fst (spec_commands f as)) bs)"
  by (induction as arbitrary: f) (simp_all add: case_prod_beta)

lemma flat_after_append: "flat_after (as @ bs) = fst (spec_commands (flat_after as) bs)"
  by (simp add: flat_after_def spec_commands_append)

lemma length_spec_commands: "length (snd (spec_commands f cs)) = length cs"
  by (induction cs arbitrary: f) (simp_all add: case_prod_beta)

section \<open>Applying commands\<close>

lemma apply_command_effect:
  assumes "book_ok b"
  obtains
    (applied) b' r where "apply_command faults b c = (b', Done r)" "book_ok b'" "spec_command (flat b) c = (flat b', r)"
  | (thrown) b' site where "apply_command faults b c = (b', Throws)" "book_ok b'" "faults site"
proof (cases c)
  case (SubmitLimitOrderCommand order)
  obtain b' res where s: "submit faults b order = (b', res)" by (cases "submit faults b order")
  note safe = submit_safe [OF assms, of faults order, unfolded s]
  show thesis
  proof (cases res)
    case (Done r)
    from submit_done [OF assms s [unfolded Done]] have "book_ok b'" "spec_submit (flat b) order = (flat b', r)" by simp_all
    with s Done SubmitLimitOrderCommand show thesis by (intro applied [of b' "BatchSubmit r"]) simp_all
  next
    case Throws
    with safe obtain site where "faults site" by auto
    with s Throws SubmitLimitOrderCommand safe show thesis by (intro thrown [of b' site]) simp_all
  qed (use safe in \<open>simp_all add: safe_outcome_def\<close>)
next
  case (CancelOrderCommand oid)
  from cancel_effect [OF assms, of oid] obtain b' r where
    c: "cancel b oid = (b', Done r)" "book_ok b'" "(flat b', r) = spec_cancel (flat b) oid" by (elim exE conjE) (rule that)
  from c(3) have "spec_cancel (flat b) oid = (flat b', r)" by (rule sym)
  with c(1,2) CancelOrderCommand show thesis by (intro applied [of b' "BatchCancel r"]) simp_all
qed

lemma apply_batch_effect:
  assumes "book_ok b"
  shows "(\<exists>b' rs. apply_batch faults i b cs acc = (b', Done (acc @ rs)) \<and> book_ok b' \<and> spec_commands (flat b) cs = (flat b', rs)) \<or>
    (\<exists>b' n site. apply_batch faults i b cs acc = (b', Throws) \<and> book_ok b' \<and> n < length cs \<and> faults (i + n) site)"
  using assms
proof (induction cs arbitrary: b i acc)
  case (Cons c cs)
  show ?case
  proof (rule apply_command_effect [OF Cons.prems, of "faults i" c], goal_cases)
    case (1 b1 r)
    from Cons.IH [OF 1(2), of "Suc i" "acc @ [r]"] show ?case
    proof (elim disjE exE conjE, goal_cases)
      case (1 b' rs)
      then show ?case using \<open>apply_command _ _ _ = _\<close> \<open>spec_command _ _ = _\<close> by simp
    next
      case (2 b' n site)
      then show ?case using \<open>apply_command _ _ _ = _\<close>
        by (intro disjI2 exI [of _ b'] exI [of _ "Suc n"] exI [of _ site]) simp
    qed
  next
    case (2 b' site)
    then show ?case by (intro disjI2 exI [of _ b'] exI [of _ 0] exI [of _ site]) simp
  qed
qed simp

text \<open>Replaying records does to the book what executing their commands did.\<close>

lemma apply_record_command:
  "apply_record faults b r = (case apply_command faults b (rec_command r) of (b, out) \<Rightarrow> (b, obind out (\<lambda>_. Done ())))"
  by (cases "rec_command r")
     (auto simp: apply_record.simps obind_assoc split: prod.split)

lemma replay_is_apply:
  "replay_records faults i b rs =
     (case apply_batch faults i b (map rec_command rs) acc of (b, out) \<Rightarrow> (b, obind out (\<lambda>_. Done ())))"
proof (induction rs arbitrary: b i acc)
  case (Cons r rs)
  obtain b1 out where a: "apply_command (faults i) b (rec_command r) = (b1, out)" by (rule prod.exhaust)
  show ?case
    by (cases out) (simp_all add: apply_record_command a Cons.IH [where acc = "acc @ [_]"])
qed simp

lemma replay_effect:
  obtains
    (replayed) b where "replay faults new_order_book (numbered 1 cs) = Some (b, None)" "book_ok b" "flat b = flat_after cs"
  | (thrown) b n site where
      "replay faults new_order_book (numbered 1 cs) = Some (b, Some (application_failure RecoveryReplayFailure))"
      "n < length cs" "faults n site"
  using apply_batch_effect [OF book_ok_new, of faults 0 cs "[]"]
proof (elim disjE exE conjE, goal_cases)
  case (1 b rs)
  show ?case
    by (rule 1(1) [of b]) (use 1 in \<open>simp_all add: replay_def replay_is_apply [of _ _ _ _ "[]"] flat_after_def\<close>)
next
  case (2 b n site)
  show ?case
    by (rule 2(2) [of b n site]) (use 2 in \<open>simp_all add: replay_def replay_is_apply [of _ _ _ _ "[]"]\<close>)
qed

section \<open>Prefixes of journals\<close>

text \<open>What may follow the last complete record.\<close>

definition incomplete :: "byte list \<Rightarrow> bool" where
  "incomplete tail \<longleftrightarrow> tail = [] \<or> decode_record_prefix tail = Done (Inl TruncatedInput)"

lemma incomplete_prefix:
  assumes "incomplete tail" "prefix x tail"
  shows "incomplete x"
proof -
  from assms(2) obtain y where y: "tail = x @ y" by (rule prefixE)
  obtain r where r: "decode_record_prefix x = Done r" using decode_total by blast
  show ?thesis
  proof (cases "r = Inl TruncatedInput")
    case False
    with decode_record_more [OF r False, of y] assms(1) y show ?thesis by (auto simp: incomplete_def)
  qed (simp add: r incomplete_def)
qed

lemma frames_prefix:
  assumes "prefix x (frames k cs @ tail)" "incomplete tail" "0 < k" "k + length x < 2 ^ 64"
  shows "\<exists>cs' tail'. x = frames k cs' @ tail' \<and> incomplete tail' \<and> prefix cs' cs"
  using assms
proof (induction cs arbitrary: k x)
  case Nil
  then show ?case using incomplete_prefix [of tail x] by (intro exI [of _ "[]"] exI [of _ x]) simp
next
  case (Cons c cs)
  let ?f = "frame (JournalSequence (of_nat k)) c"
  show ?case
  proof (cases "prefix ?f x")
    case True
    then obtain y where y: "x = ?f @ y" by (rule prefixE)
    with Cons.prems(1) have "prefix y (frames (Suc k) cs @ tail)" by simp
    moreover have "Suc k + length y < 2 ^ 64" using Cons.prems(4) y frame_size(1) [of "JournalSequence (of_nat k)" c] by simp
    ultimately obtain cs' tail' where "y = frames (Suc k) cs' @ tail'" "incomplete tail'" "prefix cs' cs"
      using Cons.IH [of y "Suc k"] Cons.prems(2) by auto
    with y show ?thesis by (intro exI [of _ "c # cs'"] exI [of _ tail']) simp
  next
    case False
    have "prefix ?f (frames k (c # cs) @ tail)" by simp
    with False Cons.prems(1) have p: "strict_prefix x ?f" using prefix_same_cases [of x _ ?f] by (auto simp: strict_prefix_def)
    then have "x = take (length x) ?f" "length x < length ?f"
      by (metis prefix_def append_eq_conv_conj strict_prefix_def) (rule prefix_length_less [OF p])
    moreover have "(of_nat k :: u64) \<noteq> 0" using sequence_nonzero [of k] Cons.prems(3,4) by simp
    ultimately have "decode_record_prefix x = Done (Inl TruncatedInput)"
      using torn_frame [of "JournalSequence (of_nat k)" "length x" c] by simp
    then show ?thesis by (intro exI [of _ "[]"] exI [of _ x]) (simp add: incomplete_def)
  qed
qed

lemma image_prefix:
  assumes "prefix x (journal_image cs @ tail)" "prefix encode_file_header x" "incomplete tail" "length x < 2 ^ 63"
  obtains cs' tail' where "x = journal_image cs' @ tail'" "incomplete tail'" "prefix cs' cs"
proof -
  from assms(2) obtain y where y: "x = encode_file_header @ y" by (rule prefixE)
  with assms(1) have "prefix y (frames 1 cs @ tail)" by (simp add: journal_image_def)
  with frames_prefix [OF this assms(3)] assms(4) y obtain cs' tail' where
    "y = frames 1 cs' @ tail'" "incomplete tail'" "prefix cs' cs" by auto
  with y that show thesis by (simp add: journal_image_def)
qed

text \<open>Of two journals one of which continues the other, so do the commands.\<close>

lemma image_prefix_commands:
  assumes "prefix (journal_image as) (journal_image bs @ tail)" "incomplete tail" "length (journal_image bs @ tail) < 2 ^ 63"
  shows "prefix as bs"
proof -
  from assms(1) obtain y where y: "journal_image bs @ tail = journal_image as @ y" by (rule prefixE)
  have eq: "length (frames 1 bs) + length tail = length (frames 1 as) + length y"
    using arg_cong [OF y, of length] by (simp add: journal_image_def)
  have "length (frames 1 bs) + length tail < 2 ^ 63" using assms(3) by (simp add: journal_image_def)
  then have len: "length bs < 2 ^ 63" "length as < 2 ^ 63"
    using length_frames [of bs 1] length_frames [of as 1] eq by linarith+
  have "parse_journal (1 + length bs) tail = ([], if tail = [] then Complete else Torn, tail)"
    using assms(2) by (subst parse_journal.simps) (auto simp: incomplete_def)
  then have "fst (parse_journal 1 (frames 1 bs @ tail)) = bs" using parse_journal_frames [of 1 bs tail] len by simp
  moreover have "\<exists>z. fst (parse_journal 1 (frames 1 as @ y)) = as @ z"
    using parse_journal_frames [of 1 as y] len by (auto split: prod.split)
  ultimately show ?thesis using y by (auto simp: journal_image_def)
qed

lemma image_append: "journal_image (as @ bs) = journal_image as @ frames (Suc (length as)) bs"
  by (simp add: journal_image_def frames_append)

section \<open>Executing a batch\<close>

text \<open>A healthy engine whose file holds the commands \<open>cs\<close> and whose book is the one they lead to.\<close>

definition engine_at :: "'s file_views \<Rightarrow> 's \<Rightarrow> path \<Rightarrow> DurableEngine \<Rightarrow> JournalCommand list \<Rightarrow> bool" where
  "engine_at V s path e cs \<longleftrightarrow> eng_state e = Healthy \<and> book_ok (eng_book e) \<and> flat (eng_book e) = flat_after cs \<and>
     content V s path = Some (journal_image cs) \<and> writer_at V s path (eng_writer e) (Suc (length cs))"

lemma execute_batch_effect:
  assumes laws: "posix_laws os V" and at: "engine_at V s path e cs"
  obtains
    (executed) s' e' where "execute_batch os faults e bs s = Some (s', e', Inr (snd (spec_commands (flat_after cs) bs)))"
      "bs \<noteq> []" "engine_at V s' path e' (cs @ bs)" "synced V s' path = journal_image (cs @ bs)"
  | (unwritten) s' e' err d where "execute_batch os faults e bs s = Some (s', e', Inl (journal_failure err))"
      "eng_state e' = Failed" "eng_book e' = eng_book e" "content V s' path = Some (journal_image cs @ d)"
      "prefix d (frames (Suc (length cs)) bs)" "synced V s' = synced V s"
  | (unapplied) s' e' site i where "execute_batch os faults e bs s = Some (s', e', Inl (application_failure ApplicationFailure))"
      "eng_state e' = Failed" "book_ok (eng_book e')" "content V s' path = Some (journal_image (cs @ bs))"
      "synced V s' path = journal_image (cs @ bs)" "ef_results faults \<or> i < length bs \<and> ef_command faults i site"
proof -
  let ?k = "Suc (length cs)"
  note d = engine_at_def [of V s path e cs] writer_at_def [of V s path "eng_writer e" ?k]
  from at have h: "eng_state e = Healthy" "book_ok (eng_book e)" "flat (eng_book e) = flat_after cs"
    "target V s (wr_descriptor (eng_writer e)) = Some path" "content V s path = Some (journal_image cs)"
    "\<not> wr_failed (eng_writer e)" "wr_next_sequence (eng_writer e) = next_number ?k" "0 \<le> wr_descriptor (eng_writer e)"
    by (simp_all add: d)
  have k: "0 < ?k" "?k \<le> 2 ^ 64" using image_small [OF laws, of s path cs "[]"] h(5) by simp_all
  note unfold = execute_batch_def [of os faults e bs s]
  show thesis
  proof (rule append_batch_effect [OF laws h(4,5,6,7) k, of "ef_journal faults" bs], goal_cases)
    case (1 err)
    show thesis
      by (rule unwritten [of s "e\<lparr>eng_state := Failed\<rparr>" err "[]"]) (use 1 h in \<open>simp_all add: unfold\<close>)
  next
    case (2 s' err x)
    then have x: "content V s' path = Some (journal_image cs @ x)" "synced V s' = synced V s"
      using h(5) by (auto simp: appended_def)
    from 2 have p: "prefix x (frames ?k bs)" by (metis take_is_prefix)
    show thesis
      by (rule unwritten [OF _ _ _ x(1) p x(2), of "e\<lparr>eng_writer := (eng_writer e)\<lparr>wr_failed := True\<rparr>, eng_state := Failed\<rparr>" err])
         (use 2 h in \<open>simp_all add: unfold Let_def\<close>)
  next
    case (3 s')
    let ?e = "e\<lparr>eng_writer := (eng_writer e)\<lparr>wr_next_sequence := next_number (?k + length bs)\<rparr>\<rparr>"
    from 3 have f: "content V s' path = Some (journal_image (cs @ bs))" "synced V s' path = journal_image (cs @ bs)"
      by (simp_all add: image_append)
    have w: "writer_at V s' path (eng_writer ?e) (Suc (length (cs @ bs)))" using 3(4) h by (simp add: writer_at_def)
    show thesis
    proof (cases "ef_results faults")
      case True
      show thesis
        by (rule unapplied [OF _ _ _ f, of "?e\<lparr>eng_state := Failed\<rparr>"]) (use 3(1) h True in \<open>simp_all add: unfold Let_def\<close>)
    next
      case False
      from apply_batch_effect [OF h(2), of "ef_command faults" 0 bs "[]"] show thesis
      proof (elim disjE exE conjE, goal_cases)
        case (1 b rs)
        have "engine_at V s' path (?e\<lparr>eng_book := b\<rparr>) (cs @ bs)"
          using f w h 1 by (simp add: engine_at_def flat_after_append)
        with 3(1,2) f(2) False 1 h show ?case by (intro executed) (simp_all add: unfold Let_def)
      next
        case (2 b n site)
        show ?case
          by (rule unapplied [OF _ _ _ f, of "?e\<lparr>eng_book := b, eng_state := Failed\<rparr>" n site])
             (use 3(1) h False 2 in \<open>simp_all add: unfold Let_def\<close>)
      qed
    qed
  qed
qed

section \<open>Recovery\<close>

lemma image_unique:
  assumes "journal_image as @ x = journal_image bs @ y" "incomplete x" "incomplete y" "length (journal_image as @ x) < 2 ^ 63"
  shows "as = bs" "x = y"
proof -
  have "prefix bs as" using image_prefix_commands [of bs as x] assms by simp
  moreover have "prefix as bs" using image_prefix_commands [of as bs y] assms by (metis prefixI)
  ultimately show "as = bs" by simp
  with assms(1) show "x = y" by simp
qed

text \<open>The journal is as it was, or what follows its records has been cut off.\<close>

definition kept :: "'s file_views \<Rightarrow> 's \<Rightarrow> 's \<Rightarrow> path \<Rightarrow> JournalCommand list \<Rightarrow> bool" where
  "kept V s s' path cs \<longleftrightarrow>
     content V s' path = content V s path \<and> synced V s' path = synced V s path \<or>
     content V s' path = Some (journal_image cs) \<and>
       synced V s' path \<in> {take (length (journal_image cs)) (synced V s path), journal_image cs}"

lemma kept_only_read: "only_read V s s' \<Longrightarrow> kept V s s' path cs"
  by (simp add: kept_def only_read_def same_files_def)

lemma kept_then_read: "kept V s s1 path cs \<Longrightarrow> only_read V s1 s' \<Longrightarrow> kept V s s' path cs"
  by (simp add: kept_def only_read_def same_files_def)

abbreviation storage_codes :: "JournalStorageErrorCode set" where
  "storage_codes \<equiv> {FileNotFound, OpenFailed, ReadFailed, TruncateFailed, SyncFailed}"

lemma scan_of_journal:
  assumes laws: "posix_laws os V" and c: "content V s path = Some (journal_image cs @ tail)" and tail: "incomplete tail"
  obtains
    (failed) s' e where "journal_scan os path s = Some (s', Inl e)" "only_read V s s'" "jse_code e \<in> storage_codes"
  | (scanned) s' where "journal_scan os path s = Some (s', Inr (scan_of cs (tail \<noteq> [])))" "only_read V s s'"
proof -
  have "scan_spec (journal_image cs @ tail) = Inr (scan_of cs (tail \<noteq> []))"
    using scan_spec_complete [of cs tail] image_small [OF laws c] tail by (simp add: incomplete_def)
  then show thesis
    by (rule_tac journal_scan_effect [OF laws, of path s]) (use c that in \<open>auto\<close>)
qed

lemma destroy_views:
  assumes "posix_laws os V"
  shows "content V (writer_destroy os w s) = content V s" "synced V (writer_destroy os w s) = synced V s"
  using assms by (simp_all add: writer_destroy_def close_descriptor_def posix_laws_def close_law_def)

lemma scan_or_repair_effect:
  assumes laws: "posix_laws os V" and c: "content V s path = Some (journal_image cs @ tail)" and tail: "incomplete tail"
  obtains
    (failed) s' e where "scan_or_repair os path s = Some (s', Inl (journal_failure e))" "kept V s s' path cs" "jse_code e \<in> storage_codes"
  | (clean) s' where "scan_or_repair os path s = Some (s', Inr (scan_of cs False, None))" "kept V s s' path cs"
      "content V s' path = Some (journal_image cs)"
  | (repaired) s' w where "scan_or_repair os path s = Some (s', Inr (scan_of cs False, Some w))" "kept V s s' path cs"
      "content V s' path = Some (journal_image cs)" "writer_at V s' path w (Suc (length cs))"
proof -
  show thesis
  proof (rule scan_of_journal [OF assms], goal_cases)
    case (1 s1 e)
    then show thesis by (intro failed [of s1 e] kept_only_read) (simp_all add: scan_or_repair_def)
  next
    case (2 s1)
    note scan = this
    show thesis
    proof (cases "tail = []")
      case True
      with scan c only_read_files [OF scan(2)] show thesis
        by (intro clean [of s1] kept_only_read) (simp_all add: scan_or_repair_def scan_of_def)
    next
      case ne: False
      have c1: "content V s1 path = Some (journal_image cs @ tail)" "synced V s1 path = synced V s path"
        using only_read_files [OF scan(2)] c by simp_all
      have small: "length (journal_image cs @ tail) < 2 ^ 63" using laws c unfolding posix_laws_def size_law_def by blast
      have same: "cs' = cs" if "content V s1 path = Some (journal_image cs' @ x)" "decode_record_prefix x = Done (Inl TruncatedInput)" for cs' x
        using image_unique [of cs tail cs' x] that c1 tail small by (simp add: incomplete_def)
      show thesis
      proof (rule repair_effect [OF laws, of path s1], goal_cases)
        case (1 s2 e)
        have "jse_code e \<in> storage_codes" using 1(3) c1(1) ne tail by (auto simp: incomplete_def)
        moreover from 1(4) have "kept V s s2 path cs"
        proof (elim disjE exE conjE)
          fix cs' x
          assume x: "content V s1 path = Some (journal_image cs' @ x)" "decode_record_prefix x = Done (Inl TruncatedInput)"
            and v: "content V s2 = (content V s1)(path \<mapsto> journal_image cs')"
              "synced V s2 = (synced V s1)(path := take (length (journal_image cs')) (synced V s1 path))"
          from v c1(2) show ?thesis unfolding kept_def same [OF x] by simp
        qed (use c1 c in \<open>simp add: kept_def\<close>)
        ultimately show thesis using 1(1) scan(1) ne by (intro failed [of s2 e]) (simp_all add: scan_or_repair_def scan_of_def)
      next
        case (2 s2 w cs' x)
        then have cs': "cs' = cs" using same by simp
        have k2: "kept V s s2 path cs" using 2(5,6) cs' by (simp add: kept_def)
        have c2: "content V s2 path = Some (journal_image cs @ [])" using 2(5) cs' by simp
        have "incomplete []" by (simp add: incomplete_def)
        from laws c2 this show thesis
        proof (rule scan_of_journal, goal_cases)
          case (1 s3 e)
          have "kept V s (writer_destroy os w s3) path cs"
            using kept_then_read [OF k2 1(2)] destroy_views [OF laws] by (simp add: kept_def)
          then show thesis using 1 2(1) scan(1) ne
            by (intro failed [of "writer_destroy os w s3" e]) (simp_all add: scan_or_repair_def scan_of_def)
        next
          case (2 s3)
          note v = only_read_files [OF 2(2)]
          have "writer_at V s3 path w (Suc (length cs))" using \<open>writer_at V s2 path w _\<close> v cs' by (simp add: writer_at_def)
          moreover have "content V s3 path = Some (journal_image cs)" using c2 v by simp
          ultimately show thesis using 2 \<open>writer_repair_and_open _ _ _ = _\<close> scan(1) ne kept_then_read [OF k2 2(2)]
            by (intro repaired [of s3 w]) (simp_all add: scan_or_repair_def scan_of_def)
        qed
      qed
    qed
  qed
qed

text \<open>The errors recovery of a journal of \<open>cs\<close> can report: a failed call, or an exhausted memory.\<close>

definition recovery_error :: "engine_faults \<Rightarrow> JournalCommand list \<Rightarrow> DurableEngineError \<Rightarrow> bool" where
  "recovery_error faults cs err \<longleftrightarrow>
     (\<exists>e. err = journal_failure e \<and> jse_code e \<in> storage_codes) \<or>
     err = application_failure RecoveryReplayFailure \<and>
       (ef_book faults \<or> (\<exists>i site. i < length cs \<and> ef_command faults i site))"

lemma engine_recover_effect:
  assumes laws: "posix_laws os V" and c: "content V s path = Some (journal_image cs @ tail)" and tail: "incomplete tail"
  obtains
    (failed) s' err where "engine_recover os faults path s = Some (s', Inl err)" "kept V s s' path cs" "recovery_error faults cs err"
  | (recovered) s' e where "engine_recover os faults path s = Some (s', Inr e)" "kept V s s' path cs" "engine_at V s' path e cs"
proof -
  note unfold = engine_recover_def [of os faults path s]
  have finish: thesis
    if sc: "scan_or_repair os path s = Some (s1, Inr (scan_of cs False, w))" and k: "kept V s s1 path cs"
      and c1: "content V s1 path = Some (journal_image cs)" and w: "\<And>v. w = Some v \<Longrightarrow> writer_at V s1 path v (Suc (length cs))" for s1 w
  proof -
    have kd: "kept V s (destroy_repaired os w s1) path cs"
      using k destroy_views [OF laws] by (simp add: kept_def destroy_repaired_def split: option.split)
    show thesis
    proof (cases "ef_book faults")
      case True
      with sc kd show thesis
        by (intro failed [of "destroy_repaired os w s1" "application_failure RecoveryReplayFailure"])
           (simp_all add: unfold recovery_error_def)
    next
      case False
      show thesis
      proof (rule replay_effect [of "ef_command faults" cs], goal_cases)
        case (1 b)
        show thesis
        proof (cases w)
          case (Some v)
          have "engine_at V s1 path (new_engine b v) cs" using c1 w [OF Some] 1 by (simp add: engine_at_def new_engine_def)
          with sc k False 1(1) Some show thesis by (intro recovered [of s1 "new_engine b v"]) (simp_all add: unfold scan_of_def)
        next
          case None
          show thesis
          proof (rule open_recovered_effect [OF laws, of path s1], goal_cases)
            case (1 s2 e)
            with sc False None \<open>replay _ _ _ = _\<close> c1 show thesis
              by (intro failed [of s2 "journal_failure e"] kept_then_read [OF k])
                 (auto simp: unfold scan_of_def recovery_error_def)
          next
            case (2 s2 v cs')
            have "cs' = cs" using image_unique [of cs "[]" cs' "[]"] c1 2(2) laws
              by (auto simp: incomplete_def posix_laws_def size_law_def)
            then have "engine_at V s2 path (new_engine b v) cs" using 2 1(2,3) c1 by (simp add: engine_at_def new_engine_def)
            moreover have "kept V s s2 path cs" using k 2 by (simp add: kept_def)
            ultimately show thesis using sc False None 1(1) 2(1)
              by (intro recovered [of s2 "new_engine b v"]) (simp_all add: unfold scan_of_def)
          qed
        qed
      next
        case (2 b n site)
        with sc kd False show thesis
          by (intro failed [of "destroy_repaired os w s1" "application_failure RecoveryReplayFailure"])
             (auto simp: unfold recovery_error_def scan_of_def)
      qed
    qed
  qed
  show thesis
  proof (rule scan_or_repair_effect [OF assms], goal_cases)
    case (1 s1 e)
    then show thesis by (intro failed [of s1 "journal_failure e"]) (auto simp: unfold recovery_error_def)
  next
    case (2 s1)
    then show thesis by (intro finish [of s1 None]) simp_all
  next
    case (3 s1 w)
    then show thesis by (intro finish [of s1 "Some w"]) simp_all
  qed
qed

section \<open>Properties\<close>

definition no_engine_faults :: engine_faults where
  "no_engine_faults = \<lparr>ef_journal = False, ef_results = False, ef_command = \<lambda>_. no_faults, ef_book = False\<rparr>"

definition sample_engine :: DurableEngine where
  "sample_engine = new_engine new_order_book (new_writer 0 (Some (JournalSequence 1)))"

lemma sample_engine_at: "engine_at mem_views (mem_with ''j'' (journal_image [])) ''j'' sample_engine []"
proof -
  have "content mem_views (mem_with ''j'' (journal_image [])) ''j'' = Some (journal_image [])"
    by (rule mem_with_views(2)) (simp add: journal_image_def)
  then show ?thesis
    using mem_with_views(1) book_ok_new
    by (simp add: engine_at_def sample_engine_def new_engine_def new_writer_def writer_at_def next_number_def flat_after_def)
qed

text \<open>
  C18. Write-ahead execution. \<open>execute_batch\<close> on a healthy engine returns. If it returns results, they
  are what the order book specification gives for the commands one after the other, one result per
  command, the file has grown by exactly the batch and has reached the device, and the engine is
  ready for the next batch. If it returns an error the engine is failed, the file has grown by a
  prefix of the batch's frames, and the book is untouched unless all of the batch is on the device.
\<close>

theorem execute_batch_write_ahead:
  assumes "posix_laws os V" and "engine_at V s path e cs"
  shows "\<exists>s' e' r. execute_batch os faults e bs s = Some (s', e', r) \<and>
    (case r of
       Inr results \<Rightarrow> results = snd (spec_commands (flat_after cs) bs) \<and> length results = length bs \<and>
         engine_at V s' path e' (cs @ bs) \<and> synced V s' path = journal_image (cs @ bs)
     | Inl err \<Rightarrow> eng_state e' = Failed \<and>
         (\<exists>d. content V s' path = Some (journal_image cs @ d) \<and> prefix d (frames (Suc (length cs)) bs)) \<and>
         (eng_book e' = eng_book e \<or> synced V s' path = journal_image (cs @ bs)))"
proof (rule execute_batch_effect [OF assms, of faults bs], goal_cases)
  case (1 s' e')
  then show ?thesis by (simp add: length_spec_commands)
next
  case (2 s' e' err d)
  then show ?thesis by auto
next
  case (3 s' e' site i)
  then show ?thesis by (auto simp: image_append)
qed

theorem execute_batch_write_ahead_witness:
  "\<exists>s' e' r. execute_batch mem_os no_engine_faults
     sample_engine [sample_command] (mem_with ''j'' (journal_image [])) = Some (s', e', r)"
  using execute_batch_write_ahead [OF mem_posix_laws sample_engine_at,
    of no_engine_faults "[sample_command]"] by auto

text \<open>An empty batch writes nothing and leaves the writer as it was, but fails the engine for good.\<close>

lemma empty_batch_fails_engine:
  assumes "eng_state e = Healthy" "\<not> wr_failed (eng_writer e)"
  shows "execute_batch os faults e [] s =
    Some (s, e\<lparr>eng_state := Failed\<rparr>, Inl (journal_failure (make_error EmptyBatch None None)))"
  using assms by (simp add: execute_batch_def append_batch_and_sync_def)

text \<open>
  Single commands. \<open>submit\<close> and \<open>cancel\<close> on a healthy engine return the result the specification
  gives for the command, which is in the journal then, or an error, after which the engine is failed;
  they never find a result of the other kind.
\<close>

lemma engine_single_commands:
  assumes "posix_laws os V" and "engine_at V s path e cs"
  shows "(\<exists>s' e' r. engine_submit os faults e order s = Some (s', e', r) \<and>
      (case r of Inr result \<Rightarrow> result = snd (spec_submit (flat_after cs) order) \<and>
           engine_at V s' path e' (cs @ [SubmitLimitOrderCommand order])
       | Inl err \<Rightarrow> eng_state e' = Failed)) \<and>
    (\<exists>s' e' r. engine_cancel os faults e oid s = Some (s', e', r) \<and>
      (case r of Inr result \<Rightarrow> result = snd (spec_cancel (flat_after cs) oid) \<and>
           engine_at V s' path e' (cs @ [CancelOrderCommand oid])
       | Inl err \<Rightarrow> eng_state e' = Failed))"
proof
  have one: "spec_commands f [c] = (fst (spec_command f c), [snd (spec_command f c)])" for f c
    by (simp split: prod.split)
  show "\<exists>s' e' r. engine_submit os faults e order s = Some (s', e', r) \<and>
      (case r of Inr result \<Rightarrow> result = snd (spec_submit (flat_after cs) order) \<and>
           engine_at V s' path e' (cs @ [SubmitLimitOrderCommand order])
       | Inl err \<Rightarrow> eng_state e' = Failed)"
    by (rule execute_batch_effect [OF assms, of faults "[SubmitLimitOrderCommand order]"])
       (simp_all add: engine_submit_def one del: spec_commands.simps)
  show "\<exists>s' e' r. engine_cancel os faults e oid s = Some (s', e', r) \<and>
      (case r of Inr result \<Rightarrow> result = snd (spec_cancel (flat_after cs) oid) \<and>
           engine_at V s' path e' (cs @ [CancelOrderCommand oid])
       | Inl err \<Rightarrow> eng_state e' = Failed)"
    by (rule execute_batch_effect [OF assms, of faults "[CancelOrderCommand oid]"])
       (simp_all add: engine_cancel_def one del: spec_commands.simps)
qed

text \<open>
  C19. Recovery. Of a file that holds the journal of \<open>cs\<close> and possibly an incomplete record after it,
  \<open>recover\<close> either rebuilds the book the commands \<open>cs\<close> lead to, with a writer that continues the
  journal, or reports a failed system call or an exhausted memory. It returns, keeps every complete
  record of the file in either case, and appends nothing.
\<close>

theorem recover_restores_book:
  assumes "posix_laws os V" and "content V s path = Some (journal_image cs @ tail)" and "incomplete tail"
  shows "\<exists>s' r. engine_recover os faults path s = Some (s', r) \<and>
    (case r of Inr e \<Rightarrow> engine_at V s' path e cs | Inl err \<Rightarrow> recovery_error faults cs err) \<and>
    (content V s' path = Some (journal_image cs @ tail) \<or> content V s' path = Some (journal_image cs))"
proof (rule engine_recover_effect [OF assms, of faults], goal_cases)
  case (1 s' err)
  then show ?thesis using assms(2) by (auto simp: kept_def)
next
  case (2 s' e)
  then show ?thesis by (auto simp: engine_at_def)
qed

theorem recover_restores_book_witness:
  "\<exists>s' r. engine_recover mem_os no_engine_faults
     ''j'' (mem_with ''j'' (journal_image [sample_command] @ [0x4D])) = Some (s', r)"
proof -
  let ?s = "mem_with ''j'' (journal_image [sample_command] @ [0x4D])"
  have "content mem_views ?s ''j'' = Some (journal_image [sample_command] @ [0x4D])"
    by (rule mem_with_views(2)) (simp add: journal_image_def length_frame sample_command_def)
  moreover have "incomplete [0x4D]" by (simp add: incomplete_def decode_record_prefix_def)
  ultimately show ?thesis
    using recover_restores_book [OF mem_posix_laws, of ?s "''j''" "[sample_command]" "[0x4D]"
      no_engine_faults] by auto
qed

end
