(* ===== verification/Exchange_Pipeline.thy ===== *)
theory Exchange_Pipeline
  imports Exchange_Server Durable_Recovery
begin

text \<open>
  The two threads of an exchange server together. Each access to a queue or to the limiter is atomic,
  and the threads interleave between them in every possible way: the worker takes the steps of
  \<open>worker_step\<close>, the gateway those that \<open>admit\<close>, \<open>drain_engine_completions\<close> and
  \<open>begin_shutdown_if_requested\<close> are made of.
\<close>

section \<open>The steps of the gateway thread\<close>

text \<open>Between its accesses to shared state the gateway may hold a slot for a request or a completion it has taken.\<close>

datatype gateway_place = Free | Holding AdmittedEngineRequest | Releasing EngineCompletion

datatype gateway_action =
  AcquireSlot ConnectionId "ClientMessage WireEnvelope" | PushRequest | TakeResponse | ReleaseSlot | BeginShutdown | RequestStop

fun gateway_step :: "gateway_action \<Rightarrow> gateway_place \<Rightarrow> bool \<Rightarrow> Shared \<Rightarrow> (gateway_place \<times> bool \<times> Shared) outcome option" where
  "gateway_step (AcquireSlot cid request) Free shutdown sh =
     (if shutdown \<or> sh_engine_failed sh then None
      else case try_acquire (sh_limiter sh) of
          (limiter, None) \<Rightarrow> Some (Done (Free, shutdown, sh\<lparr>sh_limiter := limiter\<rparr>))
        | (limiter, Some reservation) \<Rightarrow>
            Some (Done (Holding \<lparr>adm_request = to_engine_request cid request, adm_completion = fst (reservation_move reservation)\<rparr>,
                        shutdown, sh\<lparr>sh_limiter := limiter\<rparr>)))"
| "gateway_step PushRequest (Holding admitted) shutdown sh =
     (case try_push (sh_requests sh) admitted of
        (requests, True) \<Rightarrow> Some (Done (Free, shutdown, sh\<lparr>sh_requests := requests\<rparr>))
      | (requests, False) \<Rightarrow>
          Some (obind (reservation_destroy (adm_completion admitted) (sh_limiter sh)) (\<lambda>limiter.
                Done (Free, shutdown, sh\<lparr>sh_limiter := limiter\<rparr>))))"
| "gateway_step TakeResponse Free shutdown sh =
     (case try_pop (sh_responses sh) of
        (responses, None) \<Rightarrow> None
      | (responses, Some completion) \<Rightarrow> Some (Done (Releasing completion, shutdown, sh\<lparr>sh_responses := responses\<rparr>)))"
| "gateway_step ReleaseSlot (Releasing completion) shutdown sh =
     Some (obind (reservation_release (cmp_completion completion) (sh_limiter sh)) (\<lambda>(_, limiter).
           Done (Free, shutdown, sh\<lparr>sh_limiter := limiter\<rparr>)))"
| "gateway_step BeginShutdown Free shutdown sh =
     (if \<not> sh_stop_requested sh \<or> shutdown then None
      else Some (Done (Free, True, sh\<lparr>sh_requests := close (sh_requests sh)\<rparr>)))"
| "gateway_step RequestStop pl shutdown sh = Some (Done (pl, shutdown, request_stop sh))"
| "gateway_step _ _ _ _ = None"

text \<open>The functions of the gateway are these steps in sequence.\<close>

lemma admit_steps:
  assumes "\<not> gw_shutdown_started g" "\<not> sh_engine_failed sh" "try_acquire (sh_limiter sh) = (limiter, Some r)"
  obtains gp sh1 where "gateway_step (AcquireSlot cid m) Free False sh = Some (Done (gp, False, sh1))"
    "gateway_step PushRequest gp False sh1 =
       Some (obind (admit sh g cid m) (\<lambda>(sh2, accepted). Done (Free, False, sh2)))"
proof -
  let ?a = "\<lparr>adm_request = to_engine_request cid m, adm_completion = fst (reservation_move r)\<rparr>"
  let ?sh = "sh\<lparr>sh_limiter := limiter\<rparr>"
  have "gateway_step (AcquireSlot cid m) Free False sh = Some (Done (Holding ?a, False, ?sh))" using assms by simp
  moreover have "gateway_step PushRequest (Holding ?a) False ?sh =
      Some (obind (admit sh g cid m) (\<lambda>(sh2, accepted). Done (Free, False, sh2)))"
    using assms by (auto simp: admit_def obind_assoc split: prod.split bool.split)
  ultimately show thesis by (rule that)
qed

lemma drain_completions_steps:
  assumes "bq_items (sh_responses sh) = c # cs"
  obtains sh1 where "gateway_step TakeResponse Free shutdown sh = Some (Done (Releasing c, shutdown, sh1))"
    "drain_completions_loop sh g (c # cs) =
       (case gateway_step ReleaseSlot (Releasing c) shutdown sh1 of
          Some step \<Rightarrow> obind step (\<lambda>(_, _, sh2). drain_completions_loop sh2 (deliver_completion (cmp_response c) g) cs)
        | None \<Rightarrow> Undefined)"
proof -
  let ?sh = "sh\<lparr>sh_responses := (sh_responses sh)\<lparr>bq_items := cs\<rparr>\<rparr>"
  have "gateway_step TakeResponse Free shutdown sh = Some (Done (Releasing c, shutdown, ?sh))"
    using assms by (simp add: try_pop_def)
  moreover have "drain_completions_loop sh g (c # cs) =
       (case gateway_step ReleaseSlot (Releasing c) shutdown ?sh of
          Some step \<Rightarrow> obind step (\<lambda>(_, _, sh2). drain_completions_loop sh2 (deliver_completion (cmp_response c) g) cs)
        | None \<Rightarrow> Undefined)"
    using assms by (cases "reservation_release (cmp_completion c) (sh_limiter sh)") (auto simp: try_pop_def Let_def)
  ultimately show thesis by (rule that)
qed

section \<open>The system\<close>

text \<open>
  Besides the state, a history: the requests that were admitted, the responses the gateway has taken,
  and the requests that were destroyed because no storage for a batch could be reserved.
\<close>

record 's system =
  sys_place :: worker_place
  sys_worker :: Worker
  sys_shared :: Shared
  sys_gateway :: gateway_place
  sys_shutdown :: bool
  sys_os :: 's
  sys_admitted :: "EngineRequest list"
  sys_answered :: "EngineResponse list"
  sys_dropped :: "EngineRequest list"

fun admitted_by :: "gateway_action \<Rightarrow> gateway_place \<Rightarrow> Shared \<Rightarrow> EngineRequest list" where
  "admitted_by PushRequest (Holding a) sh = (if snd (try_push (sh_requests sh) a) then [adm_request a] else [])"
| "admitted_by _ _ _ = []"

fun answered_by :: "gateway_action \<Rightarrow> Shared \<Rightarrow> EngineResponse list" where
  "answered_by TakeResponse sh = (case snd (try_pop (sh_responses sh)) of None \<Rightarrow> [] | Some c \<Rightarrow> [cmp_response c])"
| "answered_by _ _ = []"

fun dropped_by :: "worker_place \<Rightarrow> bool \<Rightarrow> Shared \<Rightarrow> EngineRequest list" where
  "dropped_by (AtHead failed) True sh = (case snd (try_pop (sh_requests sh)) of None \<Rightarrow> [] | Some a \<Rightarrow> [adm_request a])"
| "dropped_by _ _ _ = []"

definition after_worker :: "'s system \<Rightarrow> bool \<Rightarrow> worker_place \<Rightarrow> Worker \<Rightarrow> Shared \<Rightarrow> 's \<Rightarrow> 's system" where
  "after_worker y no_batch pl w sh s' =
     y\<lparr>sys_place := pl, sys_worker := w, sys_shared := sh, sys_os := s',
       sys_dropped := sys_dropped y @ dropped_by (sys_place y) no_batch (sys_shared y)\<rparr>"

definition after_gateway :: "'s system \<Rightarrow> gateway_action \<Rightarrow> gateway_place \<Rightarrow> bool \<Rightarrow> Shared \<Rightarrow> 's system" where
  "after_gateway y action gp shutdown sh =
     y\<lparr>sys_gateway := gp, sys_shutdown := shutdown, sys_shared := sh,
       sys_admitted := sys_admitted y @ admitted_by action (sys_gateway y) (sys_shared y),
       sys_answered := sys_answered y @ answered_by action (sys_shared y)\<rparr>"

inductive exchange_run :: "'s posix \<Rightarrow> ExchangeServerConfig \<Rightarrow> DurableEngine \<Rightarrow> 's \<Rightarrow> 's system \<Rightarrow> bool"
  for os config e s where
  started: "exchange_run os config e s
    \<lparr>sys_place = AtHead False, sys_worker = new_worker config e, sys_shared = new_shared config, sys_gateway = Free,
     sys_shutdown = False, sys_os = s, sys_admitted = [], sys_answered = [], sys_dropped = []\<rparr>"
| worker: "exchange_run os config e s y \<Longrightarrow>
    worker_step os config faults no_batch no_memory (sys_place y) (sys_worker y) (sys_shared y) (sys_os y) =
      Some (s', Done (pl, w, sh)) \<Longrightarrow>
    exchange_run os config e s (after_worker y no_batch pl w sh s')"
| gateway: "exchange_run os config e s y \<Longrightarrow>
    gateway_step action (sys_gateway y) (sys_shutdown y) (sys_shared y) = Some (Done (gp, shutdown, sh)) \<Longrightarrow>
    exchange_run os config e s (after_gateway y action gp shutdown sh)"

section \<open>The invariant\<close>

text \<open>The requests in the hands of the worker.\<close>

fun worker_requests :: "worker_place \<Rightarrow> AdmittedEngineRequest list" where
  "worker_requests (Collecting batch failed) = batch"
| "worker_requests (Publishing ps failed) = map publication_request ps"
| "worker_requests (HandlerPublishing p) = [publication_request p]"
| "worker_requests _ = []"

fun gateway_slots :: "gateway_place \<Rightarrow> InFlightReservation list" where
  "gateway_slots Free = []"
| "gateway_slots (Holding a) = [adm_completion a]"
| "gateway_slots (Releasing c) = [cmp_completion c]"

definition slots :: "worker_place \<Rightarrow> gateway_place \<Rightarrow> Shared \<Rightarrow> InFlightReservation list" where
  "slots pl gp sh =
     map adm_completion (bq_items (sh_requests sh)) @ map adm_completion (worker_requests pl) @
     map cmp_completion (bq_items (sh_responses sh)) @ gateway_slots gp"

text \<open>Every reservation is where it should be: as many are active as the limiter counts.\<close>

definition slots_ok :: "ExchangeServerConfig \<Rightarrow> worker_place \<Rightarrow> gateway_place \<Rightarrow> Shared \<Rightarrow> bool" where
  "slots_ok config pl gp sh \<longleftrightarrow>
     (\<forall>r \<in> set (slots pl gp sh). owner r) \<and> lim_in_flight (sh_limiter sh) = length (slots pl gp sh) \<and>
     lim_in_flight (sh_limiter sh) \<le> lim_capacity (sh_limiter sh) \<and> lim_capacity (sh_limiter sh) = exc_maximum_in_flight config"

definition queues_ok :: "ExchangeServerConfig \<Rightarrow> worker_place \<Rightarrow> Shared \<Rightarrow> bool" where
  "queues_ok config pl sh \<longleftrightarrow>
     bq_capacity (sh_responses sh) = exc_maximum_in_flight config \<and>
     bq_capacity (sh_requests sh) = exc_request_queue_capacity config \<and>
     length (bq_items (sh_requests sh)) \<le> exc_request_queue_capacity config \<and>
     (bq_closed (sh_responses sh) \<longleftrightarrow> pl = Returned) \<and>
     (pl \<in> {Leaving, Returned} \<longrightarrow> bq_closed (sh_requests sh) \<and> bq_items (sh_requests sh) = [])"

text \<open>The keys of all that is under way, in the order of admission.\<close>

definition under_way :: "worker_place \<Rightarrow> Shared \<Rightarrow> (ConnectionId \<times> RequestId) list" where
  "under_way pl sh =
     map (response_key \<circ> cmp_response) (bq_items (sh_responses sh)) @
     map (request_key \<circ> adm_request) (worker_requests pl) @
     map (request_key \<circ> adm_request) (bq_items (sh_requests sh))"

text \<open>Results are of the kind of their requests.\<close>

fun matches :: "EngineRequest \<Rightarrow> BatchCommandResult \<Rightarrow> bool" where
  "matches (EngineSubmit _) (BatchSubmit _) = True"
| "matches (EngineCancel _) (BatchCancel _) = True"
| "matches _ _ = False"

fun publication_ok :: "publication \<Rightarrow> bool" where
  "publication_ok (Answer a r) = matches (adm_request a) r"
| "publication_ok (Unanswered a) = True"

fun place_ok :: "ExchangeServerConfig \<Rightarrow> worker_place \<Rightarrow> bool" where
  "place_ok config (Collecting batch failed) \<longleftrightarrow> length batch \<le> max 1 (exc_max_durable_batch_size config)"
| "place_ok config (Publishing ps failed) \<longleftrightarrow> list_all publication_ok ps"
| "place_ok config (HandlerPublishing p) \<longleftrightarrow> publication_ok p"
| "place_ok config _ \<longleftrightarrow> True"

definition history_ok :: "'s system \<Rightarrow> bool" where
  "history_ok y \<longleftrightarrow>
     (\<exists>before after. map request_key (sys_admitted y) = before @ map request_key (sys_dropped y) @ after \<and>
        before @ after = map response_key (sys_answered y) @ under_way (sys_place y) (sys_shared y)) \<and>
     length (sys_dropped y) \<le> 1 \<and>
     (sys_dropped y = [] \<or> sys_place y \<in> {AtHandler, Leaving, Returned} \<union> range HandlerPublishing)"

definition engine_sound :: "'s file_views \<Rightarrow> path \<Rightarrow> DurableEngine \<Rightarrow> 's \<Rightarrow> bool" where
  "engine_sound V path e s \<longleftrightarrow> (eng_state e = Healthy \<longrightarrow> (\<exists>cs. engine_at V s path e cs))"

definition system_ok :: "'s file_views \<Rightarrow> path \<Rightarrow> ExchangeServerConfig \<Rightarrow> 's system \<Rightarrow> bool" where
  "system_ok V path config y \<longleftrightarrow>
     slots_ok config (sys_place y) (sys_gateway y) (sys_shared y) \<and> queues_ok config (sys_place y) (sys_shared y) \<and>
     place_ok config (sys_place y) \<and> history_ok y \<and> engine_sound V path (wk_engine (sys_worker y)) (sys_os y) \<and>
     length (wk_batch_size_histogram (sys_worker y)) = Suc (exc_request_queue_capacity config)"

section \<open>Every step of the gateway is safe and keeps the invariant\<close>

lemma try_acquire_effect:
  assumes "lim_in_flight l \<le> lim_capacity l" "try_acquire l = (l', r)"
  shows "lim_capacity l' = lim_capacity l" "lim_in_flight l' \<le> lim_capacity l'"
    "r = None \<and> l' = l \<or> r = Some (InFlightReservation True) \<and> lim_in_flight l' = Suc (lim_in_flight l)"
  using assms by (auto simp: try_acquire_def Let_def split: if_splits)

lemma release_effect:
  assumes "owner r" "0 < lim_in_flight l"
  shows "reservation_release r l = Done (InFlightReservation False, l\<lparr>lim_in_flight := lim_in_flight l - 1\<rparr>)"
    "reservation_destroy r l = Done (l\<lparr>lim_in_flight := lim_in_flight l - 1\<rparr>)"
  using assms by (simp_all add: reservation_destroy_def reservation_release_def release_one_def)

lemma history_ok_same:
  assumes "history_ok y" "sys_admitted y' = sys_admitted y" "sys_dropped y' = sys_dropped y" "sys_place y' = sys_place y"
    "map response_key (sys_answered y') @ under_way (sys_place y') (sys_shared y') =
     map response_key (sys_answered y) @ under_way (sys_place y) (sys_shared y)"
  shows "history_ok y'"
  using assms by (simp add: history_ok_def)

lemma history_ok_admit:
  assumes "history_ok y" "sys_admitted y' = sys_admitted y @ [a]" "sys_dropped y' = sys_dropped y" "sys_place y' = sys_place y"
    "map response_key (sys_answered y') @ under_way (sys_place y') (sys_shared y') =
     map response_key (sys_answered y) @ under_way (sys_place y) (sys_shared y) @ [request_key a]"
  shows "history_ok y'"
proof -
  from assms(1) obtain before after where
    "map request_key (sys_admitted y) = before @ map request_key (sys_dropped y) @ after"
    "before @ after = map response_key (sys_answered y) @ under_way (sys_place y) (sys_shared y)"
    unfolding history_ok_def by (elim exE conjE) (rule that)
  then have "map request_key (sys_admitted y') = before @ map request_key (sys_dropped y') @ (after @ [request_key a]) \<and>
    before @ (after @ [request_key a]) = map response_key (sys_answered y') @ under_way (sys_place y') (sys_shared y')"
    using assms by (metis append.assoc list.simps(8,9) map_append)
  then show ?thesis using assms unfolding history_ok_def by metis
qed

text \<open>A step of the gateway is safe: it does not terminate the process, and keeps the invariant.\<close>

definition gateway_safe ::
  "'s file_views \<Rightarrow> path \<Rightarrow> ExchangeServerConfig \<Rightarrow> 's system \<Rightarrow> gateway_action \<Rightarrow> (gateway_place \<times> bool \<times> Shared) outcome \<Rightarrow> bool" where
  "gateway_safe V path config y action r \<longleftrightarrow>
     (\<exists>gp shutdown sh. r = Done (gp, shutdown, sh) \<and> system_ok V path config (after_gateway y action gp shutdown sh))"

lemma gateway_safeI:
  assumes "system_ok V path config y" "r = Done (gp, shutdown, sh)" "slots_ok config (sys_place y) gp sh"
    "queues_ok config (sys_place y) sh" "history_ok (after_gateway y action gp shutdown sh)"
  shows "gateway_safe V path config y action r"
  using assms by (simp add: gateway_safe_def system_ok_def after_gateway_def)

lemma acquire_slot_ok:
  assumes ok: "system_ok V path config y" and act: "action = AcquireSlot cid m"
    and step: "gateway_step action (sys_gateway y) (sys_shutdown y) (sys_shared y) = Some r"
  shows "gateway_safe V path config y action r"
proof -
  let ?sh = "sys_shared y" and ?pl = "sys_place y" and ?gp = "sys_gateway y"
  from ok have s: "slots_ok config ?pl ?gp ?sh" and q: "queues_ok config ?pl ?sh" and h: "history_ok y"
    by (simp_all add: system_ok_def)
  from act step have gp: "?gp = Free" by (cases ?gp) auto
  obtain l o' where a: "try_acquire (sh_limiter ?sh) = (l, o')" by (cases "try_acquire (sh_limiter ?sh)")
  have "lim_in_flight (sh_limiter ?sh) \<le> lim_capacity (sh_limiter ?sh)" using s by (simp add: slots_ok_def)
  note e = try_acquire_effect [OF this a]
  have q': "queues_ok config ?pl (?sh\<lparr>sh_limiter := l\<rparr>)" using q by (simp add: queues_ok_def)
  have h': "history_ok (after_gateway y action gp sd (?sh\<lparr>sh_limiter := l\<rparr>))" for gp sd
    by (rule history_ok_same [OF h]) (simp_all add: after_gateway_def under_way_def act)
  from e(3) show ?thesis
  proof (elim disjE conjE)
    assume "o' = None" "l = sh_limiter ?sh"
    then show ?thesis using step act gp a s
      by (intro gateway_safeI [OF ok _ _ q' h']) (auto simp: slots_ok_def slots_def split: if_splits)
  next
    assume "o' = Some (InFlightReservation True)" "lim_in_flight l = Suc (lim_in_flight (sh_limiter ?sh))"
    then show ?thesis using step act gp a s e(1,2)
      by (intro gateway_safeI [OF ok _ _ q' h']) (auto simp: slots_ok_def slots_def reservation_move_def split: if_splits)
  qed
qed

lemma push_request_ok:
  assumes ok: "system_ok V path config y" and act: "action = PushRequest"
    and step: "gateway_step action (sys_gateway y) (sys_shutdown y) (sys_shared y) = Some r"
  shows "gateway_safe V path config y action r"
proof -
  let ?sh = "sys_shared y" and ?pl = "sys_place y" and ?gp = "sys_gateway y"
  from ok have s: "slots_ok config ?pl ?gp ?sh" and q: "queues_ok config ?pl ?sh" and h: "history_ok y"
    by (simp_all add: system_ok_def)
  obtain a where a: "?gp = Holding a" using act step by (cases ?gp) auto
  obtain rq b where p: "try_push (sh_requests ?sh) a = (rq, b)" by (cases "try_push (sh_requests ?sh) a")
  show ?thesis
  proof (cases b)
    case True
    from p True have rq: "rq = (sh_requests ?sh)\<lparr>bq_items := bq_items (sh_requests ?sh) @ [a]\<rparr>"
      "\<not> bq_closed (sh_requests ?sh)" "length (bq_items (sh_requests ?sh)) \<noteq> bq_capacity (sh_requests ?sh)"
      by (auto simp: try_push_def split: if_splits)
    show ?thesis
    proof (rule gateway_safeI [OF ok])
      show "r = Done (Free, sys_shutdown y, ?sh\<lparr>sh_requests := rq\<rparr>)" using step act a p True by simp
      show "slots_ok config ?pl Free (?sh\<lparr>sh_requests := rq\<rparr>)" using s a rq by (auto simp: slots_ok_def slots_def)
      show "queues_ok config ?pl (?sh\<lparr>sh_requests := rq\<rparr>)" using q rq by (auto simp: queues_ok_def)
    qed (rule history_ok_admit [OF h, of _ "adm_request a"], use act a p True rq in \<open>simp_all add: after_gateway_def under_way_def\<close>)
  next
    case False
    have o: "owner (adm_completion a)" "0 < lim_in_flight (sh_limiter ?sh)" using s a by (auto simp: slots_ok_def slots_def)
    let ?l = "(sh_limiter ?sh)\<lparr>lim_in_flight := lim_in_flight (sh_limiter ?sh) - 1\<rparr>"
    show ?thesis
    proof (rule gateway_safeI [OF ok])
      show "r = Done (Free, sys_shutdown y, ?sh\<lparr>sh_limiter := ?l\<rparr>)"
        using step act a p False release_effect(2) [OF o] by simp
      show "slots_ok config ?pl Free (?sh\<lparr>sh_limiter := ?l\<rparr>)" using s a by (auto simp: slots_ok_def slots_def)
      show "queues_ok config ?pl (?sh\<lparr>sh_limiter := ?l\<rparr>)" using q by (simp add: queues_ok_def)
    qed (rule history_ok_same [OF h], use act a p False in \<open>simp_all add: after_gateway_def under_way_def\<close>)
  qed
qed

lemma take_response_ok:
  assumes ok: "system_ok V path config y" and act: "action = TakeResponse"
    and step: "gateway_step action (sys_gateway y) (sys_shutdown y) (sys_shared y) = Some r"
  shows "gateway_safe V path config y action r"
proof -
  let ?sh = "sys_shared y" and ?pl = "sys_place y" and ?gp = "sys_gateway y"
  from ok have s: "slots_ok config ?pl ?gp ?sh" and q: "queues_ok config ?pl ?sh" and h: "history_ok y"
    by (simp_all add: system_ok_def)
  obtain c cs where c: "?gp = Free" "bq_items (sh_responses ?sh) = c # cs"
    using act step by (cases ?gp; cases "bq_items (sh_responses ?sh)") (auto simp: try_pop_def)
  let ?s = "?sh\<lparr>sh_responses := (sh_responses ?sh)\<lparr>bq_items := cs\<rparr>\<rparr>"
  show ?thesis
  proof (rule gateway_safeI [OF ok])
    show "r = Done (Releasing c, sys_shutdown y, ?s)" using step act c by (simp add: try_pop_def)
    show "slots_ok config ?pl (Releasing c) ?s" using s c by (auto simp: slots_ok_def slots_def)
    show "queues_ok config ?pl ?s" using q by (simp add: queues_ok_def)
  qed (rule history_ok_same [OF h], use act c in \<open>simp_all add: after_gateway_def under_way_def try_pop_def\<close>)
qed

lemma release_slot_ok:
  assumes ok: "system_ok V path config y" and act: "action = ReleaseSlot"
    and step: "gateway_step action (sys_gateway y) (sys_shutdown y) (sys_shared y) = Some r"
  shows "gateway_safe V path config y action r"
proof -
  let ?sh = "sys_shared y" and ?pl = "sys_place y" and ?gp = "sys_gateway y"
  from ok have s: "slots_ok config ?pl ?gp ?sh" and q: "queues_ok config ?pl ?sh" and h: "history_ok y"
    by (simp_all add: system_ok_def)
  obtain c where c: "?gp = Releasing c" using act step by (cases ?gp) auto
  have o: "owner (cmp_completion c)" "0 < lim_in_flight (sh_limiter ?sh)" using s c by (auto simp: slots_ok_def slots_def)
  let ?l = "(sh_limiter ?sh)\<lparr>lim_in_flight := lim_in_flight (sh_limiter ?sh) - 1\<rparr>"
  show ?thesis
  proof (rule gateway_safeI [OF ok])
    show "r = Done (Free, sys_shutdown y, ?sh\<lparr>sh_limiter := ?l\<rparr>)"
      using step act c release_effect(1) [OF o] by simp
    show "slots_ok config ?pl Free (?sh\<lparr>sh_limiter := ?l\<rparr>)" using s c by (auto simp: slots_ok_def slots_def)
    show "queues_ok config ?pl (?sh\<lparr>sh_limiter := ?l\<rparr>)" using q by (simp add: queues_ok_def)
  qed (rule history_ok_same [OF h], use act c in \<open>simp_all add: after_gateway_def under_way_def\<close>)
qed

lemma begin_shutdown_ok:
  assumes ok: "system_ok V path config y" and act: "action = BeginShutdown"
    and step: "gateway_step action (sys_gateway y) (sys_shutdown y) (sys_shared y) = Some r"
  shows "gateway_safe V path config y action r"
proof -
  let ?sh = "sys_shared y" and ?pl = "sys_place y" and ?gp = "sys_gateway y"
  from ok have s: "slots_ok config ?pl ?gp ?sh" and q: "queues_ok config ?pl ?sh" and h: "history_ok y"
    by (simp_all add: system_ok_def)
  from act step have gp: "?gp = Free" by (cases ?gp) auto
  let ?s = "?sh\<lparr>sh_requests := close (sh_requests ?sh)\<rparr>"
  show ?thesis
  proof (rule gateway_safeI [OF ok])
    show "r = Done (Free, True, ?s)" using step act gp by (simp split: if_splits)
    show "slots_ok config ?pl Free ?s" using s gp by (simp add: slots_ok_def slots_def close_def)
    show "queues_ok config ?pl ?s" using q by (auto simp: queues_ok_def close_def)
  qed (rule history_ok_same [OF h], use act in \<open>simp_all add: after_gateway_def under_way_def close_def\<close>)
qed

lemma request_stop_ok:
  assumes ok: "system_ok V path config y" and act: "action = RequestStop"
    and step: "gateway_step action (sys_gateway y) (sys_shutdown y) (sys_shared y) = Some r"
  shows "gateway_safe V path config y action r"
proof -
  let ?sh = "sys_shared y" and ?pl = "sys_place y" and ?gp = "sys_gateway y"
  from ok have s: "slots_ok config ?pl ?gp ?sh" and q: "queues_ok config ?pl ?sh" and h: "history_ok y"
    by (simp_all add: system_ok_def)
  show ?thesis
  proof (rule gateway_safeI [OF ok])
    show "r = Done (?gp, sys_shutdown y, request_stop ?sh)" using step act by (cases ?gp) simp_all
    show "slots_ok config ?pl ?gp (request_stop ?sh)" using s by (simp add: slots_ok_def slots_def request_stop_def)
    show "queues_ok config ?pl (request_stop ?sh)" using q by (simp add: queues_ok_def request_stop_def)
  qed (rule history_ok_same [OF h], use act in \<open>simp_all add: after_gateway_def under_way_def request_stop_def\<close>)
qed

lemma gateway_step_ok:
  assumes "system_ok V path config y" "gateway_step action (sys_gateway y) (sys_shutdown y) (sys_shared y) = Some r"
  shows "gateway_safe V path config y action r"
  using assms by (cases action) (blast intro: acquire_slot_ok push_request_ok take_response_ok release_slot_ok begin_shutdown_ok request_stop_ok)+

section \<open>Every step of the worker is safe and keeps the invariant\<close>

lemma spec_commands_match: "list_all2 matches rs (snd (spec_commands f (map to_journal_command rs)))"
proof (induction rs arbitrary: f)
  case (Cons r rs)
  have "matches r (snd (spec_command f (to_journal_command r)))" by (cases r) simp_all
  with Cons.IH [of "fst (spec_command f (to_journal_command r))"] show ?case by (simp add: case_prod_beta)
qed simp

lemma answers_ok:
  assumes "list_all2 matches (map adm_request batch) results"
  shows "map publication_request (map2 Answer batch results) = batch \<and> list_all publication_ok (map2 Answer batch results)"
  using assms
proof (induction batch arbitrary: results)
  case (Cons a batch)
  then show ?case by (cases results) auto
qed simp

lemma unanswered_ok: "map publication_request (map Unanswered batch) = batch \<and> list_all publication_ok (map Unanswered batch)"
  by (induction batch) simp_all

text \<open>Executing a batch returns, with one publication for each request in the order of the batch.\<close>

lemma execute_for_batch_effect:
  assumes laws: "posix_laws os V" and e: "engine_sound V path (wk_engine w) s"
  obtains s' w' sh' failed' ps where
    "execute_for_batch os faults no_memory batch failed w sh s = Some (s', Done (w', sh', failed', ps))"
    "map publication_request ps = batch" "list_all publication_ok ps" "engine_sound V path (wk_engine w') s'"
    "wk_batch_size_histogram w' = wk_batch_size_histogram w" "sh' = sh \<or> sh' = enter_fail_stop sh"
proof (cases "failed \<or> no_memory")
  case True
  have "execute_for_batch os faults no_memory batch failed w sh s =
      Some (s, Done (w, if failed then sh else enter_fail_stop sh, True, map Unanswered batch))"
    using True by (auto simp: execute_for_batch_def)
  then show thesis by (rule that) (use unanswered_ok [of batch] e in simp_all)
next
  case False
  let ?cs = "map (to_journal_command \<circ> adm_request) batch"
  note found = that
  have lost: thesis if "execute_batch os faults (wk_engine w) ?cs s = Some (s', e', Inl err)" "eng_state e' = Failed" for s' e' err
  proof -
    have "execute_for_batch os faults no_memory batch failed w sh s =
        Some (s', Done (w\<lparr>wk_engine := e'\<rparr>, enter_fail_stop sh, True, map Unanswered batch))"
      using False that(1) by (simp add: execute_for_batch_def Let_def)
    then show thesis by (rule found) (use unanswered_ok [of batch] that(2) in \<open>simp_all add: engine_sound_def\<close>)
  qed
  show thesis
  proof (cases "eng_state (wk_engine w)")
    case Failed
    then show thesis by (intro lost [of s "wk_engine w" "application_failure EngineFailed"]) (simp_all add: execute_batch_def)
  next
    case Healthy
    then obtain cs where at: "engine_at V s path (wk_engine w) cs" using e by (auto simp: engine_sound_def)
    show thesis
    proof (rule execute_batch_effect [OF laws at, of faults ?cs], goal_cases)
      case (1 s' e')
      let ?rs = "snd (spec_commands (flat_after cs) ?cs)"
      have "list_all2 matches (map adm_request batch) ?rs"
        using spec_commands_match [of "map adm_request batch" "flat_after cs"] by simp
      note ans = answers_ok [OF this]
      have "execute_for_batch os faults no_memory batch failed w sh s =
          Some (s', Done (w\<lparr>wk_engine := e'\<rparr>, sh, False, map2 Answer batch ?rs))"
        using False 1(1) by (simp add: execute_for_batch_def Let_def length_spec_commands)
      then show thesis by (rule that) (use ans 1(3) in \<open>auto simp: engine_sound_def\<close>)
    next
      case (2 s' e' err d)
      then show thesis by (intro lost)
    next
      case (3 s' e' site i)
      then show thesis by (intro lost)
    qed
  qed
qed

lemma publication_response_key:
  assumes "publication_ok p"
  obtains response where "publication_response p = Done response"
    "response_key response = request_key (adm_request (publication_request p))"
proof (cases p)
  case (Answer a r)
  with assms that show thesis
    by (cases "(adm_request a, r)" rule: matches.cases) (auto simp: summarize_submit_result_def summarize_cancel_result_def)
next
  case (Unanswered a)
  with that show thesis by (cases "adm_request a") auto
qed

text \<open>The response queue has room for every publication: its capacity is that of the limiter.\<close>

lemma publish_one_effect:
  assumes s: "slots_ok config pl gp sh" and q: "queues_ok config pl sh" and p: "publication_ok p"
    and pl: "worker_requests pl = publication_request p # rest" "worker_requests pl' = rest" "pl' \<notin> {Leaving, Returned}"
  obtains sh' where "publish_one p sh = Done sh'" "slots_ok config pl' gp sh'" "queues_ok config pl' sh'"
    "under_way pl' sh' = under_way pl sh"
proof -
  let ?a = "publication_request p"
  obtain response where r: "publication_response p = Done response" "response_key response = request_key (adm_request ?a)"
    by (rule publication_response_key [OF p])
  let ?c = "\<lparr>cmp_response = response, cmp_completion = fst (reservation_move (adm_completion ?a))\<rparr>"
  let ?sh = "sh\<lparr>sh_responses := (sh_responses sh)\<lparr>bq_items := bq_items (sh_responses sh) @ [?c]\<rparr>\<rparr>"
  have "pl \<noteq> Returned" using pl(1) by auto
  moreover have "length (bq_items (sh_responses sh)) < exc_maximum_in_flight config"
    using s pl(1) by (simp add: slots_ok_def slots_def)
  ultimately have "publish_one p sh = Done ?sh"
    using q r(1) by (simp add: publish_one_def publish_def try_push_def queues_ok_def)
  moreover have "slots_ok config pl' gp ?sh"
    using s pl(1,2) by (auto simp: slots_ok_def slots_def reservation_move_def)
  moreover have "queues_ok config pl' ?sh" using q pl(3) \<open>pl \<noteq> Returned\<close> by (simp add: queues_ok_def)
  moreover have "under_way pl' ?sh = under_way pl sh" using pl(1,2) r(2) by (simp add: under_way_def)
  ultimately show thesis by (rule that)
qed

definition histogram_fits :: "ExchangeServerConfig \<Rightarrow> bool" where
  "histogram_fits config \<longleftrightarrow> 0 < exc_request_queue_capacity config \<and>
     (exc_max_durable_batch_size config \<le> exc_request_queue_capacity config \<or>
      exc_maximum_in_flight config \<le> exc_request_queue_capacity config)"

lemma history_ok_move:
  assumes "history_ok y" "sys_admitted y' = sys_admitted y" "sys_dropped y' = sys_dropped y" "sys_answered y' = sys_answered y"
    "under_way (sys_place y') (sys_shared y') = under_way (sys_place y) (sys_shared y)"
    "sys_dropped y = [] \<or> sys_place y' \<in> {AtHandler, Leaving, Returned} \<union> range HandlerPublishing"
  shows "history_ok y'"
  using assms by (simp add: history_ok_def)

text \<open>The request that is destroyed is the first that is under way after all responses.\<close>

lemma history_ok_drop:
  assumes h: "history_ok y" and head: "sys_place y = AtHead failed" "bq_items (sh_requests (sys_shared y)) = a # rest"
    and y': "sys_admitted y' = sys_admitted y" "sys_dropped y' = sys_dropped y @ [adm_request a]" "sys_answered y' = sys_answered y"
      "sys_place y' = AtHandler" "bq_items (sh_requests (sys_shared y')) = rest" "sh_responses (sys_shared y') = sh_responses (sys_shared y)"
  shows "history_ok y'"
proof -
  let ?before = "map response_key (sys_answered y) @ map (response_key \<circ> cmp_response) (bq_items (sh_responses (sys_shared y)))"
  let ?after = "map (request_key \<circ> adm_request) rest"
  have "sys_dropped y = []" using h head(1) by (auto simp: history_ok_def)
  moreover from this h have "map request_key (sys_admitted y) = map response_key (sys_answered y) @ under_way (sys_place y) (sys_shared y)"
    unfolding history_ok_def by auto
  ultimately have split: "map request_key (sys_admitted y') = ?before @ map request_key (sys_dropped y') @ ?after \<and>
      ?before @ ?after = map response_key (sys_answered y') @ under_way (sys_place y') (sys_shared y')"
    using head y' by (simp add: under_way_def)
  show ?thesis unfolding history_ok_def
    by (intro conjI exI [of _ ?before] exI [of _ ?after]) (use split \<open>sys_dropped y = []\<close> y' in simp_all)
qed

text \<open>A step of the worker is safe: it does not terminate the process or run into undefined behaviour.\<close>

definition worker_safe ::
  "'s file_views \<Rightarrow> path \<Rightarrow> ExchangeServerConfig \<Rightarrow> 's system \<Rightarrow> bool \<Rightarrow> 's \<Rightarrow> (worker_place \<times> Worker \<times> Shared) outcome \<Rightarrow> bool" where
  "worker_safe V path config y no_batch s' r \<longleftrightarrow>
     (\<exists>pl w sh. r = Done (pl, w, sh) \<and> system_ok V path config (after_worker y no_batch pl w sh s'))"

lemma worker_safeI:
  assumes "system_ok V path config y" "r = Done (pl, sys_worker y, sh)" "s' = sys_os y" "slots_ok config pl (sys_gateway y) sh"
    "queues_ok config pl sh" "place_ok config pl" "history_ok (after_worker y no_batch pl (sys_worker y) sh s')"
  shows "worker_safe V path config y no_batch s' r"
  using assms by (simp add: worker_safe_def system_ok_def after_worker_def)

lemma head_ok:
  assumes ok: "system_ok V path config y" and pl: "sys_place y = AtHead failed"
    and step: "worker_step os config faults no_batch no_memory (sys_place y) (sys_worker y) (sys_shared y) (sys_os y) = Some (s', r)"
  shows "worker_safe V path config y no_batch s' r"
proof -
  let ?sh = "sys_shared y" and ?pl = "sys_place y" and ?gp = "sys_gateway y" and ?w = "sys_worker y"
  from ok have s: "slots_ok config ?pl ?gp ?sh" and q: "queues_ok config ?pl ?sh" and h: "history_ok y"
    by (simp_all add: system_ok_def)
  show ?thesis
  proof (cases "bq_items (sh_requests ?sh)")
    case Nil
    with step pl have "bq_closed (sh_requests ?sh)" "r = Done (Leaving, ?w, ?sh)" "s' = sys_os y"
      by (auto simp: wait_pop_def split: if_splits)
    moreover have "dropped_by (AtHead failed) no_batch ?sh = []" using Nil by (cases no_batch) (simp_all add: try_pop_def)
    ultimately show ?thesis
      by (intro worker_safeI [OF ok, of _ Leaving ?sh] history_ok_move [OF h])
         (use s q h Nil pl in \<open>simp_all add: after_worker_def slots_ok_def slots_def queues_ok_def under_way_def\<close>)
  next
    case (Cons a rest)
    let ?rq = "(sh_requests ?sh)\<lparr>bq_items := rest\<rparr>"
    have w: "wait_pop (sh_requests ?sh) = Some (?rq, Some a)" using Cons by (simp add: wait_pop_def)
    show ?thesis
    proof (cases no_batch)
      case False
      with step pl w have "r = Done (Collecting [a] failed, ?w, ?sh\<lparr>sh_requests := ?rq\<rparr>)" "s' = sys_os y" by (simp_all add: Let_def)
      then show ?thesis
        by (intro worker_safeI [OF ok, of _ "Collecting [a] failed" "?sh\<lparr>sh_requests := ?rq\<rparr>"] history_ok_move [OF h])
           (use s q h Cons pl False in \<open>auto simp: after_worker_def slots_ok_def slots_def queues_ok_def under_way_def history_ok_def\<close>)
    next
      case True
      have o: "owner (adm_completion a)" "0 < lim_in_flight (sh_limiter ?sh)" using s Cons by (auto simp: after_worker_def slots_ok_def slots_def)
      let ?l = "(sh_limiter ?sh)\<lparr>lim_in_flight := lim_in_flight (sh_limiter ?sh) - 1\<rparr>"
      let ?s = "enter_fail_stop (?sh\<lparr>sh_requests := ?rq, sh_limiter := ?l\<rparr>)"
      have "r = Done (AtHandler, ?w, ?s)" "s' = sys_os y" using step pl w True release_effect(2) [OF o] by (simp_all add: Let_def)
      then show ?thesis
        by (intro worker_safeI [OF ok, of _ AtHandler ?s] history_ok_drop [OF h pl Cons])
           (use s q Cons pl True in \<open>auto simp: after_worker_def slots_ok_def slots_def queues_ok_def try_pop_def enter_fail_stop_def request_stop_def\<close>)
    qed
  qed
qed

lemma collecting_ok:
  assumes ok: "system_ok V path config y" and pl: "sys_place y = Collecting batch failed"
    and laws: "posix_laws os V" and fits: "histogram_fits config"
    and step: "worker_step os config faults no_batch no_memory (sys_place y) (sys_worker y) (sys_shared y) (sys_os y) = Some (s', r)"
  shows "worker_safe V path config y no_batch s' r"
proof -
  let ?sh = "sys_shared y" and ?pl = "sys_place y" and ?gp = "sys_gateway y" and ?w = "sys_worker y"
  from ok have s: "slots_ok config ?pl ?gp ?sh" and q: "queues_ok config ?pl ?sh" and h: "history_ok y"
    and e: "engine_sound V path (wk_engine ?w) (sys_os y)"
    and hist: "length (wk_batch_size_histogram ?w) = Suc (exc_request_queue_capacity config)"
    by (simp_all add: system_ok_def)
  show ?thesis
  proof (cases "length batch < exc_max_durable_batch_size config \<and> bq_items (sh_requests ?sh) \<noteq> []")
    case True
    then obtain a rest where rq: "bq_items (sh_requests ?sh) = a # rest" by (cases "bq_items (sh_requests ?sh)") auto
    let ?s = "?sh\<lparr>sh_requests := (sh_requests ?sh)\<lparr>bq_items := rest\<rparr>\<rparr>"
    have "r = Done (Collecting (batch @ [a]) failed, ?w, ?s)" "s' = sys_os y"
      using step pl True rq by (simp_all add: try_pop_def)
    then show ?thesis
      by (intro worker_safeI [OF ok, of _ "Collecting (batch @ [a]) failed" ?s] history_ok_move [OF h])
         (use s q h rq pl True in \<open>auto simp: after_worker_def slots_ok_def slots_def queues_ok_def under_way_def history_ok_def\<close>)
  next
    case False
    have "length batch \<le> exc_maximum_in_flight config" using s pl by (simp add: slots_ok_def slots_def)
    moreover have "length batch \<le> max 1 (exc_max_durable_batch_size config)" using ok pl by (simp add: system_ok_def)
    ultimately have n: "length batch < length (wk_batch_size_histogram ?w)" using fits hist by (auto simp: after_worker_def histogram_fits_def)
    then obtain w1 where w1: "count_batch (length batch) ?w = Done w1" "wk_engine w1 = wk_engine ?w"
      "length (wk_batch_size_histogram w1) = length (wk_batch_size_histogram ?w)" by (auto simp: after_worker_def count_batch_def)
    have none: "(if length batch < exc_max_durable_batch_size config then try_pop (sh_requests ?sh) else (sh_requests ?sh, None)) = (sh_requests ?sh, None)"
      using False by (auto simp: after_worker_def try_pop_def)
    from e w1(2) have e1: "engine_sound V path (wk_engine w1) (sys_os y)" by simp
    show ?thesis
    proof (rule execute_for_batch_effect [OF laws e1, of faults no_memory batch failed ?sh], goal_cases)
      case (1 s1 w' sh' failed' ps)
      have r: "r = Done (Publishing ps failed', w', sh')" "s' = s1" using step pl none w1(1) 1(1) by simp_all
      have same: "slots (Publishing ps failed') ?gp sh' = slots ?pl ?gp ?sh" "under_way (Publishing ps failed') sh' = under_way ?pl ?sh"
        "sh_limiter sh' = sh_limiter ?sh" "sh_requests sh' = sh_requests ?sh" "sh_responses sh' = sh_responses ?sh"
        using 1(2,6) pl by (auto simp: slots_def under_way_def enter_fail_stop_def request_stop_def simp flip: map_map)
      have "history_ok (after_worker y no_batch (Publishing ps failed') w' sh' s')"
        by (rule history_ok_move [OF h]) (use same pl h in \<open>auto simp: after_worker_def history_ok_def\<close>)
      moreover have "slots_ok config (Publishing ps failed') ?gp sh'" using s same by (simp add: slots_ok_def)
      moreover have "queues_ok config (Publishing ps failed') sh'" using q same pl by (simp add: queues_ok_def)
      ultimately show ?thesis using r 1(3,4,5) w1(3) hist by (simp add: worker_safe_def system_ok_def after_worker_def)
    qed
  qed
qed

lemma publishing_ok:
  assumes ok: "system_ok V path config y" and pl: "sys_place y = Publishing ps failed"
    and step: "worker_step os config faults no_batch no_memory (sys_place y) (sys_worker y) (sys_shared y) (sys_os y) = Some (s', r)"
  shows "worker_safe V path config y no_batch s' r"
proof -
  let ?sh = "sys_shared y" and ?pl = "sys_place y" and ?gp = "sys_gateway y" and ?w = "sys_worker y"
  from ok have s: "slots_ok config ?pl ?gp ?sh" and q: "queues_ok config ?pl ?sh" and h: "history_ok y"
    by (simp_all add: system_ok_def)
  show ?thesis
  proof (cases ps)
    case Nil
    with step pl have "r = Done (AtHead failed, ?w, ?sh)" "s' = sys_os y" by simp_all
    then show ?thesis
      by (intro worker_safeI [OF ok, of _ "AtHead failed" ?sh] history_ok_move [OF h])
         (use s q h Nil pl in \<open>auto simp: after_worker_def slots_ok_def slots_def queues_ok_def under_way_def history_ok_def\<close>)
  next
    case (Cons p ps')
    have p: "publication_ok p" "list_all publication_ok ps'" using ok pl Cons by (simp_all add: after_worker_def system_ok_def)
    obtain sh' where sh': "publish_one p ?sh = Done sh'" "slots_ok config (Publishing ps' failed) ?gp sh'"
      "queues_ok config (Publishing ps' failed) sh'" "under_way (Publishing ps' failed) sh' = under_way ?pl ?sh"
      by (rule publish_one_effect [OF s q p(1), where pl' = "Publishing ps' failed"]) (use pl Cons in simp_all)
    have "r = Done (Publishing ps' failed, ?w, sh')" "s' = sys_os y" using step pl Cons sh'(1) by simp_all
    then show ?thesis
      by (intro worker_safeI [OF ok _ _ sh'(2,3)] history_ok_move [OF h])
         (use p sh'(4) h pl in \<open>auto simp: after_worker_def history_ok_def\<close>)
  qed
qed

lemma at_handler_ok:
  assumes ok: "system_ok V path config y" and pl: "sys_place y = AtHandler"
    and step: "worker_step os config faults no_batch no_memory (sys_place y) (sys_worker y) (sys_shared y) (sys_os y) = Some (s', r)"
  shows "worker_safe V path config y no_batch s' r"
proof -
  let ?sh = "sys_shared y" and ?pl = "sys_place y" and ?gp = "sys_gateway y" and ?w = "sys_worker y"
  from ok have s: "slots_ok config ?pl ?gp ?sh" and q: "queues_ok config ?pl ?sh" and h: "history_ok y"
    by (simp_all add: system_ok_def)
  show ?thesis
  proof (cases "bq_items (sh_requests ?sh)")
    case Nil
    with step pl have "bq_closed (sh_requests ?sh)" "r = Done (Leaving, ?w, ?sh)" "s' = sys_os y"
      by (auto simp: wait_pop_def split: if_splits)
    then show ?thesis
      by (intro worker_safeI [OF ok, of _ Leaving ?sh] history_ok_move [OF h])
         (use s q h Nil pl in \<open>simp_all add: after_worker_def slots_ok_def slots_def queues_ok_def under_way_def\<close>)
  next
    case (Cons a rest)
    let ?s = "?sh\<lparr>sh_requests := (sh_requests ?sh)\<lparr>bq_items := rest\<rparr>\<rparr>"
    have "r = Done (HandlerPublishing (Unanswered a), ?w, ?s)" "s' = sys_os y"
      using step pl Cons by (simp_all add: wait_pop_def)
    then show ?thesis
      by (intro worker_safeI [OF ok, of _ "HandlerPublishing (Unanswered a)" ?s] history_ok_move [OF h])
         (use s q h Cons pl in \<open>auto simp: after_worker_def slots_ok_def slots_def queues_ok_def under_way_def\<close>)
  qed
qed

lemma handler_publishing_ok:
  assumes ok: "system_ok V path config y" and pl: "sys_place y = HandlerPublishing p"
    and step: "worker_step os config faults no_batch no_memory (sys_place y) (sys_worker y) (sys_shared y) (sys_os y) = Some (s', r)"
  shows "worker_safe V path config y no_batch s' r"
proof -
  let ?sh = "sys_shared y" and ?pl = "sys_place y" and ?gp = "sys_gateway y" and ?w = "sys_worker y"
  from ok have s: "slots_ok config ?pl ?gp ?sh" and q: "queues_ok config ?pl ?sh" and h: "history_ok y"
    by (simp_all add: system_ok_def)
  have p: "publication_ok p" using ok pl by (simp add: system_ok_def)
  obtain sh' where sh': "publish_one p ?sh = Done sh'" "slots_ok config AtHandler ?gp sh'"
    "queues_ok config AtHandler sh'" "under_way AtHandler sh' = under_way ?pl ?sh"
    by (rule publish_one_effect [OF s q p, where pl' = AtHandler]) (use pl in simp_all)
  have "r = Done (AtHandler, ?w, sh')" "s' = sys_os y" using step pl sh'(1) by simp_all
  then show ?thesis
    by (intro worker_safeI [OF ok _ _ sh'(2,3)] history_ok_move [OF h]) (use sh'(4) pl in \<open>simp_all add: after_worker_def\<close>)
qed

lemma leaving_ok:
  assumes ok: "system_ok V path config y" and pl: "sys_place y = Leaving"
    and step: "worker_step os config faults no_batch no_memory (sys_place y) (sys_worker y) (sys_shared y) (sys_os y) = Some (s', r)"
  shows "worker_safe V path config y no_batch s' r"
proof -
  let ?sh = "sys_shared y" and ?pl = "sys_place y" and ?gp = "sys_gateway y" and ?w = "sys_worker y"
  from ok have s: "slots_ok config ?pl ?gp ?sh" and q: "queues_ok config ?pl ?sh" and h: "history_ok y"
    by (simp_all add: system_ok_def)
  let ?s = "?sh\<lparr>sh_responses := close (sh_responses ?sh)\<rparr>"
  have "r = Done (Returned, ?w, ?s)" "s' = sys_os y" using step pl by simp_all
  then show ?thesis
    by (intro worker_safeI [OF ok, of _ Returned ?s] history_ok_move [OF h])
       (use s q h pl in \<open>auto simp: after_worker_def slots_ok_def slots_def queues_ok_def under_way_def close_def\<close>)
qed

lemma worker_step_ok:
  assumes "posix_laws os V" "histogram_fits config" "system_ok V path config y"
    "worker_step os config faults no_batch no_memory (sys_place y) (sys_worker y) (sys_shared y) (sys_os y) = Some (s', r)"
  shows "worker_safe V path config y no_batch s' r"
proof (cases "sys_place y")
  case Returned
  with assms(4) show ?thesis by simp
qed (use assms in \<open>blast intro: head_ok collecting_ok publishing_ok at_handler_ok handler_publishing_ok leaving_ok\<close>)+

end
