(* ===== verification/Durable_History.thy ===== *)
theory Durable_History
  imports Durable_Recovery
begin

text \<open>
  The life of a journal over any sequence of batches, failures, crashes, shutdowns and recoveries. A
  crash may come at any moment, also in the middle of an append: the device then holds everything
  that was synced, and of what was written since, or was being written, some prefix.
\<close>

section \<open>Creating, executing, crashing, recovering\<close>

text \<open>
  \<open>acked\<close> are the commands whose results have been returned, \<open>submitted\<close> all that were passed to
  \<open>execute_batch\<close>. There is no engine between a crash or a shutdown and the next recovery.
\<close>

inductive durable_run ::
  "'s posix \<Rightarrow> 's file_views \<Rightarrow> path \<Rightarrow> DurableEngine option \<Rightarrow> 's \<Rightarrow> JournalCommand list \<Rightarrow> JournalCommand list \<Rightarrow> bool"
  for os V path where
  created: "engine_create os faults path s = Some (s', Inr e) \<Longrightarrow> durable_run os V path (Some e) s' [] []"
| executed: "durable_run os V path (Some e) s acked submitted \<Longrightarrow>
    execute_batch os faults e bs s = Some (s', e', r) \<Longrightarrow>
    durable_run os V path (Some e') s' (acked @ (case r of Inl _ \<Rightarrow> [] | Inr _ \<Rightarrow> bs)) (submitted @ bs)"
| crashed: "durable_run os V path engine s acked submitted \<Longrightarrow> content V s path = Some c \<Longrightarrow>
    bs = [] \<or> (\<exists>e. engine = Some e \<and> eng_state e = Healthy \<and> wr_next_sequence (eng_writer e) = next_number k) \<Longrightarrow>
    prefix (synced V s path) c' \<Longrightarrow> prefix c' (c @ frames k bs) \<Longrightarrow>
    content V s' path = Some c' \<Longrightarrow> synced V s' path = c' \<Longrightarrow>
    durable_run os V path None s' acked (submitted @ bs)"
| shut_down: "durable_run os V path (Some e) s acked submitted \<Longrightarrow>
    durable_run os V path None (writer_destroy os (eng_writer e) s) acked submitted"
| recovered: "durable_run os V path None s acked submitted \<Longrightarrow>
    engine_recover os faults path s = Some (s', r) \<Longrightarrow>
    durable_run os V path (case r of Inl _ \<Rightarrow> None | Inr e \<Rightarrow> Some e) s' acked submitted"

section \<open>The invariant\<close>

text \<open>
  The file holds the journal of \<open>cs\<close> and perhaps an incomplete record; what has reached the device is
  a prefix of it that contains every acknowledged command.
\<close>

definition stored :: "'s file_views \<Rightarrow> 's \<Rightarrow> path \<Rightarrow> JournalCommand list \<Rightarrow> JournalCommand list \<Rightarrow> byte list \<Rightarrow> bool" where
  "stored V s path acked cs tail \<longleftrightarrow> content V s path = Some (journal_image cs @ tail) \<and> incomplete tail \<and>
     prefix (synced V s path) (journal_image cs @ tail) \<and>
     (\<exists>ds. prefix (journal_image ds) (synced V s path) \<and> subseq acked ds)"

definition life_ok ::
  "'s file_views \<Rightarrow> path \<Rightarrow> DurableEngine option \<Rightarrow> 's \<Rightarrow> JournalCommand list \<Rightarrow> JournalCommand list \<Rightarrow> bool" where
  "life_ok V path engine s acked submitted \<longleftrightarrow>
     (\<exists>cs tail. stored V s path acked cs tail \<and> subseq cs submitted \<and>
        (\<forall>e. engine = Some e \<longrightarrow> eng_state e = Healthy \<longrightarrow> engine_at V s path e cs))"

lemma life_okI:
  "stored V s path acked cs tail \<Longrightarrow> subseq cs submitted \<Longrightarrow>
   (\<And>e. engine = Some e \<Longrightarrow> eng_state e = Healthy \<Longrightarrow> engine_at V s path e cs) \<Longrightarrow> life_ok V path engine s acked submitted"
  by (auto simp: life_ok_def)

lemma file_small: "posix_laws os V \<Longrightarrow> content V s path = Some c \<Longrightarrow> length c < 2 ^ 63"
  unfolding posix_laws_def size_law_def by blast

lemma stored_acked:
  assumes "posix_laws os V" "stored V s path acked cs tail"
  shows "subseq acked cs"
proof -
  from assms(2) obtain ds where ds: "prefix (journal_image ds) (journal_image cs @ tail)" "subseq acked ds"
    and c: "content V s path = Some (journal_image cs @ tail)" "incomplete tail"
    unfolding stored_def by (meson prefix_order.trans)
  from image_prefix_commands [OF ds(1) c(2) file_small [OF assms(1) c(1)]] have "subseq ds cs"
    by (rule prefix_imp_subseq)
  with ds(2) show ?thesis by (rule subseq_order.trans)
qed

lemma engine_at_tail: "engine_at V s path e cs \<Longrightarrow> stored V s path acked cs tail \<Longrightarrow> tail = []"
  by (simp add: engine_at_def stored_def)

text \<open>A file between what is synced and what is being written.\<close>

lemma stored_prefix:
  assumes laws: "posix_laws os V" and st: "stored V s path acked cs tail"
    and c': "prefix (synced V s path) c'" "prefix c' (journal_image cs' @ tail')" "incomplete tail'"
    and s': "content V s' path = Some c'" "prefix (synced V s path) (synced V s' path)" "prefix (synced V s' path) c'"
  obtains cs1 tail1 where "stored V s' path acked cs1 tail1" "prefix cs1 cs'"
proof -
  from st obtain ds where ds: "prefix (journal_image ds) (synced V s path)" "subseq acked ds" by (auto simp: stored_def)
  have "prefix encode_file_header (journal_image ds)" by (simp add: journal_image_def)
  with ds(1) c'(1) have "prefix encode_file_header c'" by (meson prefix_order.trans)
  from image_prefix [OF c'(2) this c'(3) file_small [OF laws s'(1)]] obtain cs1 tail1 where
    "c' = journal_image cs1 @ tail1" "incomplete tail1" "prefix cs1 cs'" by blast
  moreover have "prefix (journal_image ds) (synced V s' path)" using ds(1) s'(2) by (rule prefix_order.trans)
  ultimately show thesis using that [of cs1 tail1] s' ds(2) by (auto simp: stored_def)
qed

lemma stored_kept:
  assumes laws: "posix_laws os V" and st: "stored V s path acked cs tail" and k: "kept V s s' path cs"
  shows "\<exists>tail. stored V s' path acked cs tail"
proof (cases "content V s' path = content V s path \<and> synced V s' path = synced V s path")
  case True
  with st show ?thesis by (auto simp: stored_def)
next
  case False
  let ?i = "journal_image cs"
  from st obtain ds where ds: "prefix (journal_image ds) (synced V s path)" "subseq acked ds"
    and y: "prefix (synced V s path) (?i @ tail)" "content V s path = Some (?i @ tail)" "incomplete tail" by (auto simp: stored_def)
  have "prefix ds cs"
    using image_prefix_commands [OF prefix_order.trans [OF ds(1) y(1)] y(3) file_small [OF laws y(2)]] .
  then have di: "prefix (journal_image ds) ?i" by (auto simp: prefix_def image_append)
  from False k have s': "content V s' path = Some ?i" "synced V s' path = take (length ?i) (synced V s path) \<or> synced V s' path = ?i"
    by (auto simp: kept_def)
  have "prefix (synced V s' path) ?i \<and> prefix (journal_image ds) (synced V s' path)"
    using s'(2)
  proof
    assume e: "synced V s' path = take (length ?i) (synced V s path)"
    have "take (length ?i) (take n (?i @ tail)) = take n ?i" for n by (simp add: min_def)
    moreover have "synced V s path = take (length (synced V s path)) (?i @ tail)"
      using y(1) by (metis prefix_def append_eq_conv_conj)
    ultimately have "take (length ?i) (synced V s path) = take (length (synced V s path)) ?i" by metis
    moreover have "prefix (journal_image ds) (take (length ?i) (synced V s path))"
      using ds(1) prefix_length_le [OF di] by (auto simp: prefix_def)
    ultimately show ?thesis using e by (metis take_is_prefix)
  qed (simp add: di)
  with s'(1) ds(2) have "stored V s' path acked cs []" by (auto simp: stored_def incomplete_def)
  then show ?thesis by blast
qed

section \<open>Every step keeps it\<close>

lemma created_ok:
  assumes laws: "posix_laws os V" and cr: "engine_create os faults path s = Some (s', Inr e)"
  shows "life_ok V path (Some e) s' [] []"
proof (rule create_effect [OF laws, of path s], goal_cases)
  case (2 s1 w)
  then have "s' = s1" "e = new_engine new_order_book w" using cr by (simp_all add: engine_create_def split: if_splits)
  moreover have "engine_at V s1 path (new_engine new_order_book w) []"
    using 2 book_ok_new by (simp add: engine_at_def new_engine_def flat_after_def)
  moreover have "stored V s1 path [] [] []" using 2 by (auto simp: stored_def incomplete_def intro!: exI [of _ "[]"])
  ultimately show ?thesis by (auto intro: life_okI)
qed (use cr in \<open>simp add: engine_create_def\<close>)

lemma executed_ok:
  assumes laws: "posix_laws os V" and ok: "life_ok V path (Some e) s acked submitted"
    and ex: "execute_batch os faults e bs s = Some (s', e', r)"
  shows "life_ok V path (Some e') s' (acked @ (case r of Inl _ \<Rightarrow> [] | Inr _ \<Rightarrow> bs)) (submitted @ bs)"
proof -
  from ok obtain cs tail where st: "stored V s path acked cs tail" and sub: "subseq cs submitted"
    and at: "eng_state e = Healthy \<Longrightarrow> engine_at V s path e cs" by (auto simp: life_ok_def)
  have sub': "subseq x (submitted @ bs)" if "prefix x (cs @ bs)" for x
    using prefix_imp_subseq [OF that] list_emb_append_mono [OF sub subseq_order.refl, of bs] by (rule subseq_order.trans)
  show ?thesis
  proof (cases "eng_state e")
    case Failed
    then have "s' = s" "e' = e" "\<exists>err. r = Inl err" using ex by (auto simp: execute_batch_def)
    with st sub' [of cs] Failed show ?thesis by (auto intro: life_okI)
  next
    case Healthy
    note at = at [OF this]
    have c: "content V s path = Some (journal_image cs)" "tail = []" using at engine_at_tail [OF at st] by (simp_all add: engine_at_def)
    show ?thesis
    proof (rule execute_batch_effect [OF laws at, of faults bs], goal_cases)
      case (1 s1 e1)
      have "stored V s1 path (acked @ bs) (cs @ bs) []"
        using 1 list_emb_append_mono [OF stored_acked [OF laws st] subseq_order.refl, of bs]
        by (auto simp: stored_def engine_at_def incomplete_def)
      with 1 ex sub' [of "cs @ bs"] show ?thesis by (auto intro: life_okI)
    next
      case (2 s1 e1 err d)
      have "prefix (journal_image cs @ d) (journal_image (cs @ bs) @ [])" using 2(5) by (simp add: image_append)
      moreover have p: "prefix (synced V s path) (journal_image cs @ d)" using st c(2) by (simp add: stored_def)
      ultimately obtain cs1 tail1 where "stored V s1 path acked cs1 tail1" "prefix cs1 (cs @ bs)"
        by (rule_tac stored_prefix [OF laws st, of "journal_image cs @ d" "cs @ bs" "[]" s1]) (use 2(4,6) in \<open>simp_all add: incomplete_def\<close>)
      with 2 ex sub' [of cs1] show ?thesis by (auto intro: life_okI)
    next
      case (3 s1 e1 site i)
      have "subseq acked (cs @ bs)" using stored_acked [OF laws st] by (rule subseq_order.trans) (simp add: prefix_imp_subseq)
      with 3 have "stored V s1 path acked (cs @ bs) []" by (auto simp: stored_def incomplete_def)
      with 3 ex sub' [of "cs @ bs"] show ?thesis by (auto intro: life_okI)
    qed
  qed
qed

lemma crashed_ok:
  assumes laws: "posix_laws os V" and ok: "life_ok V path engine s acked submitted" and c: "content V s path = Some c"
    and flight: "bs = [] \<or> (\<exists>e. engine = Some e \<and> eng_state e = Healthy \<and> wr_next_sequence (eng_writer e) = next_number k)"
    and c': "prefix (synced V s path) c'" "prefix c' (c @ frames k bs)" "content V s' path = Some c'" "synced V s' path = c'"
  shows "life_ok V path None s' acked (submitted @ bs)"
proof -
  from ok obtain cs tail where st: "stored V s path acked cs tail" and sub: "subseq cs submitted"
    and at: "\<And>e. engine = Some e \<Longrightarrow> eng_state e = Healthy \<Longrightarrow> engine_at V s path e cs" by (auto simp: life_ok_def)
  have c: "c = journal_image cs @ tail" "incomplete tail" using st c by (simp_all add: stored_def)
  obtain tail' where tail': "incomplete tail'" "prefix c' (journal_image (cs @ bs) @ tail')"
  proof (cases "bs = []")
    case True
    with c c'(2) that [of tail] show thesis by simp
  next
    case False
    with flight obtain e where e: "engine = Some e" "eng_state e = Healthy" "wr_next_sequence (eng_writer e) = next_number k" by blast
    note at = at [OF e(1,2)]
    then have "next_number k = next_number (Suc (length cs))" "Suc (length cs) < 2 ^ 63" "tail = []"
      using e(3) image_small [OF laws, of s path cs "[]"] engine_at_tail [OF at st] by (simp_all add: engine_at_def writer_at_def)
    then have k: "k < 2 ^ 64" "(of_nat k :: u64) = of_nat (Suc (length cs))" "Suc (length cs) < 2 ^ 64"
      by (simp_all add: next_number_def split: if_splits)
    have "k = Suc (length cs)"
      using arg_cong [OF k(2), of unat] k(1,3) by (simp add: unat_of_nat del: of_nat_Suc)
    with c c'(2) \<open>tail = []\<close> that [of "[]"] show thesis by (simp add: incomplete_def image_append)
  qed
  obtain cs1 tail1 where "stored V s' path acked cs1 tail1" "prefix cs1 (cs @ bs)"
    by (rule stored_prefix [OF laws st c'(1) tail'(2,1) c'(3)]) (use c' in simp_all)
  moreover from prefix_imp_subseq [OF this(2)] have "subseq cs1 (submitted @ bs)"
    using list_emb_append_mono [OF sub subseq_order.refl, of bs] by (rule subseq_order.trans)
  ultimately show ?thesis by (auto intro: life_okI)
qed

lemma recovered_ok:
  assumes laws: "posix_laws os V" and ok: "life_ok V path engine s acked submitted"
    and re: "engine_recover os faults path s = Some (s', r)"
  shows "life_ok V path (case r of Inl _ \<Rightarrow> None | Inr e \<Rightarrow> Some e) s' acked submitted"
proof -
  from ok obtain cs tail where st: "stored V s path acked cs tail" and sub: "subseq cs submitted" by (auto simp: life_ok_def)
  then have c: "content V s path = Some (journal_image cs @ tail)" "incomplete tail" by (simp_all add: stored_def)
  show ?thesis
  proof (rule engine_recover_effect [OF laws c, of faults], goal_cases)
    case (1 s1 err)
    with stored_kept [OF laws st 1(2)] re sub show ?thesis by (auto intro: life_okI)
  next
    case (2 s1 e)
    with stored_kept [OF laws st 2(2)] re sub show ?thesis by (auto intro: life_okI)
  qed
qed

lemma durable_run_ok: "durable_run os V path engine s acked submitted \<Longrightarrow> posix_laws os V \<Longrightarrow> life_ok V path engine s acked submitted"
proof (induction rule: durable_run.induct)
  case (created faults s s' e)
  then show ?case by (rule_tac created_ok)
next
  case (executed e s acked submitted faults bs s' e' r)
  then show ?case by (rule_tac executed_ok) simp_all
next
  case (crashed engine s acked submitted c bs k c' s')
  then show ?case by (rule_tac crashed_ok) simp_all
next
  case (shut_down e s acked submitted)
  then show ?case using destroy_views [of os V] by (auto simp: life_ok_def stored_def)
next
  case (recovered s acked submitted faults s' r)
  then show ?case by (rule_tac recovered_ok) simp_all
qed

section \<open>A sample history\<close>

lemma mem_calls:
  "sys_open mem_os = mem_sys_open" "sys_write mem_os = mem_sys_write" "sys_fsync mem_os = mem_sys_fsync" "sys_close mem_os = mem_sys_close"
  by (simp_all add: mem_os_def)

lemma write_header:
  assumes "mem_interrupts s = 2" "mem_open s 0 = Some ''j''" "mem_next s = 1" "mem_files s ''j'' = Some []"
  shows "write_all mem_os 0 encode_file_header 0 s =
    Some (s\<lparr>mem_interrupts := 0, mem_files := (mem_files s)(''j'' \<mapsto> encode_file_header)\<rparr>, None)"
proof -
  have w: "write_all mem_os 0 encode_file_header 0 s = write_all mem_os 0 encode_file_header 0 (s\<lparr>mem_interrupts := mem_interrupts s - 1\<rparr>)"
    if "mem_interrupts s > 0" for s
    using that by (subst write_all.simps) (simp add: mem_calls mem_sys_write_def)
  have "write_all mem_os 0 encode_file_header 0 s = write_all mem_os 0 encode_file_header 0 (s\<lparr>mem_interrupts := 0\<rparr>)"
    using w [of s] w [of "s\<lparr>mem_interrupts := 1\<rparr>"] assms(1) by simp
  also have "\<dots> = Some (s\<lparr>mem_interrupts := 0, mem_files := (mem_files s)(''j'' \<mapsto> encode_file_header)\<rparr>, None)"
    using assms by (subst write_all.simps)
      (simp add: mem_calls mem_sys_write_def mem_target_def mem_content_def Let_def write_all.simps [of _ _ _ 16])
  finally show ?thesis .
qed

lemma create_sample:
  "\<exists>s'. engine_create mem_os no_engine_faults ''j'' mem_empty = Some (s', Inr sample_engine) \<and>
    mem_files s' = [''j'' \<mapsto> encode_file_header] \<and> mem_synced s' = (\<lambda>_. [])(''j'' := encode_file_header)"
  by (simp add: engine_create_def writer_create_def mem_calls mem_sys_open_def mem_empty_def mem_new_descriptor_def Let_def
   write_header mem_sys_fsync_def mem_target_def mem_content_def sync_directory_def parent_path_def
   close_descriptor_def mem_sys_close_def no_engine_faults_def sample_engine_def)

section \<open>Properties\<close>

text \<open>
  C4. No acknowledged command is ever lost. Over any history of a journal (batches that succeed or
  fail, crashes in between or in the middle of an append, shutdowns and recoveries) the file holds,
  up to an incomplete record at its end, the journal of a sequence of commands in which all
  acknowledged commands occur in order and which consists of submitted commands in order. Whenever
  there is a healthy engine, its book is exactly the one that sequence of commands leads to.
\<close>

theorem durable_history:
  assumes "posix_laws os V" and "durable_run os V path engine s acked submitted"
  shows "\<exists>cs tail. content V s path = Some (journal_image cs @ tail) \<and> incomplete tail \<and>
    subseq acked cs \<and> subseq cs submitted \<and>
    (\<forall>e. engine = Some e \<and> eng_state e = Healthy \<longrightarrow> flat (eng_book e) = flat_after cs \<and> book_ok (eng_book e))"
proof -
  from durable_run_ok [OF assms(2,1)] obtain cs tail where st: "stored V s path acked cs tail" and sub: "subseq cs submitted"
    and at: "\<forall>e. engine = Some e \<longrightarrow> eng_state e = Healthy \<longrightarrow> engine_at V s path e cs" by (auto simp: life_ok_def)
  from st stored_acked [OF assms(1) st] sub at show ?thesis
    by (intro exI [of _ cs] exI [of _ tail]) (simp add: stored_def engine_at_def)
qed

theorem durable_history_witness:
  "\<exists>s. durable_run mem_os mem_views ''j'' None s [] [sample_command] \<and>
    (\<exists>cs tail. content mem_views s ''j'' = Some (journal_image cs @ tail) \<and> incomplete tail \<and> subseq cs [sample_command])"
proof -
  let ?c = "encode_file_header @ take 20 (frame (JournalSequence 1) sample_command)"
  let ?s = "mem_with ''j'' ?c\<lparr>mem_synced := \<lambda>_. ?c\<rparr>"
  obtain s where s: "engine_create mem_os no_engine_faults ''j'' mem_empty = Some (s, Inr sample_engine)"
    "mem_files s = [''j'' \<mapsto> encode_file_header]" "mem_synced s = (\<lambda>_. [])(''j'' := encode_file_header)"
    using create_sample by blast
  have "durable_run mem_os mem_views ''j'' None ?s [] ([] @ [sample_command])"
  proof (rule crashed [OF created [OF s(1)]])
    show "content mem_views s ''j'' = Some encode_file_header" using s(2) by (simp add: mem_views_def mem_content_def)
    show "[sample_command] = [] \<or> (\<exists>e. Some sample_engine = Some e \<and> eng_state e = Healthy \<and>
        wr_next_sequence (eng_writer e) = next_number 1)"
      by (simp add: sample_engine_def new_engine_def new_writer_def next_number_def)
    show "prefix (synced mem_views s ''j'') ?c" using s(3) by (simp add: mem_views_def)
    show "prefix ?c (encode_file_header @ frames 1 [sample_command])" by (simp add: take_is_prefix)
  qed (simp_all add: mem_views_def mem_with_def mem_content_def)
  then have run: "durable_run mem_os mem_views ''j'' None ?s [] [sample_command]" by simp
  with durable_history [OF mem_posix_laws run] show ?thesis by blast
qed

end
