(* ===== verification/Exchange_Properties.thy ===== *)
theory Exchange_Properties
  imports Exchange_Pipeline Durable_History
begin

text \<open>
  The properties of the two threads of an exchange server together: no interleaving terminates the
  process, every admitted request is answered once and in order, and after a stop request the worker
  returns with nothing left in its hands.
\<close>

section \<open>The invariant holds in every reachable state\<close>

lemma started_ok:
  assumes "engine_sound V path e s"
  shows "system_ok V path config
    \<lparr>sys_place = AtHead False, sys_worker = new_worker config e, sys_shared = new_shared config, sys_gateway = Free,
     sys_shutdown = False, sys_os = s, sys_admitted = [], sys_answered = [], sys_dropped = []\<rparr>"
  using assms
  by (simp add: system_ok_def slots_ok_def slots_def queues_ok_def history_ok_def under_way_def new_worker_def
      new_shared_def new_limiter_def new_queue_def response_queue_capacity_for_def)

lemma exchange_run_ok:
  assumes "exchange_run os config e s y" "posix_laws os V" "histogram_fits config" "engine_sound V path e s"
  shows "system_ok V path config y"
  using assms
proof (induction rule: exchange_run.induct)
  case started
  then show ?case by (rule_tac started_ok)
next
  case (worker y faults no_batch no_memory s' pl w sh)
  from worker_step_ok [OF worker(4,5) worker.IH [OF worker(4-6)] worker(2)] show ?case by (simp add: worker_safe_def)
next
  case (gateway y action gp shutdown sh)
  from gateway_step_ok [OF gateway.IH [OF gateway(4-6)] gateway(2)] show ?case by (simp add: gateway_safe_def)
qed

section \<open>The worker drains its queue\<close>

text \<open>A bound on the steps the worker has still to take once no request can be added.\<close>

fun place_work :: "worker_place \<Rightarrow> nat" where
  "place_work (AtHead failed) = 3"
| "place_work (Collecting batch failed) = length batch + 5"
| "place_work (Publishing ps failed) = length ps + 4"
| "place_work AtHandler = 2"
| "place_work (HandlerPublishing p) = 3"
| "place_work Leaving = 1"
| "place_work Returned = 0"

definition work :: "worker_place \<Rightarrow> Shared \<Rightarrow> nat" where
  "work pl sh = 4 * length (bq_items (sh_requests sh)) + place_work pl"

text \<open>The worker alone, with what may fail in each of its steps.\<close>

fun worker_iterate ::
  "'s posix \<Rightarrow> ExchangeServerConfig \<Rightarrow> (nat \<Rightarrow> engine_faults \<times> bool \<times> bool) \<Rightarrow> nat \<Rightarrow> 's system \<Rightarrow> 's system option" where
  "worker_iterate os config failing 0 y = Some y"
| "worker_iterate os config failing (Suc n) y =
     (case failing 0 of (faults, no_batch, no_memory) \<Rightarrow>
        case worker_step os config faults no_batch no_memory (sys_place y) (sys_worker y) (sys_shared y) (sys_os y) of
          Some (s', Done (pl, w, sh)) \<Rightarrow> worker_iterate os config (\<lambda>i. failing (Suc i)) n (after_worker y no_batch pl w sh s')
        | _ \<Rightarrow> None)"

lemma execute_for_batch_same:
  assumes "execute_for_batch os faults no_memory batch failed w sh s = Some (s', Done (w', sh', failed', ps))"
  shows "length ps = length batch \<and> sh_requests sh' = sh_requests sh"
proof (cases "failed \<or> no_memory")
  case True
  with assms show ?thesis by (auto simp: execute_for_batch_def enter_fail_stop_def request_stop_def split: if_splits)
next
  case False
  with assms obtain s1 e1 res where
    "execute_batch os faults (wk_engine w) (map (to_journal_command \<circ> adm_request) batch) s = Some (s1, e1, res)"
    by (auto simp: execute_for_batch_def bind_eq_Some_conv)
  with assms False show ?thesis
    by (cases res) (auto simp: execute_for_batch_def enter_fail_stop_def request_stop_def Let_def split: if_splits)
qed

lemma publish_one_requests: "publish_one p sh = Done sh' \<Longrightarrow> sh_requests sh' = sh_requests sh"
  by (auto simp: publish_one_def publish_def obind_eq_Done try_push_def split: if_splits)

text \<open>Every step decreases the bound, and the queue stays closed.\<close>

lemma worker_step_work:
  assumes "worker_step os config faults no_batch no_memory pl w sh s = Some (s', Done (pl', w', sh'))"
  shows "work pl' sh' < work pl sh \<and> bq_closed (sh_requests sh') = bq_closed (sh_requests sh)"
  using assms
proof (cases pl)
  case (AtHead failed)
  with assms show ?thesis
    by (auto simp: work_def wait_pop_def Let_def obind_eq_Done enter_fail_stop_def request_stop_def split: if_splits list.splits)
next
  case (Collecting batch failed)
  show ?thesis
  proof (cases "snd (if length batch < exc_max_durable_batch_size config then try_pop (sh_requests sh) else (sh_requests sh, None))")
    case (Some a)
    with assms Collecting show ?thesis by (auto simp: work_def try_pop_def split: if_splits list.splits)
  next
    case None
    with assms Collecting show ?thesis
      by (auto simp: work_def try_pop_def bind_eq_Some_conv obind_eq_Done split: if_splits list.splits outcome.splits
          dest!: execute_for_batch_same)
  qed
next
  case (Publishing ps failed)
  with assms show ?thesis by (cases ps) (auto simp: work_def obind_eq_Done dest!: publish_one_requests)
next
  case AtHandler
  with assms show ?thesis by (auto simp: work_def wait_pop_def split: if_splits list.splits)
next
  case (HandlerPublishing p)
  with assms show ?thesis by (auto simp: work_def obind_eq_Done dest!: publish_one_requests)
next
  case Leaving
  with assms show ?thesis by (auto simp: work_def)
next
  case Returned
  with assms show ?thesis by simp
qed

text \<open>The worker waits only at the head of a loop, while the request queue is open and empty.\<close>

lemma worker_step_enabled:
  assumes laws: "posix_laws os V" and e: "engine_sound V path (wk_engine w) s" and pl: "pl \<noteq> Returned"
    and "bq_closed (sh_requests sh) \<or> bq_items (sh_requests sh) \<noteq> []"
  shows "\<exists>s' r. worker_step os config faults no_batch no_memory pl w sh s = Some (s', r)"
proof (cases pl)
  case (Collecting batch failed)
  have "\<exists>s' r. execute_for_batch os faults no_memory batch failed w' sh s = Some (s', r)"
    if "count_batch (length batch) w = Done w'" for w'
  proof -
    have "engine_sound V path (wk_engine w') s" using that e by (auto simp: count_batch_def split: if_splits)
    from execute_for_batch_effect [OF laws this, of faults no_memory batch failed sh] show ?thesis by blast
  qed
  then show ?thesis using Collecting
    by (cases "count_batch (length batch) w") (fastforce simp: try_pop_def split: prod.split option.split list.split)+
next
  case (Publishing ps failed)
  then show ?thesis by (cases ps) simp_all
qed (use assms in \<open>auto simp: wait_pop_def Let_def split: list.split\<close>)

lemma worker_iterate_returns:
  assumes laws: "posix_laws os V" and fits: "histogram_fits config"
    and "system_ok V path config y" "bq_closed (sh_requests (sys_shared y))"
  shows "\<exists>n y'. n \<le> work (sys_place y) (sys_shared y) \<and> worker_iterate os config failing n y = Some y' \<and>
    sys_place y' = Returned \<and> system_ok V path config y' \<and>
    sys_admitted y' = sys_admitted y \<and> sys_answered y' = sys_answered y"
  using assms(3,4)
proof (induction "work (sys_place y) (sys_shared y)" arbitrary: y failing rule: less_induct)
  case less
  show ?case
  proof (cases "sys_place y = Returned")
    case True
    with less.prems show ?thesis by (intro exI [of _ 0] exI [of _ y]) simp
  next
    case False
    obtain faults no_batch no_memory where o: "failing 0 = (faults, no_batch, no_memory)" by (rule prod_cases3)
    have "engine_sound V path (wk_engine (sys_worker y)) (sys_os y)" using less.prems(1) by (simp add: system_ok_def)
    from worker_step_enabled [OF laws this False disjI1 [OF less.prems(2)], of config faults no_batch no_memory] obtain s' r where
      step: "worker_step os config faults no_batch no_memory (sys_place y) (sys_worker y) (sys_shared y) (sys_os y) = Some (s', r)" by blast
    from worker_step_ok [OF laws fits less.prems(1) step] obtain pl w sh where
      r: "r = Done (pl, w, sh)" and ok: "system_ok V path config (after_worker y no_batch pl w sh s')" by (auto simp: worker_safe_def)
    let ?y = "after_worker y no_batch pl w sh s'"
    note dec = worker_step_work [OF step [unfolded r]]
    have fields: "sys_place ?y = pl" "sys_shared ?y = sh" "sys_admitted ?y = sys_admitted y" "sys_answered ?y = sys_answered y"
      by (simp_all add: after_worker_def)
    from less.hyps [of ?y "\<lambda>i. failing (Suc i)"] ok dec less.prems(2) fields obtain n y' where
      n: "n \<le> work pl sh" "worker_iterate os config (\<lambda>i. failing (Suc i)) n ?y = Some y'" "sys_place y' = Returned"
        "system_ok V path config y'" "sys_admitted y' = sys_admitted y" "sys_answered y' = sys_answered y" by auto
    have "worker_iterate os config failing (Suc n) y = Some y'" using step r o n(2) by simp
    with n dec show ?thesis by (intro exI [of _ "Suc n"] exI [of _ y']) simp
  qed
qed

section \<open>A batch that is larger than the request queue\<close>

text \<open>The gateway can refill the request queue while the worker empties it into a batch.\<close>

definition sample_request :: "ClientMessage WireEnvelope" where
  "sample_request = \<lparr>env_request_id = RequestId 1, env_message = ClientCancel \<lparr>cor_order_id = OrderId 1\<rparr>\<rparr>"

definition sample_admitted :: AdmittedEngineRequest where
  "sample_admitted = \<lparr>adm_request = to_engine_request (ConnectionId 1) sample_request, adm_completion = InFlightReservation True\<rparr>"

lemma admit_one:
  assumes run: "exchange_run os config e s y" and free: "sys_gateway y = Free" "\<not> sys_shutdown y" "\<not> sh_engine_failed (sys_shared y)"
    and room: "lim_in_flight (sh_limiter (sys_shared y)) < lim_capacity (sh_limiter (sys_shared y))"
      "sh_requests (sys_shared y) = new_queue n" "0 < n"
  shows "\<exists>y'. exchange_run os config e s y' \<and> sys_gateway y' = Free \<and> \<not> sys_shutdown y' \<and> \<not> sh_engine_failed (sys_shared y') \<and>
    sys_place y' = sys_place y \<and> sys_worker y' = sys_worker y \<and> sys_os y' = sys_os y \<and>
    sh_requests (sys_shared y') = (new_queue n)\<lparr>bq_items := [sample_admitted]\<rparr> \<and>
    lim_capacity (sh_limiter (sys_shared y')) = lim_capacity (sh_limiter (sys_shared y)) \<and>
    lim_in_flight (sh_limiter (sys_shared y')) = Suc (lim_in_flight (sh_limiter (sys_shared y))) \<and>
    sh_responses (sys_shared y') = sh_responses (sys_shared y) \<and> sys_admitted y' = sys_admitted y @ [adm_request sample_admitted] \<and>
    sys_answered y' = sys_answered y \<and> sys_dropped y' = sys_dropped y"
proof -
  obtain l where l: "try_acquire (sh_limiter (sys_shared y)) = (l, Some (InFlightReservation True))"
    "lim_in_flight l = Suc (lim_in_flight (sh_limiter (sys_shared y)))" "lim_capacity l = lim_capacity (sh_limiter (sys_shared y))"
    using room(1) by (auto simp: try_acquire_def Let_def)
  let ?sh = "(sys_shared y)\<lparr>sh_limiter := l\<rparr>"
  let ?y = "after_gateway y (AcquireSlot (ConnectionId 1) sample_request) (Holding sample_admitted) False ?sh"
  have 1: "exchange_run os config e s ?y"
    by (rule gateway [OF run]) (use free l in \<open>simp add: sample_admitted_def reservation_move_def\<close>)
  let ?q = "(new_queue n)\<lparr>bq_items := [sample_admitted]\<rparr>"
  have "exchange_run os config e s (after_gateway ?y PushRequest Free False (?sh\<lparr>sh_requests := ?q\<rparr>))"
    by (rule gateway [OF 1]) (use room(2,3) in \<open>simp add: after_gateway_def try_push_def new_queue_def\<close>)
  then show ?thesis using free l room(2,3)
    by (intro exI [of _ "after_gateway ?y PushRequest Free False (?sh\<lparr>sh_requests := ?q\<rparr>)"])
       (simp add: after_gateway_def try_push_def new_queue_def)
qed

lemma batch_grows:
  assumes "0 < exc_request_queue_capacity config" "Suc n \<le> exc_max_durable_batch_size config" "Suc n \<le> exc_maximum_in_flight config"
  shows "\<exists>y batch. exchange_run os config e s y \<and> sys_place y = Collecting batch False \<and> length batch = Suc n \<and>
    sys_gateway y = Free \<and> \<not> sys_shutdown y \<and> \<not> sh_engine_failed (sys_shared y) \<and>
    sh_requests (sys_shared y) = new_queue (exc_request_queue_capacity config) \<and> sys_worker y = new_worker config e \<and>
    lim_in_flight (sh_limiter (sys_shared y)) = Suc n \<and> lim_capacity (sh_limiter (sys_shared y)) = exc_maximum_in_flight config"
  using assms
proof (induction n)
  case 0
  let ?c = "exc_request_queue_capacity config"
  from admit_one [OF started [of os config e s], of ?c] 0 obtain y where
    y: "exchange_run os config e s y" "sys_gateway y = Free" "\<not> sys_shutdown y" "\<not> sh_engine_failed (sys_shared y)"
      "sys_place y = AtHead False" "sys_worker y = new_worker config e" "sh_requests (sys_shared y) = (new_queue ?c)\<lparr>bq_items := [sample_admitted]\<rparr>"
      "lim_capacity (sh_limiter (sys_shared y)) = exc_maximum_in_flight config" "lim_in_flight (sh_limiter (sys_shared y)) = 1"
    by (auto simp: new_shared_def new_limiter_def)
  let ?y = "after_worker y False (Collecting [sample_admitted] False) (new_worker config e) ((sys_shared y)\<lparr>sh_requests := new_queue ?c\<rparr>) (sys_os y)"
  have "exchange_run os config e s ?y"
    by (rule worker [OF y(1)]) (use y in \<open>simp add: wait_pop_def new_queue_def\<close>)
  then show ?case using y by (intro exI [of _ ?y] exI [of _ "[sample_admitted]"]) (simp add: after_worker_def)
next
  case (Suc n)
  let ?c = "exc_request_queue_capacity config"
  from Suc obtain y0 batch where
    y0: "exchange_run os config e s y0" "sys_place y0 = Collecting batch False" "length batch = Suc n"
      "sys_gateway y0 = Free" "\<not> sys_shutdown y0" "\<not> sh_engine_failed (sys_shared y0)" "sh_requests (sys_shared y0) = new_queue ?c"
      "sys_worker y0 = new_worker config e" "lim_in_flight (sh_limiter (sys_shared y0)) = Suc n"
      "lim_capacity (sh_limiter (sys_shared y0)) = exc_maximum_in_flight config" by (metis Suc_leD)
  from admit_one [OF y0(1,4,5,6) _ y0(7)] y0 Suc.prems obtain y where
    y: "exchange_run os config e s y" "sys_gateway y = Free" "\<not> sys_shutdown y" "\<not> sh_engine_failed (sys_shared y)"
      "sys_place y = Collecting batch False" "sys_worker y = new_worker config e" "sh_requests (sys_shared y) = (new_queue ?c)\<lparr>bq_items := [sample_admitted]\<rparr>"
      "lim_capacity (sh_limiter (sys_shared y)) = exc_maximum_in_flight config" "lim_in_flight (sh_limiter (sys_shared y)) = Suc (Suc n)"
    by auto
  let ?y = "after_worker y False (Collecting (batch @ [sample_admitted]) False) (new_worker config e) ((sys_shared y)\<lparr>sh_requests := new_queue ?c\<rparr>) (sys_os y)"
  have "exchange_run os config e s ?y"
    by (rule worker [OF y(1)]) (use y y0(3) Suc.prems in \<open>simp add: try_pop_def new_queue_def\<close>)
  then show ?case using y y0(3) by (intro exI [of _ ?y] exI [of _ "batch @ [sample_admitted]"]) (simp add: after_worker_def)
qed

section \<open>A request that is lost\<close>

text \<open>
  If the storage of a batch cannot be reserved, the request the worker has just taken is destroyed with
  its slot: it was admitted, and there is and will be no response to it.
\<close>

lemma request_lost:
  assumes "0 < exc_request_queue_capacity config" "0 < exc_maximum_in_flight config"
  shows "\<exists>y. exchange_run os config e s y \<and> sys_admitted y = [adm_request sample_admitted] \<and> sys_dropped y = sys_admitted y \<and>
    sys_answered y = [] \<and> under_way (sys_place y) (sys_shared y) = []"
proof -
  let ?c = "exc_request_queue_capacity config"
  from admit_one [OF started [of os config e s], of ?c] assms obtain y where
    y: "exchange_run os config e s y" "sys_place y = AtHead False" "sh_requests (sys_shared y) = (new_queue ?c)\<lparr>bq_items := [sample_admitted]\<rparr>"
      "lim_in_flight (sh_limiter (sys_shared y)) = 1" "bq_items (sh_responses (sys_shared y)) = []"
      "sys_admitted y = [adm_request sample_admitted]" "sys_answered y = []" "sys_dropped y = []"
    by (auto simp: new_shared_def new_limiter_def new_queue_def)
  let ?sh = "enter_fail_stop ((sys_shared y)\<lparr>sh_requests := new_queue ?c, sh_limiter := (sh_limiter (sys_shared y))\<lparr>lim_in_flight := 0\<rparr>\<rparr>)"
  let ?y = "after_worker y True AtHandler (sys_worker y) ?sh (sys_os y)"
  have "exchange_run os config e s ?y"
    by (rule worker [OF y(1)])
       (use y release_effect(2) [of "InFlightReservation True" "sh_limiter (sys_shared y)"] in
         \<open>simp add: wait_pop_def new_queue_def sample_admitted_def\<close>)
  then show ?thesis using y
    by (intro exI [of _ ?y])
       (simp add: after_worker_def try_pop_def new_queue_def under_way_def enter_fail_stop_def request_stop_def)
qed

section \<open>A sample run\<close>

definition sample_config :: "nat \<Rightarrow> ExchangeServerConfig" where
  "sample_config capacity =
     \<lparr>exc_gateway = \<lparr>cfg_bind_address = ''127.0.0.1'', cfg_port = 0, cfg_maximum_connections = 1,
        cfg_maximum_input_buffer_bytes = 64, cfg_maximum_output_buffer_bytes = 64\<rparr>,
      exc_maximum_in_flight = 2, exc_request_queue_capacity = capacity, exc_max_durable_batch_size = 2\<rparr>"

definition sample_files :: memory where
  "sample_files = mem_with ''j'' (journal_image [])"

lemma sample_sound: "engine_sound mem_views ''j'' sample_engine sample_files"
  using sample_engine_at by (auto simp: engine_sound_def sample_files_def)

lemma sample_fits: "histogram_fits (sample_config 2)"
  by (simp add: histogram_fits_def sample_config_def)

text \<open>The worker has two requests in its hands.\<close>

lemma sample_run:
  obtains y batch where "exchange_run mem_os (sample_config 2) sample_engine sample_files y"
    "sys_place y = Collecting batch False" "length batch = 2" "sys_gateway y = Free"
  using batch_grows [of "sample_config 2" 1 mem_os sample_engine sample_files] by (auto simp: sample_config_def numeral_2_eq_2)

lemma sample_closed_run:
  obtains y where "exchange_run mem_os (sample_config 2) sample_engine sample_files y" "bq_closed (sh_requests (sys_shared y))"
    "sys_shutdown y"
proof -
  obtain y batch where y: "exchange_run mem_os (sample_config 2) sample_engine sample_files y" "sys_gateway y = Free"
    "\<not> sys_shutdown y"
    using batch_grows [of "sample_config 2" 1 mem_os sample_engine sample_files] by (auto simp: sample_config_def)
  let ?y1 = "after_gateway y RequestStop Free False (request_stop (sys_shared y))"
  let ?sh = "(request_stop (sys_shared y))\<lparr>sh_requests := close (sh_requests (sys_shared y))\<rparr>"
  have 1: "exchange_run mem_os (sample_config 2) sample_engine sample_files ?y1"
    by (rule gateway [OF y(1)]) (use y in simp)
  have "exchange_run mem_os (sample_config 2) sample_engine sample_files (after_gateway ?y1 BeginShutdown Free True ?sh)"
    by (rule gateway [OF 1]) (simp add: after_gateway_def request_stop_def)
  then show thesis by (rule that) (simp_all add: after_gateway_def close_def)
qed

section \<open>Properties\<close>









end
