(* ===== verification/Gateway_Wakeup.thy ===== *)
theory Gateway_Wakeup
  imports Exchange_Properties
begin

text \<open>
  How the event loop of the gateway is woken. The loop sleeps in \<open>poll\<close> without a timeout; whoever
  gives it something to do, a response, the end of the responses, or a stop request, changes the shared
  state first and then writes to an eventfd. This theory has the two loops on the eventfd, the event
  loop at the grain at which other threads can interfere, and the proof that no wake-up is lost.
\<close>

section \<open>The eventfd\<close>

record 't eventfd =
  efd_write :: "'t \<Rightarrow> 't \<times> (errno + nat)"
  efd_read :: "'t \<Rightarrow> 't \<times> (errno + nat)"

text \<open>One round of each loop: the new state and whether the loop goes on.\<close>

definition wake_once :: "'t eventfd \<Rightarrow> 't \<Rightarrow> 't \<times> bool" where
  "wake_once efd s = (case efd_write efd s of (s, result) \<Rightarrow> (s, result = Inl EINTR))"

definition drain_wakeup_once :: "'t eventfd \<Rightarrow> 't \<Rightarrow> 't \<times> bool" where
  "drain_wakeup_once efd s = (case efd_read efd s of (s, result) \<Rightarrow> (s, result = Inr 8 \<or> result = Inl EINTR))"

partial_function (option) wake :: "'t eventfd \<Rightarrow> 't \<Rightarrow> 't option" where
  "wake efd s = (case wake_once efd s of (s, again) \<Rightarrow> if again then wake efd s else Some s)"

partial_function (option) drain_wakeup :: "'t eventfd \<Rightarrow> 't \<Rightarrow> 't option" where
  "drain_wakeup efd s = (case drain_wakeup_once efd s of (s, again) \<Rightarrow> if again then drain_wakeup efd s else Some s)"

text \<open>The destructor of the gateway.\<close>

definition gateway_destroy :: "'t sockets \<Rightarrow> Gateway \<Rightarrow> 't \<Rightarrow> 't" where
  "gateway_destroy sk g s =
     (case close_all_connections sk g s of (s, g) \<Rightarrow>
        close_socket sk (gw_wakeup g) (close_socket sk (gw_listener g) s))"

text \<open>
  What is relied on of a non-blocking eventfd, \<open>counter\<close> being its value: a write adds one, or fails
  with \<open>EAGAIN\<close> because the counter is at its maximum; a read resets it, or fails with \<open>EAGAIN\<close> because
  it is zero; \<open>EINTR\<close> changes nothing and happens finitely often.
\<close>

definition eventfd_law :: "'t eventfd \<Rightarrow> ('t \<Rightarrow> nat) \<Rightarrow> ('t \<Rightarrow> nat) \<Rightarrow> bool" where
  "eventfd_law efd counter pauses \<longleftrightarrow>
     (\<forall>s s' r. efd_write efd s = (s', r) \<longrightarrow>
        (case r of
           Inr n \<Rightarrow> n = 8 \<and> counter s' = counter s + 1
         | Inl e \<Rightarrow> counter s' = counter s \<and> (if e = EINTR then pauses s' < pauses s else 0 < counter s))) \<and>
     (\<forall>s s' r. efd_read efd s = (s', r) \<longrightarrow>
        (case r of
           Inr n \<Rightarrow> n = 8 \<and> 0 < counter s \<and> counter s' = 0 \<and> pauses s' = pauses s
         | Inl e \<Rightarrow> counter s' = counter s \<and> (if e = EINTR then pauses s' < pauses s else counter s = 0)))"

lemma wake_once_effect:
  assumes "eventfd_law efd counter pauses" "wake_once efd s = (s', again)"
  shows "if again then counter s' = counter s \<and> pauses s' < pauses s else 0 < counter s'"
proof -
  obtain r where "efd_write efd s = (s', r)" "again \<longleftrightarrow> r = Inl EINTR" using assms(2) by (auto simp: wake_once_def split: prod.splits)
  with assms(1) show ?thesis unfolding eventfd_law_def by (cases r) (fastforce split: if_splits)+
qed

lemma drain_wakeup_once_effect:
  assumes "eventfd_law efd counter pauses" "drain_wakeup_once efd s = (s', again)"
  shows "if again then pauses s' + counter s' < pauses s + counter s else counter s' = 0"
proof -
  obtain r where "efd_read efd s = (s', r)" "again \<longleftrightarrow> r = Inr 8 \<or> r = Inl EINTR"
    using assms(2) by (auto simp: drain_wakeup_once_def split: prod.splits)
  with assms(1) show ?thesis unfolding eventfd_law_def by (cases r) (fastforce split: if_splits)+
qed

text \<open>Both loops return, the first with the eventfd readable, the second with it reset.\<close>

lemma wake_effect:
  assumes "eventfd_law efd counter pauses"
  shows "\<exists>s'. wake efd s = Some s' \<and> 0 < counter s'"
proof (induction "pauses s" arbitrary: s rule: less_induct)
  case less
  obtain s1 again where o: "wake_once efd s = (s1, again)" by (cases "wake_once efd s")
  with wake_once_effect [OF assms this] less show ?case
    by (subst wake.simps) (simp split: if_splits)
qed

lemma drain_wakeup_effect:
  assumes "eventfd_law efd counter pauses"
  shows "\<exists>s'. drain_wakeup efd s = Some s' \<and> counter s' = 0"
proof (induction "pauses s + counter s" arbitrary: s rule: less_induct)
  case less
  obtain s1 again where o: "drain_wakeup_once efd s = (s1, again)" by (cases "drain_wakeup_once efd s")
  with drain_wakeup_once_effect [OF assms this] less show ?case
    by (subst drain_wakeup.simps) (simp split: if_splits)
qed

section \<open>The event loop among the other threads\<close>

text \<open>
  Where the loop of \<open>run\<close> stands, in the order of the code; the flag tells the second copy of the
  first three places, which follows a wake-up.
\<close>

datatype loop_place =
  AtShutdown bool | AtCompletions bool | AtPending bool | AtCheck | AtPoll | AtDrainWakeup | AtServe | LoopLeft

text \<open>
  \<open>owed\<close> counts the calls of \<open>wake\<close> that have begun, or are about to, and have not yet written. Those of
  the event loop itself are among them. Serving the clients is one step, since it uses neither the
  response queue nor the stop flag, unless to set it.
\<close>

record ('s, 't) loop_state =
  lp_place :: loop_place
  lp_shared :: Shared
  lp_gateway :: Gateway
  lp_sockets :: 't
  lp_owed :: nat
  lp_worker_place :: worker_place
  lp_worker :: Worker
  lp_files :: 's

text \<open>The calls of \<open>notify\<close>, \<open>request_stop\<close> and \<open>enter_fail_stop\<close> that a step of the worker makes.\<close>

fun wakes :: "worker_place \<Rightarrow> worker_place \<Rightarrow> nat" where
  "wakes (AtHead failed) AtHandler = 1"
| "wakes (Collecting batch failed) (Publishing ps failed') = (if failed' \<and> \<not> failed then 1 else 0)"
| "wakes (Publishing (p # ps) failed) _ = 1"
| "wakes (HandlerPublishing p) _ = 1"
| "wakes Leaving _ = 1"
| "wakes _ _ = 0"

inductive loop_run ::
  "'s posix \<Rightarrow> 't sockets \<Rightarrow> 't eventfd \<Rightarrow> ('t \<Rightarrow> nat) \<Rightarrow> ExchangeServerConfig \<Rightarrow> ('s, 't) loop_state \<Rightarrow> ('s, 't) loop_state \<Rightarrow> bool"
  for os sk efd counter config y0 where
  loop_started: "lp_place y0 = AtShutdown False \<Longrightarrow> loop_run os sk efd counter config y0 y0"
| shutdown: "loop_run os sk efd counter config y0 y \<Longrightarrow> lp_place y = AtShutdown woken \<Longrightarrow>
    begin_shutdown_if_requested sk (lp_shared y) (lp_gateway y) (lp_sockets y) = (s, sh, g) \<Longrightarrow>
    loop_run os sk efd counter config y0
      (y\<lparr>lp_place := AtCompletions woken, lp_shared := sh, lp_gateway := g, lp_sockets := s\<rparr>)"
| completion: "loop_run os sk efd counter config y0 y \<Longrightarrow> lp_place y = AtCompletions woken \<Longrightarrow>
    bq_items (sh_responses (lp_shared y)) = c # cs \<Longrightarrow>
    drain_completions_loop (lp_shared y) (lp_gateway y) [c] = Done (sh, g) \<Longrightarrow>
    loop_run os sk efd counter config y0 (y\<lparr>lp_shared := sh, lp_gateway := g\<rparr>)"
| completions_done: "loop_run os sk efd counter config y0 y \<Longrightarrow> lp_place y = AtCompletions woken \<Longrightarrow>
    bq_items (sh_responses (lp_shared y)) = [] \<Longrightarrow>
    loop_run os sk efd counter config y0 (y\<lparr>lp_place := AtPending woken\<rparr>)"
| retained: "loop_run os sk efd counter config y0 y \<Longrightarrow> lp_place y = AtPending woken \<Longrightarrow>
    drain_pending_requests (lp_shared y) (lp_gateway y) = Done (sh, g) \<Longrightarrow>
    loop_run os sk efd counter config y0
      (y\<lparr>lp_place := (if woken then AtServe else AtCheck), lp_shared := sh, lp_gateway := g\<rparr>)"
| check: "loop_run os sk efd counter config y0 y \<Longrightarrow> lp_place y = AtCheck \<Longrightarrow>
    loop_run os sk efd counter config y0
      (y\<lparr>lp_place := (if shutdown_complete (lp_shared y) (lp_gateway y) then LoopLeft else AtPoll)\<rparr>)"
| poll_returns: "loop_run os sk efd counter config y0 y \<Longrightarrow> lp_place y = AtPoll \<Longrightarrow>
    loop_run os sk efd counter config y0
      (y\<lparr>lp_place := (if 0 < counter (lp_sockets y) then AtDrainWakeup else AtServe)\<rparr>)"
| poll_fails: "loop_run os sk efd counter config y0 y \<Longrightarrow> lp_place y = AtPoll \<Longrightarrow>
    loop_run os sk efd counter config y0
      (y\<lparr>lp_place := AtShutdown False, lp_shared := (if interrupted then lp_shared y else request_stop (lp_shared y)),
        lp_owed := (if interrupted then lp_owed y else lp_owed y + 1)\<rparr>)"
| drain: "loop_run os sk efd counter config y0 y \<Longrightarrow> lp_place y = AtDrainWakeup \<Longrightarrow>
    drain_wakeup_once efd (lp_sockets y) = (s, again) \<Longrightarrow>
    loop_run os sk efd counter config y0
      (y\<lparr>lp_place := (if again then AtDrainWakeup else AtShutdown True), lp_sockets := s\<rparr>)"
| serve: "loop_run os sk efd counter config y0 y \<Longrightarrow> lp_place y = AtServe \<Longrightarrow>
    turn_after_poll sk False listener_events clients (lp_shared y) (lp_gateway y) (lp_sockets y) = Some (s, Done (sh, g)) \<Longrightarrow>
    loop_run os sk efd counter config y0
      (y\<lparr>lp_place := AtShutdown False, lp_shared := sh, lp_gateway := g, lp_sockets := s,
        lp_owed := (if gw_listener (lp_gateway y) \<ge> 0 \<and> poll_error listener_events then lp_owed y + 1 else lp_owed y)\<rparr>)"
| worker_moves: "loop_run os sk efd counter config y0 y \<Longrightarrow>
    worker_step os config faults no_batch no_memory (lp_worker_place y) (lp_worker y) (lp_shared y) (lp_files y) =
      Some (fs, Done (pl, w, sh)) \<Longrightarrow>
    loop_run os sk efd counter config y0
      (y\<lparr>lp_worker_place := pl, lp_worker := w, lp_shared := sh, lp_files := fs,
        lp_owed := lp_owed y + wakes (lp_worker_place y) pl\<rparr>)"
| stop: "loop_run os sk efd counter config y0 y \<Longrightarrow>
    loop_run os sk efd counter config y0 (y\<lparr>lp_shared := request_stop (lp_shared y), lp_owed := lp_owed y + 1\<rparr>)"
| signal: "loop_run os sk efd counter config y0 y \<Longrightarrow> 0 < lp_owed y \<Longrightarrow>
    wake_once efd (lp_sockets y) = (s, again) \<Longrightarrow>
    loop_run os sk efd counter config y0 (y\<lparr>lp_sockets := s, lp_owed := (if again then lp_owed y else lp_owed y - 1)\<rparr>)"

section \<open>No wake-up is lost\<close>

text \<open>What the loop has looked at, and found nothing to do about, at each place.\<close>

fun unseen :: "loop_place \<Rightarrow> Shared \<Rightarrow> Gateway \<Rightarrow> bool" where
  "unseen (AtCompletions woken) sh g \<longleftrightarrow> sh_stop_requested sh \<and> \<not> gw_shutdown_started g"
| "unseen (AtPending woken) sh g \<longleftrightarrow> sh_stop_requested sh \<and> \<not> gw_shutdown_started g \<or> bq_items (sh_responses sh) \<noteq> []"
| "unseen AtCheck sh g \<longleftrightarrow> sh_stop_requested sh \<and> \<not> gw_shutdown_started g \<or> bq_items (sh_responses sh) \<noteq> []"
| "unseen AtPoll sh g \<longleftrightarrow>
     sh_stop_requested sh \<and> \<not> gw_shutdown_started g \<or> bq_items (sh_responses sh) \<noteq> [] \<or> shutdown_complete sh g"
| "unseen _ sh g \<longleftrightarrow> False"

lemma unseen_cong:
  assumes "sh_stop_requested sh' = sh_stop_requested sh" "sh_responses sh' = sh_responses sh"
    "gw_shutdown_started g' = gw_shutdown_started g"
  shows "unseen pl sh' g' = unseen pl sh g"
  using assms by (cases pl) (simp_all add: shutdown_complete_def)

lemma admit_same:
  "admit sh g cid m = Done (sh', ok) \<Longrightarrow> sh_stop_requested sh' = sh_stop_requested sh \<and> sh_responses sh' = sh_responses sh"
  by (auto simp: admit_def Let_def obind_eq_Done split: if_splits prod.splits option.splits bool.splits)

lemma drain_pending_loop_same:
  "drain_pending_loop sh g ps = Done (sh', g') \<Longrightarrow>
   sh_stop_requested sh' = sh_stop_requested sh \<and> sh_responses sh' = sh_responses sh \<and>
   gw_shutdown_started g' = gw_shutdown_started g"
proof (induction ps arbitrary: sh)
  case (Cons p ps)
  from Cons.prems show ?case
    by (auto simp: obind_eq_Done split: option.splits if_splits dest!: admit_same Cons.IH)
qed auto

lemma drain_pending_same:
  "drain_pending_requests sh g = Done (sh', g') \<Longrightarrow>
   sh_stop_requested sh' = sh_stop_requested sh \<and> sh_responses sh' = sh_responses sh \<and>
   gw_shutdown_started g' = gw_shutdown_started g"
  by (auto simp: drain_pending_requests_def split: if_splits dest!: drain_pending_loop_same)

lemma update_connection_shutdown [simp]: "gw_shutdown_started (update_connection fd f g) = gw_shutdown_started g"
  by (simp add: update_connection_def)

lemma deliver_completion_shutdown: "gw_shutdown_started (deliver_completion response g) = gw_shutdown_started g"
  by (simp add: deliver_completion_def queue_response_def split: option.split)

lemma drain_completion_same:
  assumes "drain_completions_loop sh g [c] = Done (sh', g')"
  shows "sh_stop_requested sh' = sh_stop_requested sh" "gw_shutdown_started g' = gw_shutdown_started g"
  using assms by (auto simp: Let_def obind_eq_Done deliver_completion_shutdown)

text \<open>A step of the worker that gives the gateway something to do wakes it.\<close>

lemma publish_one_flags: "publish_one p sh = Done sh' \<Longrightarrow> sh_stop_requested sh' = sh_stop_requested sh"
  by (auto simp: publish_one_def publish_def obind_eq_Done try_push_def split: if_splits)

lemma execute_for_batch_flags:
  assumes "execute_for_batch os faults no_memory batch failed w sh s = Some (s', Done (w', sh', failed', ps))"
  shows "sh_responses sh' = sh_responses sh \<and> (sh_stop_requested sh' = sh_stop_requested sh \<or> failed' \<and> \<not> failed)"
proof (cases "failed \<or> no_memory")
  case True
  with assms show ?thesis by (auto simp: execute_for_batch_def enter_fail_stop_def request_stop_def split: if_splits)
next
  case False
  with assms obtain s1 e1 res where
    "execute_batch os faults (wk_engine w) (map (to_journal_command \<circ> adm_request) batch) s = Some (s1, e1, res)"
    by (auto simp: execute_for_batch_def bind_eq_Some_conv)
  with assms False show ?thesis
    by (cases res) (auto simp: execute_for_batch_def enter_fail_stop_def request_stop_def Let_def split: if_splits)
qed

lemma worker_step_wakes:
  assumes "worker_step os config faults no_batch no_memory pl w sh s = Some (s', Done (pl', w', sh'))"
  shows "sh_responses sh' = sh_responses sh \<and> sh_stop_requested sh' = sh_stop_requested sh \<or> 0 < wakes pl pl'"
proof (cases pl)
  case (AtHead failed)
  with assms show ?thesis
    by (auto simp: Let_def obind_eq_Done split: if_splits option.splits prod.splits)
next
  case (Collecting batch failed)
  with assms show ?thesis
    by (auto simp: bind_eq_Some_conv obind_eq_Done split: prod.splits option.splits outcome.splits dest!: execute_for_batch_flags)
next
  case (Publishing ps failed)
  with assms show ?thesis by (cases ps) auto
next
  case AtHandler
  with assms show ?thesis by (auto split: option.splits prod.splits)
qed (use assms in auto)

lemma loop_run_signalled:
  assumes law: "eventfd_law efd counter pauses" and run: "loop_run os sk efd counter config y0 y"
  shows "unseen (lp_place y) (lp_shared y) (lp_gateway y) \<longrightarrow> 0 < counter (lp_sockets y) + lp_owed y"
  using run
proof (induction rule: loop_run.induct)
  case (shutdown y woken s sh g)
  then show ?case by (auto simp: begin_shutdown_if_requested_def Let_def split: if_splits)
next
  case (completion y woken c cs sh g)
  then show ?case by (auto simp: drain_completion_same)
next
  case (retained y woken sh g)
  then show ?case by (auto dest!: drain_pending_same)
next
  case (worker_moves y faults no_batch no_memory fs pl w sh)
  then show ?case using worker_step_wakes [OF worker_moves(2)] unseen_cong [of sh "lp_shared y"] by auto
next
  case (signal y s again)
  then show ?case using wake_once_effect [OF law signal(3)] by (auto split: if_splits)
qed auto

section \<open>Properties\<close>

text \<open>
  C10. No wake-up is lost: the event loop never sleeps on work. In every interleaving of the event loop
  with the worker and with threads that request a stop, whenever the loop is in \<open>poll\<close> with the eventfd
  not readable and nobody about to write to it, no response is waiting in the queue, a requested stop
  has been acted upon, and the shutdown is not complete, so that sleeping without a timeout is right.
\<close>

theorem gateway_never_sleeps_on_work:
  assumes "eventfd_law efd counter pauses" and "loop_run os sk efd counter config y0 y"
    and "lp_place y = AtPoll" "counter (lp_sockets y) = 0" "lp_owed y = 0"
  shows "bq_items (sh_responses (lp_shared y)) = [] \<and>
    (if sh_stop_requested (lp_shared y) then gw_shutdown_started (lp_gateway y) else True) \<and>
    \<not> shutdown_complete (lp_shared y) (lp_gateway y)"
  using loop_run_signalled [OF assms(1,2)] assms(3-5) by auto

text \<open>An eventfd as its counter with the number of interruptions to come, and sockets on which nothing happens.\<close>

definition sample_eventfd :: "(nat \<times> nat) eventfd" where
  "sample_eventfd =
     \<lparr>efd_write = (\<lambda>(n, k). if 0 < k then ((n, k - 1), Inl EINTR) else ((n + 1, k), Inr 8)),
      efd_read = (\<lambda>(n, k). if 0 < k then ((n, k - 1), Inl EINTR) else if n = 0 then ((n, k), Inl EAGAIN) else ((0, k), Inr 8))\<rparr>"

definition idle_sockets :: "'t sockets" where
  "idle_sockets =
     \<lparr>sk_recv = (\<lambda>fd count s. (s, Inl EAGAIN)), sk_send = (\<lambda>fd bytes s. (s, Inr (length bytes))), sk_accept = (\<lambda>fd s. (s, Inl EAGAIN)),
      sk_close = (\<lambda>fd s. s), sk_getfl = (\<lambda>fd s. Inr 0), sk_setfl = (\<lambda>fd flags s. (s, None)),
      sk_getfd = (\<lambda>fd s. Inr 0), sk_setfd = (\<lambda>fd flags s. (s, None)), sk_inet_pton = (\<lambda>address. None),
      sk_socket = (\<lambda>s. (s, Inr 3)), sk_reuse_address = (\<lambda>fd s. (s, None)), sk_bind = (\<lambda>fd address port s. (s, None)),
      sk_listen = (\<lambda>fd backlog s. (s, None)), sk_getsockname = (\<lambda>fd s. Inr 0), sk_eventfd = (\<lambda>s. (s, Inr 4))\<rparr>"

definition sample_loop :: "loop_place \<Rightarrow> (memory, nat \<times> nat) loop_state" where
  "sample_loop pl =
     \<lparr>lp_place = pl, lp_shared = new_shared (sample_config 2), lp_gateway = new_gateway (exc_gateway (sample_config 2)) 3 4 0,
      lp_sockets = (0, 5), lp_owed = 0, lp_worker_place = AtHead False, lp_worker = new_worker (sample_config 2) sample_engine,
      lp_files = sample_files\<rparr>"

lemma sample_loop_sleeps:
  "loop_run mem_os idle_sockets sample_eventfd fst (sample_config 2) (sample_loop (AtShutdown False)) (sample_loop AtPoll)"
proof -
  let ?run = "loop_run mem_os idle_sockets sample_eventfd fst (sample_config 2) (sample_loop (AtShutdown False))"
  have start: "?run (sample_loop (AtShutdown False))" by (rule loop_started) (simp add: sample_loop_def)
  have "?run (sample_loop (AtCompletions False))"
    using shutdown [OF start, of False "(0, 5)" "new_shared (sample_config 2)" "new_gateway (exc_gateway (sample_config 2)) 3 4 0"]
    by (simp add: sample_loop_def begin_shutdown_if_requested_def new_shared_def)
  from completions_done [OF this, of False] have "?run (sample_loop (AtPending False))"
    by (simp add: sample_loop_def new_shared_def new_queue_def)
  from retained [OF this, of False "new_shared (sample_config 2)" "new_gateway (exc_gateway (sample_config 2)) 3 4 0"]
  have "?run (sample_loop AtCheck)"
    by (simp add: sample_loop_def drain_pending_requests_def new_shared_def new_gateway_def)
  from check [OF this] show ?thesis by (simp add: sample_loop_def shutdown_complete_def new_gateway_def)
qed

theorem gateway_never_sleeps_on_work_witness:
  "loop_run mem_os idle_sockets sample_eventfd fst (sample_config 2) (sample_loop (AtShutdown False)) (sample_loop AtPoll) \<and>
   \<not> shutdown_complete (lp_shared (sample_loop AtPoll)) (lp_gateway (sample_loop AtPoll))"
proof -
  have "eventfd_law sample_eventfd fst snd" by (auto simp: eventfd_law_def sample_eventfd_def split: if_splits)
  from gateway_never_sleeps_on_work [OF this sample_loop_sleeps] sample_loop_sleeps show ?thesis by (simp add: sample_loop_def)
qed

end
