(* ===== verification/Exchange_Shutdown.thy ===== *)
theory Exchange_Shutdown
  imports Gateway_Wakeup
begin

text \<open>
  The shutdown of an exchange server: once the gateway has begun it, the two threads come to an end
  whatever the order of their steps, and leave nothing behind.
\<close>

section \<open>Steps\<close>

text \<open>One step of either thread. Repeated requests to stop change nothing and are left out.\<close>

inductive system_step :: "'s posix \<Rightarrow> ExchangeServerConfig \<Rightarrow> 's system \<Rightarrow> 's system \<Rightarrow> bool" for os config where
  step_worker: "worker_step os config faults no_batch no_memory (sys_place y) (sys_worker y) (sys_shared y) (sys_os y) =
      Some (s', Done (pl, w, sh)) \<Longrightarrow>
    system_step os config y (after_worker y no_batch pl w sh s')"
| step_gateway: "gateway_step action (sys_gateway y) (sys_shutdown y) (sys_shared y) = Some (Done (gp, shutdown, sh)) \<Longrightarrow>
    action \<noteq> RequestStop \<Longrightarrow> system_step os config y (after_gateway y action gp shutdown sh)"

lemma system_step_run:
  "exchange_run os config e s y \<Longrightarrow> system_step os config y y' \<Longrightarrow> exchange_run os config e s y'"
  by (auto elim!: system_step.cases intro: exchange_run.worker exchange_run.gateway)

lemma system_steps_run:
  "(system_step os config ^^ k) y y' \<Longrightarrow> exchange_run os config e s y \<Longrightarrow> exchange_run os config e s y'"
  by (induction k arbitrary: y') (auto intro: system_step_run)

text \<open>A shutdown that has begun has closed the request queue, and is not taken back.\<close>

lemma shutdown_closed: "exchange_run os config e s y \<Longrightarrow> sys_shutdown y \<Longrightarrow> bq_closed (sh_requests (sys_shared y))"
proof (induction rule: exchange_run.induct)
  case (worker y faults no_batch no_memory s' pl w sh)
  then show ?case using worker_step_work [OF worker(2)] by (simp add: after_worker_def)
next
  case (gateway y action gp shutdown sh)
  then show ?case
    by (cases action; cases "sys_gateway y")
       (auto simp: after_gateway_def obind_eq_Done request_stop_def close_def try_push_def split: if_splits prod.splits option.splits)
qed simp

lemma system_step_shutdown: "system_step os config y y' \<Longrightarrow> sys_shutdown y \<Longrightarrow> sys_shutdown y'"
proof (induction rule: system_step.induct)
  case (step_gateway action y gp shutdown sh)
  then show ?case
    by (cases action; cases "sys_gateway y")
       (auto simp: after_gateway_def obind_eq_Done split: if_splits prod.splits option.splits bool.splits)
qed (simp add: after_worker_def)

section \<open>A measure\<close>

fun gateway_work :: "gateway_place \<Rightarrow> nat" where
  "gateway_work Free = 0"
| "gateway_work (Holding a) = 1"
| "gateway_work (Releasing c) = 1"

text \<open>A bound on the steps that are left: a response that is still to be published costs two steps of the gateway.\<close>

definition shutdown_work :: "'s system \<Rightarrow> nat" where
  "shutdown_work y =
     3 * work (sys_place y) (sys_shared y) + 2 * length (bq_items (sh_responses (sys_shared y))) + gateway_work (sys_gateway y)"

lemma publish_one_responses:
  "publish_one p sh = Done sh' \<Longrightarrow> length (bq_items (sh_responses sh')) = Suc (length (bq_items (sh_responses sh)))"
  by (auto simp: publish_one_def publish_def obind_eq_Done try_push_def split: if_splits)

lemma worker_step_responses:
  assumes "worker_step os config faults no_batch no_memory pl w sh s = Some (s', Done (pl', w', sh'))"
  shows "length (bq_items (sh_responses sh')) \<le> Suc (length (bq_items (sh_responses sh)))"
proof (cases pl)
  case (AtHead failed)
  with assms show ?thesis
    by (auto simp: Let_def obind_eq_Done enter_fail_stop_def request_stop_def split: if_splits option.splits prod.splits)
next
  case (Collecting batch failed)
  with assms show ?thesis
    by (auto simp: bind_eq_Some_conv obind_eq_Done split: prod.splits option.splits outcome.splits dest!: execute_for_batch_flags)
next
  case (Publishing ps failed)
  with assms show ?thesis by (cases ps) (auto simp: obind_eq_Done dest!: publish_one_responses)
next
  case AtHandler
  with assms show ?thesis by (auto split: option.splits prod.splits)
next
  case (HandlerPublishing p)
  with assms show ?thesis by (auto simp: obind_eq_Done dest!: publish_one_responses)
qed (use assms in \<open>auto simp: close_def\<close>)

lemma shutdown_work_decreases:
  assumes "exchange_run os config e s y" "sys_shutdown y" "system_step os config y y'"
  shows "shutdown_work y' < shutdown_work y"
  using assms(3)
proof cases
  case (step_worker faults no_batch no_memory s' pl w sh)
  from worker_step_work [OF step_worker(2)] worker_step_responses [OF step_worker(2)] show ?thesis
    by (simp add: step_worker(1) shutdown_work_def after_worker_def)
next
  case (step_gateway action gp shutdown sh)
  from shutdown_closed [OF assms(1,2)] step_gateway(2,3) assms(2) show ?thesis
    by (cases action; cases "sys_gateway y")
       (auto simp: step_gateway(1) shutdown_work_def after_gateway_def work_def obind_eq_Done try_push_def try_pop_def
         split: if_splits prod.splits option.splits list.splits)
qed

lemma shutdown_steps_bounded:
  assumes "exchange_run os config e s y" "sys_shutdown y" "(system_step os config ^^ k) y y'"
  shows "k + shutdown_work y' \<le> shutdown_work y \<and> sys_shutdown y'"
  using assms(3)
proof (induction k arbitrary: y')
  case (Suc k)
  then obtain z where z: "(system_step os config ^^ k) y z" "system_step os config z y'" by auto
  from Suc.IH [OF z(1)] shutdown_work_decreases [OF system_steps_run [OF z(1) assms(1)] _ z(2)] system_step_shutdown [OF z(2)]
  show ?case by simp
qed (use assms(2) in simp)

section \<open>Where the threads can stop\<close>

lemma stuck_is_finished:
  assumes laws: "posix_laws os V" "histogram_fits config" and ok: "system_ok V path config y"
    and closed: "bq_closed (sh_requests (sys_shared y))" and stuck: "\<And>z. \<not> system_step os config y z"
  shows "sys_place y = Returned \<and> sys_gateway y = Free \<and> bq_items (sh_responses (sys_shared y)) = []"
proof -
  have place: "sys_place y = Returned"
  proof (rule ccontr)
    assume "sys_place y \<noteq> Returned"
    moreover have "engine_sound V path (wk_engine (sys_worker y)) (sys_os y)" using ok by (simp add: system_ok_def)
    ultimately obtain s' r where
      w: "worker_step os config no_engine_faults False False (sys_place y) (sys_worker y) (sys_shared y) (sys_os y) = Some (s', r)"
      using worker_step_enabled [OF laws(1)] closed by blast
    with worker_step_ok [OF laws ok w] show False using step_worker stuck by (fastforce simp: worker_safe_def)
  qed
  have idle: "gateway_step action (sys_gateway y) (sys_shutdown y) (sys_shared y) = None" if "action \<noteq> RequestStop" for action
  proof (rule ccontr)
    assume "gateway_step action (sys_gateway y) (sys_shutdown y) (sys_shared y) \<noteq> None"
    then obtain r where g: "gateway_step action (sys_gateway y) (sys_shutdown y) (sys_shared y) = Some r" by blast
    from gateway_step_ok [OF ok g] show False using step_gateway g that stuck by (fastforce simp: gateway_safe_def)
  qed
  have "sys_gateway y = Free"
    using idle [of PushRequest] idle [of ReleaseSlot] by (cases "sys_gateway y") (auto split: prod.splits bool.splits)
  moreover from this have "bq_items (sh_responses (sys_shared y)) = []"
    using idle [of TakeResponse] by (auto simp: try_pop_def split: list.splits)
  ultimately show ?thesis using place by simp
qed

text \<open>What is left then: no request anywhere, no slot in use, and as many answers as admitted requests.\<close>

definition finished :: "'s system \<Rightarrow> bool" where
  "finished y \<longleftrightarrow>
     sys_place y = Returned \<and> sys_gateway y = Free \<and> bq_items (sh_requests (sys_shared y)) = [] \<and>
     bq_items (sh_responses (sys_shared y)) = [] \<and> bq_closed (sh_responses (sys_shared y)) \<and>
     lim_in_flight (sh_limiter (sys_shared y)) = 0 \<and>
     length (sys_answered y) + length (sys_dropped y) = length (sys_admitted y)"

lemma finishedI:
  assumes ok: "system_ok V path config y"
    and stop: "sys_place y = Returned" "sys_gateway y = Free" "bq_items (sh_responses (sys_shared y)) = []"
  shows "finished y"
proof -
  from ok stop have q: "bq_items (sh_requests (sys_shared y)) = []" "bq_closed (sh_responses (sys_shared y))"
    by (auto simp: system_ok_def queues_ok_def)
  from ok stop q have "lim_in_flight (sh_limiter (sys_shared y)) = 0" by (simp add: system_ok_def slots_ok_def slots_def)
  moreover from ok have "history_ok y" by (simp add: system_ok_def)
  then obtain before after where
    "map request_key (sys_admitted y) = before @ map request_key (sys_dropped y) @ after"
    "before @ after = map response_key (sys_answered y) @ under_way (sys_place y) (sys_shared y)"
    unfolding history_ok_def by (elim exE conjE) (rule that)
  then have "length (sys_answered y) + length (sys_dropped y) = length (sys_admitted y)"
    using stop q by (simp add: under_way_def) (metis add.commute add.left_commute length_append length_map)
  ultimately show ?thesis using stop q by (simp add: finished_def)
qed

section \<open>Properties\<close>



end
