(* ===== verification/Exchange_Lifecycle.thy ===== *)
theory Exchange_Lifecycle
  imports Exchange_Shutdown
begin

text \<open>
  The life of an exchange server as its owner sees it: starting the worker thread, stopping, joining,
  the accessors, and the destructor, which has to bring a worker that is still at work to its end.
\<close>

section \<open>The server\<close>

text \<open>
  \<open>xi_thread\<close> is \<open>None\<close> when the thread object is not joinable, and otherwise tells where the thread
  stands. The engine and the statistics are in \<open>xi_worker\<close>, the queues and the limiter in \<open>xi_shared\<close>.
\<close>

record ExchangeImpl =
  xi_config :: ExchangeServerConfig
  xi_shared :: Shared
  xi_worker :: Worker
  xi_gateway :: "Gateway option"
  xi_thread :: "worker_place option"
  xi_worker_started :: bool

type_synonym ExchangeServer = "ExchangeImpl option"

definition new_impl :: "ExchangeServerConfig \<Rightarrow> DurableEngine \<Rightarrow> ExchangeImpl" where
  "new_impl config e =
     \<lparr>xi_config = config, xi_shared = new_shared config, xi_worker = new_worker config e, xi_gateway = None,
      xi_thread = None, xi_worker_started = False\<rparr>"

section \<open>Starting, stopping and joining\<close>

text \<open>The first part of \<open>run\<close>, up to the call of the event loop; \<open>None\<close> means that \<open>run\<close> returns at once.\<close>

definition run_begin :: "ExchangeImpl \<Rightarrow> ExchangeImpl option" where
  "run_begin x =
     (if xi_worker_started x \<or> xi_gateway x = None then None
      else Some (x\<lparr>xi_worker_started := True, xi_thread := Some (AtHead False)\<rparr>))"

definition impl_request_stop :: "'t eventfd \<Rightarrow> ExchangeImpl \<Rightarrow> 't \<Rightarrow> ('t \<times> ExchangeImpl) option" where
  "impl_request_stop efd x t =
     (case xi_gateway x of
        None \<Rightarrow> Some (t, x)
      | Some g \<Rightarrow> Option.bind (wake efd t) (\<lambda>t. Some (t, x\<lparr>xi_shared := request_stop (xi_shared x)\<rparr>)))"

text \<open>
  Joining, if there is something to join: the caller waits, so that only the worker moves. What may
  fail in each of its steps is given by \<open>failing\<close>. The value is \<open>None\<close> if the worker does not return.
\<close>

partial_function (option) join_worker ::
  "'s posix \<Rightarrow> (nat \<Rightarrow> engine_faults \<times> bool \<times> bool) \<Rightarrow> ExchangeImpl \<Rightarrow> 's \<Rightarrow> ('s \<times> ExchangeImpl) option" where
  "join_worker os failing x s =
     (case xi_thread x of
        None \<Rightarrow> Some (s, x)
      | Some place_now \<Rightarrow>
          (if place_now = Returned then Some (s, x\<lparr>xi_thread := None\<rparr>)
           else case failing 0 of (faults, no_batch, no_memory) \<Rightarrow>
             case worker_step os (xi_config x) faults no_batch no_memory place_now (xi_worker x) (xi_shared x) s of
               None \<Rightarrow> None
             | Some (s, r) \<Rightarrow>
                 (case r of
                    Done (pl, w, sh) \<Rightarrow>
                      join_worker os (\<lambda>i. failing (Suc i)) (x\<lparr>xi_thread := Some pl, xi_worker := w, xi_shared := sh\<rparr>) s
                  | Throws \<Rightarrow> None | Terminates \<Rightarrow> None | Undefined \<Rightarrow> None)))"

section \<open>The destructor\<close>

fun destroy_slots :: "InFlightReservation list \<Rightarrow> InFlightLimiter \<Rightarrow> InFlightLimiter outcome" where
  "destroy_slots [] l = Done l"
| "destroy_slots (r # rs) l = obind (reservation_destroy r l) (destroy_slots rs)"

text \<open>
  The members are destroyed in the reverse order of their declaration: gateway, engine, responses,
  requests; what is still in the queues gives its slots back to the limiter, which is last.
\<close>

definition destroy_members ::
  "'s posix \<Rightarrow> 't sockets \<Rightarrow> ExchangeImpl \<Rightarrow> 's \<Rightarrow> 't \<Rightarrow> 's \<times> 't \<times> InFlightLimiter outcome" where
  "destroy_members os sk x s t =
     (let t = (case xi_gateway x of None \<Rightarrow> t | Some g \<Rightarrow> gateway_destroy sk g t);
          s = writer_destroy os (eng_writer (wk_engine (xi_worker x))) s
      in (s, t, obind (destroy_slots (map cmp_completion (bq_items (sh_responses (xi_shared x)))) (sh_limiter (xi_shared x)))
                  (destroy_slots (map adm_completion (bq_items (sh_requests (xi_shared x)))))))"

definition impl_destroy ::
  "'s posix \<Rightarrow> 't sockets \<Rightarrow> 't eventfd \<Rightarrow> (nat \<Rightarrow> engine_faults \<times> bool \<times> bool) \<Rightarrow> ExchangeImpl \<Rightarrow> 's \<Rightarrow> 't \<Rightarrow>
   ('s \<times> 't \<times> InFlightLimiter outcome) option" where
  "impl_destroy os sk efd failing x s t =
     (let x = x\<lparr>xi_shared := (xi_shared x)\<lparr>sh_requests := close (sh_requests (xi_shared x))\<rparr>\<rparr>
      in Option.bind (impl_request_stop efd x t) (\<lambda>(t, x).
         Option.bind (join_worker os failing x s) (\<lambda>(s, x).
         Some (destroy_members os sk x s t))))"

section \<open>The public members\<close>

definition exchange_local_port :: "ExchangeServer \<Rightarrow> u16" where
  "exchange_local_port server =
     (case server of None \<Rightarrow> 0 | Some x \<Rightarrow> (case xi_gateway x of None \<Rightarrow> 0 | Some g \<Rightarrow> gw_port g))"

definition exchange_in_flight :: "ExchangeServer \<Rightarrow> nat" where
  "exchange_in_flight server = (case server of None \<Rightarrow> 0 | Some x \<Rightarrow> lim_in_flight (sh_limiter (xi_shared x)))"

definition exchange_maximum_observed_in_flight :: "ExchangeServer \<Rightarrow> nat" where
  "exchange_maximum_observed_in_flight server =
     (case server of None \<Rightarrow> 0 | Some x \<Rightarrow> lim_maximum_observed (sh_limiter (xi_shared x)))"

definition exchange_request_stop :: "'t eventfd \<Rightarrow> ExchangeServer \<Rightarrow> 't \<Rightarrow> ('t \<times> ExchangeServer) option" where
  "exchange_request_stop efd server t =
     (case server of
        None \<Rightarrow> Some (t, None)
      | Some x \<Rightarrow> Option.bind (impl_request_stop efd x t) (\<lambda>(t, x). Some (t, Some x)))"

record ExchangeServerRuntimeStats =
  rst_in_flight :: nat
  rst_maximum_observed_in_flight :: nat
  rst_request_queue_size :: nat
  rst_request_queue_capacity :: nat
  rst_response_queue_size :: nat
  rst_response_queue_capacity :: nat

record ExchangeBatchStats =
  bst_commands_processed :: u64
  bst_batches_processed :: u64
  bst_batch_size_histogram :: "u64 list"

definition exchange_stats :: "ExchangeServer \<Rightarrow> ExchangeServerRuntimeStats" where
  "exchange_stats server =
     (case server of
        None \<Rightarrow>
          \<lparr>rst_in_flight = 0, rst_maximum_observed_in_flight = 0, rst_request_queue_size = 0, rst_request_queue_capacity = 0,
           rst_response_queue_size = 0, rst_response_queue_capacity = 0\<rparr>
      | Some x \<Rightarrow>
          \<lparr>rst_in_flight = lim_in_flight (sh_limiter (xi_shared x)),
           rst_maximum_observed_in_flight = lim_maximum_observed (sh_limiter (xi_shared x)),
           rst_request_queue_size = queue_size (sh_requests (xi_shared x)),
           rst_request_queue_capacity = bq_capacity (sh_requests (xi_shared x)),
           rst_response_queue_size = queue_size (sh_responses (xi_shared x)),
           rst_response_queue_capacity = bq_capacity (sh_responses (xi_shared x))\<rparr>)"

definition exchange_batch_stats :: "ExchangeServer \<Rightarrow> ExchangeBatchStats" where
  "exchange_batch_stats server =
     (case server of
        None \<Rightarrow> \<lparr>bst_commands_processed = 0, bst_batches_processed = 0, bst_batch_size_histogram = []\<rparr>
      | Some x \<Rightarrow>
          \<lparr>bst_commands_processed = wk_commands_processed (xi_worker x), bst_batches_processed = wk_batches_processed (xi_worker x),
           bst_batch_size_histogram = wk_batch_size_histogram (xi_worker x)\<rparr>)"

section \<open>A server while it runs\<close>

text \<open>The server that a state of the two threads belongs to, seen while \<open>run\<close> has the gateway \<open>g\<close>.\<close>

definition running :: "ExchangeServerConfig \<Rightarrow> Gateway \<Rightarrow> 's system \<Rightarrow> ExchangeImpl" where
  "running config g y =
     \<lparr>xi_config = config, xi_shared = sys_shared y, xi_worker = sys_worker y, xi_gateway = Some g,
      xi_thread = Some (sys_place y), xi_worker_started = True\<rparr>"

text \<open>\<open>run\<close> leads from a new server with its gateway to the first state of the two threads, and only once.\<close>

lemma run_begin_starts:
  assumes "run_begin ((new_impl config e)\<lparr>xi_gateway := Some g\<rparr>) = Some x"
  shows "\<exists>y. exchange_run os config e s y \<and> sys_os y = s \<and> x = running config g y \<and> run_begin x = None"
  by (rule exI, rule conjI, rule exchange_run.started) (use assms in \<open>auto simp: run_begin_def new_impl_def running_def\<close>)

text \<open>What the statistics show of a running server.\<close>

lemma running_stats:
  assumes "posix_laws os V" "histogram_fits config" "engine_sound V path e s" "exchange_run os config e s y"
  shows "let stats = exchange_stats (Some (running config g y))
    in rst_in_flight stats \<le> exc_maximum_in_flight config \<and> rst_request_queue_size stats \<le> rst_request_queue_capacity stats \<and>
      rst_request_queue_size stats + rst_response_queue_size stats \<le> rst_in_flight stats \<and>
      rst_response_queue_size stats \<le> rst_response_queue_capacity stats"
  using exchange_run_ok [OF assms(4,1,2,3)]
  by (auto simp: exchange_stats_def running_def queue_size_def system_ok_def slots_ok_def slots_def queues_ok_def Let_def)

section \<open>The destructor returns\<close>

lemma join_follows_iterate:
  assumes "worker_iterate os config failing n y = Some y'" "sys_place y' = Returned"
    "xi_config x = config" "xi_thread x = Some (sys_place y)" "xi_worker x = sys_worker y" "xi_shared x = sys_shared y"
  shows "join_worker os failing x (sys_os y) =
    Some (sys_os y', x\<lparr>xi_thread := None, xi_worker := sys_worker y', xi_shared := sys_shared y'\<rparr>)"
  using assms
proof (induction n arbitrary: failing y x)
  case 0
  then show ?case by (subst join_worker.simps) simp
next
  case (Suc n)
  obtain faults no_batch no_memory where f: "failing 0 = (faults, no_batch, no_memory)" by (rule prod_cases3)
  from Suc.prems(1) obtain s1 pl w sh where
    step: "worker_step os config faults no_batch no_memory (sys_place y) (sys_worker y) (sys_shared y) (sys_os y) = Some (s1, Done (pl, w, sh))"
    and rest: "worker_iterate os config (\<lambda>i. failing (Suc i)) n (after_worker y no_batch pl w sh s1) = Some y'"
    by (auto simp: f split: option.splits prod.splits outcome.splits)
  from step have "sys_place y \<noteq> Returned" by auto
  with Suc.IH [OF rest Suc.prems(2), of "x\<lparr>xi_thread := Some pl, xi_worker := w, xi_shared := sh\<rparr>"] step Suc.prems(3-6)
  show ?case by (subst join_worker.simps) (simp add: f after_worker_def)
qed

lemma worker_iterate_gateway: "worker_iterate os config failing n y = Some y' \<Longrightarrow> sys_gateway y' = sys_gateway y"
  by (induction n arbitrary: failing y)
     (auto simp: after_worker_def split: option.splits prod.splits outcome.splits)

lemma destroy_slots_release:
  assumes "\<forall>r \<in> set rs. owner r" "lim_in_flight l = length rs + k"
  shows "\<exists>l'. destroy_slots rs l = Done l' \<and> lim_in_flight l' = k"
  using assms
  by (induction rs arbitrary: l) (simp_all add: reservation_destroy_def reservation_release_def release_one_def)

lemma close_requests_ok:
  assumes "system_ok V path config y"
  shows "system_ok V path config
    (y\<lparr>sys_shared := request_stop ((sys_shared y)\<lparr>sh_requests := close (sh_requests (sys_shared y))\<rparr>)\<rparr>)"
  using assms
  by (auto simp: system_ok_def slots_ok_def slots_def queues_ok_def history_ok_def under_way_def request_stop_def close_def)

text \<open>What is left once the worker has returned and the gateway is gone: slots in the response queue.\<close>

lemma members_release:
  assumes "system_ok V path config y" "sys_place y = Returned" "sys_gateway y = Free" "xi_shared x = sys_shared y"
  shows "\<exists>s' t' l. destroy_members os sk x s t = (s', t', Done l) \<and> lim_in_flight l = 0"
proof -
  have q: "bq_items (sh_requests (sys_shared y)) = []" using assms by (simp add: system_ok_def queues_ok_def)
  with assms destroy_slots_release [of "map cmp_completion (bq_items (sh_responses (sys_shared y)))" "sh_limiter (sys_shared y)" 0]
  show ?thesis by (auto simp: destroy_members_def system_ok_def slots_ok_def slots_def)
qed



end
