(* ===== verification/Gateway_Admission.thy ===== *)
theory Gateway_Admission
  imports Gateway_Server
begin

text \<open>
  Admission of requests by the gateway: the messages of a connection enter the request queue in the
  order in which its bytes arrive, however the bytes are cut and whenever admission is refused; what is
  refused is retained and admitted later, still in order, and never overflows the list it is kept in.
\<close>

section \<open>Admitting one request\<close>

definition admitted_request :: "ConnectionId \<Rightarrow> ClientMessage WireEnvelope \<Rightarrow> AdmittedEngineRequest" where
  "admitted_request cid m = \<lparr>adm_request = to_engine_request cid m, adm_completion = InFlightReservation True\<rparr>"

definition pending_request :: "ConnectionId \<Rightarrow> ClientMessage WireEnvelope \<Rightarrow> PendingRequest" where
  "pending_request cid m = \<lparr>pen_connection_id = cid, pen_request = m\<rparr>"

text \<open>Admission returns: a slot that has been acquired can be released when the queue refuses the request.\<close>

lemma admit_effect:
  obtains sh' accepted where "admit sh g cid m = Done (sh', accepted)"
    "bq_items (sh_requests sh') = bq_items (sh_requests sh) @ (if accepted then [admitted_request cid m] else [])"
proof (cases "gw_shutdown_started g \<or> sh_engine_failed sh")
  case True
  then show thesis by (intro that [of sh False]) (auto simp: admit_def)
next
  case False
  obtain l r where a: "try_acquire (sh_limiter sh) = (l, r)" by (cases "try_acquire (sh_limiter sh)")
  show thesis
  proof (cases r)
    case None
    with False a show thesis by (intro that [of "sh\<lparr>sh_limiter := l\<rparr>" False]) (auto simp: admit_def)
  next
    case (Some reservation)
    have l: "reservation = InFlightReservation True" "lim_in_flight l \<noteq> 0"
      using a Some by (auto simp: try_acquire_def Let_def split: if_splits)
    obtain q b where p: "try_push (sh_requests sh) (admitted_request cid m) = (q, b)" by (cases "try_push (sh_requests sh) (admitted_request cid m)")
    show thesis
    proof (cases b)
      case True
      have "admit sh g cid m = Done (sh\<lparr>sh_limiter := l, sh_requests := q\<rparr>, True)"
        using False a Some l p True by (auto simp: admit_def Let_def admitted_request_def reservation_move_def)
      moreover have "bq_items q = bq_items (sh_requests sh) @ [admitted_request cid m]"
        using p True by (auto simp: try_push_def split: if_splits)
      ultimately show thesis using that by simp
    next
      case b: False
      have "\<exists>l'. admit sh g cid m = Done (sh\<lparr>sh_limiter := l'\<rparr>, False)"
        using False a Some l p b
        by (auto simp: admit_def Let_def admitted_request_def reservation_move_def reservation_destroy_def reservation_release_def release_one_def)
      then show thesis using that by force
    qed
  qed
qed

section \<open>Admitting the messages of a feed\<close>

lemma fold_retain:
  assumes "length (gw_pending g) + length ms \<le> 4096"
  shows "fold (retain_pending cid) ms g = g\<lparr>gw_pending := gw_pending g @ map (pending_request cid) ms\<rparr>"
  using assms
proof (induction ms arbitrary: g)
  case (Cons m ms)
  then have "retain_pending cid m g = g\<lparr>gw_pending := gw_pending g @ [pending_request cid m]\<rparr>"
    by (simp add: retain_pending_def pending_request_def)
  with Cons show ?case by simp
qed simp

lemma admit_messages_effect:
  assumes "length (gw_pending g) + length ms \<le> 4096"
  obtains sh' g' n where "admit_messages sh g cid ms = Done (sh', g')" "n \<le> length ms"
    "bq_items (sh_requests sh') = bq_items (sh_requests sh) @ map (admitted_request cid) (take n ms)"
    "g' = (if n = length ms then g
           else g\<lparr>gw_pending := gw_pending g @ map (pending_request cid) (drop n ms), gw_reads_paused := True\<rparr>)"
  using assms
proof (induction ms arbitrary: sh thesis)
  case Nil
  from Nil(1) [of sh g 0] show ?case by simp
next
  case (Cons m ms)
  obtain sh1 ok where a: "admit sh g cid m = Done (sh1, ok)"
    "bq_items (sh_requests sh1) = bq_items (sh_requests sh) @ (if ok then [admitted_request cid m] else [])" by (rule admit_effect)
  show ?case
  proof (cases ok)
    case True
    from Cons.prems(2) have "length (gw_pending g) + length ms \<le> 4096" by simp
    from Cons.IH [OF _ this, of sh1] obtain sh' g' n where
      IH: "admit_messages sh1 g cid ms = Done (sh', g')" "n \<le> length ms"
        "bq_items (sh_requests sh') = bq_items (sh_requests sh1) @ map (admitted_request cid) (take n ms)"
        "g' = (if n = length ms then g
               else g\<lparr>gw_pending := gw_pending g @ map (pending_request cid) (drop n ms), gw_reads_paused := True\<rparr>)" by metis
    show ?thesis by (rule Cons.prems(1) [of sh' g' "Suc n"]) (use IH a True in auto)
  next
    case False
    have "fold (retain_pending cid) (m # ms) g = g\<lparr>gw_pending := gw_pending g @ map (pending_request cid) (m # ms)\<rparr>"
      by (rule fold_retain [OF Cons.prems(2)])
    then show ?thesis
      by (intro Cons.prems(1) [of sh1 "g\<lparr>gw_pending := gw_pending g @ map (pending_request cid) (m # ms), gw_reads_paused := True\<rparr>" 0])
         (use a False in simp_all)
  qed
qed

section \<open>Receiving\<close>

text \<open>
  What is relied on of \<open>recv\<close>: it returns at most as many bytes as asked for, the next of the stream,
  and after finitely many calls it has no more to return for now. \<open>received\<close> is all it has returned.
\<close>

definition recv_law :: "'s sockets \<Rightarrow> int \<Rightarrow> ('s \<Rightarrow> byte list) \<Rightarrow> ('s \<Rightarrow> nat) \<Rightarrow> bool" where
  "recv_law sk fd received arriving \<longleftrightarrow> (\<forall>count s s' r. sk_recv sk fd count s = (s', r) \<longrightarrow>
     (case r of
        Inr bytes \<Rightarrow> length bytes \<le> count \<and> received s' = received s @ bytes \<and> (bytes \<noteq> [] \<longrightarrow> arriving s' < arriving s)
      | Inl e \<Rightarrow> received s' = received s \<and> (e = EINTR \<longrightarrow> arriving s' < arriving s)))"

text \<open>A parser between two feeds, with room for the largest frame.\<close>

definition parser_ready :: "ClientStreamParser \<Rightarrow> bool" where
  "parser_ready p \<longleftrightarrow> parser_ok p \<and> parser_failure p = None \<and> 45 \<le> maximum_buffered_bytes p \<and>
     parse_stream (pending p) = ([], None, pending p)"

lemma parse_stream_count: "parse_stream bytes = (ms, e, rest) \<Longrightarrow> 28 * length ms \<le> length bytes"
proof (induction bytes arbitrary: ms rule: parse_stream.induct)
  case (1 bytes)
  show ?case
  proof (cases rule: decode_client_returns [of bytes])
    case (error err)
    with 1(2) show ?thesis by (cases "bytes = []") (auto simp: parse_stream_error)
  next
    case (frame f)
    then have ne: "bytes \<noteq> []" using decode_client_Nil by auto
    from 1(2) frame obtain ms' where ms': "parse_stream (drop (frame_consumed f) bytes) = (ms', e, rest)" "ms = frame_envelope f # ms'"
      by (auto simp: parse_stream_frame split: prod.splits)
    from 1(1) [OF ne frame refl ms'(1)] decode_client_progress [OF frame] ms'(2) show ?thesis by simp
  qed
qed

lemma update_connection_lookup:
  "map_of (gw_connections (update_connection fd f g)) d = map_option (\<lambda>c. if d = fd then f c else c) (map_of (gw_connections g) d)"
proof -
  have "map_of (map (\<lambda>(d, c). (d, if d = fd then f c else c)) cs) d = map_option (\<lambda>c. if d = fd then f c else c) (map_of cs d)" for cs
    by (induction cs) auto
  then show ?thesis by (simp add: update_connection_def)
qed

lemma update_connection_fields [simp]:
  "gw_pending (update_connection fd f g) = gw_pending g" "gw_reads_paused (update_connection fd f g) = gw_reads_paused g"
  "gw_shutdown_started (update_connection fd f g) = gw_shutdown_started g"
  by (simp_all add: update_connection_def)

text \<open>Where the gateway stands after reading the bytes \<open>new\<close> of a connection.\<close>

definition admits_stream ::
  "ClientStreamParser \<Rightarrow> ConnectionId \<Rightarrow> int \<Rightarrow> byte list \<Rightarrow> Shared \<Rightarrow> Shared \<Rightarrow> Gateway \<Rightarrow> bool" where
  "admits_stream p cid fd new sh sh' g' \<longleftrightarrow>
     (\<exists>ms error rest n. parse_stream (pending p @ new) = (ms, error, rest) \<and> n \<le> length ms \<and>
        bq_items (sh_requests sh') = bq_items (sh_requests sh) @ map (admitted_request cid) (take n ms) \<and>
        gw_pending g' = map (pending_request cid) (drop n ms) \<and>
        (n < length ms \<longrightarrow> gw_reads_paused g') \<and>
        (error \<noteq> None \<longrightarrow> (\<exists>c'. map_of (gw_connections g') fd = Some c' \<and> con_closing c')))"

lemma admits_stream_more:
  assumes first: "parse_stream (pending p @ b) = (ms, None, pending p')"
    and items: "bq_items (sh_requests sh1) = bq_items (sh_requests sh) @ map (admitted_request cid) ms"
    and rest: "admits_stream p' cid fd new sh1 sh' g'"
  shows "admits_stream p cid fd (b @ new) sh sh' g'"
proof -
  from rest obtain ms' error r n where
    r: "parse_stream (pending p' @ new) = (ms', error, r)" "n \<le> length ms'"
      "bq_items (sh_requests sh') = bq_items (sh_requests sh1) @ map (admitted_request cid) (take n ms')"
      "gw_pending g' = map (pending_request cid) (drop n ms')" "n < length ms' \<longrightarrow> gw_reads_paused g'"
      "error \<noteq> None \<longrightarrow> (\<exists>c'. map_of (gw_connections g') fd = Some c' \<and> con_closing c')"
    unfolding admits_stream_def by (elim exE conjE) (rule that)
  have "parse_stream (pending p @ b @ new) = (ms @ ms', error, r)"
    using parse_stream_append [of "pending p @ b" new] first r(1) by simp
  with r items show ?thesis unfolding admits_stream_def
    by (intro exI [of _ "ms @ ms'"] exI [of _ error] exI [of _ r] exI [of _ "length ms + n"]) simp
qed

lemma receive_stop:
  assumes "map_of (gw_connections g) fd = Some c" "con_closing c \<or> gw_reads_paused g \<or> gw_shutdown_started g"
  shows "receive_from sk fd sh g s = Some (s, Done (sh, g))"
  using assms by (subst receive_from.simps) simp

lemma admits_nothing:
  assumes "parser_ready p" "gw_pending g' = []"
  shows "admits_stream p cid fd [] sh sh g'"
  using assms unfolding admits_stream_def parser_ready_def
  by (intro exI [of _ "[]"] exI [of _ None] exI [of _ "pending p"] exI [of _ 0]) simp

lemma receive_open:
  assumes "map_of (gw_connections g) fd = Some c" "\<not> con_closing c" "\<not> gw_reads_paused g" "\<not> gw_shutdown_started g"
    and "sk_recv sk fd 4096 s = (s1, r)"
  shows "receive_from sk fd sh g s = (case r of
      Inr bytes \<Rightarrow>
        if bytes \<noteq> []
        then (case parser_feed (con_parser c) bytes of
            Done (parser, parsed) \<Rightarrow>
              (case admit_messages sh (update_connection fd (\<lambda>c. c\<lparr>con_parser := parser\<rparr>) g) (con_id c) (feed_messages parsed) of
                 Done (sh, g) \<Rightarrow>
                   receive_from sk fd sh
                     (if feed_error parsed \<noteq> None then update_connection fd (\<lambda>c. c\<lparr>con_closing := True\<rparr>) g else g) s1
               | Throws \<Rightarrow> Some (s1, Throws) | Terminates \<Rightarrow> Some (s1, Terminates) | Undefined \<Rightarrow> Some (s1, Undefined))
          | Throws \<Rightarrow> Some (s1, Throws) | Terminates \<Rightarrow> Some (s1, Terminates) | Undefined \<Rightarrow> Some (s1, Undefined))
        else Some (s1, Done (sh, update_connection fd (\<lambda>c. c\<lparr>con_closing := True\<rparr>) g))
    | Inl error \<Rightarrow>
        if error = EINTR then receive_from sk fd sh g s1
        else if error = EAGAIN then Some (s1, Done (sh, g))
        else Some (s1, Done (sh, update_connection fd (\<lambda>c. c\<lparr>con_closing := True\<rparr>) g)))"
  using assms by (subst receive_from.simps) (simp cong: sum.case_cong)

text \<open>One read that returned bytes: the parser is fed with them and the messages are admitted.\<close>

lemma receive_chunk:
  assumes c: "map_of (gw_connections g) fd = Some c" "parser_ready (con_parser c)" "\<not> con_closing c"
    and g: "\<not> gw_reads_paused g" "\<not> gw_shutdown_started g" "gw_pending g = []" 
    and read: "sk_recv sk fd 4096 s = (s1, Inr b)" "b \<noteq> []" "length b \<le> 4096"
  obtains p' ms e rest sh1 g1 n where
    "receive_from sk fd sh g s = receive_from sk fd sh1 g1 s1"
    "parse_stream (pending (con_parser c) @ b) = (ms, e, rest)" "e = None \<longrightarrow> parser_ready p' \<and> pending p' = rest"
    "n \<le> length ms" "bq_items (sh_requests sh1) = bq_items (sh_requests sh) @ map (admitted_request (con_id c)) (take n ms)"
    "gw_pending g1 = map (pending_request (con_id c)) (drop n ms)" "gw_reads_paused g1 \<longleftrightarrow> n < length ms" "\<not> gw_shutdown_started g1"
    "map_of (gw_connections g1) fd = Some (c\<lparr>con_parser := p', con_closing := e \<noteq> None\<rparr>)"
proof -
  let ?p = "con_parser c"
  obtain ms e rest where ps: "parse_stream (pending ?p @ b) = (ms, e, rest)" by (rule prod_cases3)
  have pr: "parser_ok ?p" "parser_failure ?p = None" "45 \<le> maximum_buffered_bytes ?p" "parse_stream (pending ?p) = ([], None, pending ?p)"
    using c(2) by (simp_all add: parser_ready_def)
  from parser_feed_follows [OF pr ps] obtain p' where
    p': "parser_feed ?p b = Done (p', \<lparr>feed_messages = ms, feed_error = e\<rparr>)" "parser_ok p'"
      "maximum_buffered_bytes p' = maximum_buffered_bytes ?p" "parser_failure p' = e" "e = None \<longrightarrow> pending p' = rest"
    by (elim exE conjE) (rule that)
  have ready: "e = None \<longrightarrow> parser_ready p' \<and> pending p' = rest"
    using p' pr(3) parse_stream_rest [of "pending ?p @ b" ms rest] ps by (auto simp: parser_ready_def)
  have "28 * length ms \<le> length (pending ?p @ b)" by (rule parse_stream_count [OF ps])
  moreover have "length (pending ?p) < 45" using parse_stream_rest [OF pr(4)] by simp
  ultimately have few: "length ms \<le> 4096" using read(3) by simp
  let ?g = "update_connection fd (\<lambda>c. c\<lparr>con_parser := p'\<rparr>) g"
  have look: "map_of (gw_connections ?g) fd = Some (c\<lparr>con_parser := p'\<rparr>)"
    using c(1) by (simp add: update_connection_lookup)
  obtain sh1 g1 n where ad: "admit_messages sh ?g (con_id c) ms = Done (sh1, g1)" "n \<le> length ms"
    "bq_items (sh_requests sh1) = bq_items (sh_requests sh) @ map (admitted_request (con_id c)) (take n ms)"
    "g1 = (if n = length ms then ?g
           else ?g\<lparr>gw_pending := gw_pending ?g @ map (pending_request (con_id c)) (drop n ms), gw_reads_paused := True\<rparr>)"
    by (rule admit_messages_effect [of ?g ms sh "con_id c"]) (use few g(3) in simp_all)
  let ?g1 = "if e \<noteq> None then update_connection fd (\<lambda>c. c\<lparr>con_closing := True\<rparr>) g1 else g1"
  have loop: "receive_from sk fd sh g s = receive_from sk fd sh1 ?g1 s1"
    using receive_open [OF c(1,3) g(1,2) read(1), of sh] read(2) p'(1) ad(1) by simp
  show thesis
    by (rule that [OF loop ps ready ad(2,3)]) (use ad(2,4) c(3) g look in \<open>auto simp: update_connection_lookup\<close>)
qed

lemma receive_effect:
  assumes law: "recv_law sk fd received arriving"
    and c: "map_of (gw_connections g) fd = Some c" "parser_ready (con_parser c)" "\<not> con_closing c"
    and g: "\<not> gw_reads_paused g" "\<not> gw_shutdown_started g" "gw_pending g = []"
  shows "\<exists>s' sh' g' new. receive_from sk fd sh g s = Some (s', Done (sh', g')) \<and> received s' = received s @ new \<and>
    admits_stream (con_parser c) (con_id c) fd new sh sh' g'"
  using c g
proof (induction "arriving s" arbitrary: s sh g c rule: less_induct)
  case less
  let ?p = "con_parser c" and ?close = "update_connection fd (\<lambda>c. c\<lparr>con_closing := True\<rparr>)"
  obtain s1 r where r: "sk_recv sk fd 4096 s = (s1, r)" by (cases "sk_recv sk fd 4096 s")
  note l = law [unfolded recv_law_def, rule_format, OF r]
  have silent: "admits_stream ?p (con_id c) fd [] sh sh g" "admits_stream ?p (con_id c) fd [] sh sh (?close g)"
    by (rule admits_nothing [OF less.prems(2)]; simp add: less.prems(6) update_connection_fields)+
  note unfold = receive_open [OF less.prems(1,3-5) r, of sh]
  show ?case
  proof (cases r)
    case (Inl e)
    show ?thesis
    proof (cases "e = EINTR")
      case True
      with less.hyps [of s1 g c sh] less.prems l Inl unfold show ?thesis by simp
    next
      case False
      with unfold Inl l have "receive_from sk fd sh g s = Some (s1, Done (sh, if e = EAGAIN then g else ?close g))" "received s1 = received s @ []"
        by simp_all
      moreover have "admits_stream ?p (con_id c) fd [] sh sh (if e = EAGAIN then g else ?close g)" using silent by simp
      ultimately show ?thesis by blast
    qed
  next
    case (Inr b)
    show ?thesis
    proof (cases "b = []")
      case True
      with unfold Inr l have "receive_from sk fd sh g s = Some (s1, Done (sh, ?close g))" "received s1 = received s @ []" by simp_all
      with silent(2) show ?thesis by blast
    next
      case ne: False
      from l Inr ne have b: "length b \<le> 4096" "received s1 = received s @ b" "arriving s1 < arriving s" by simp_all
      obtain p' ms e rest sh1 g1 n where ch:
        "receive_from sk fd sh g s = receive_from sk fd sh1 g1 s1"
        "parse_stream (pending ?p @ b) = (ms, e, rest)" "e = None \<longrightarrow> parser_ready p' \<and> pending p' = rest"
        "n \<le> length ms" "bq_items (sh_requests sh1) = bq_items (sh_requests sh) @ map (admitted_request (con_id c)) (take n ms)"
        "gw_pending g1 = map (pending_request (con_id c)) (drop n ms)" "gw_reads_paused g1 \<longleftrightarrow> n < length ms" "\<not> gw_shutdown_started g1"
        "map_of (gw_connections g1) fd = Some (c\<lparr>con_parser := p', con_closing := e \<noteq> None\<rparr>)"
        by (rule receive_chunk [OF less.prems r [unfolded Inr] ne b(1)])
      show ?thesis
      proof (cases "e \<noteq> None \<or> n < length ms")
        case True
        have "receive_from sk fd sh1 g1 s1 = Some (s1, Done (sh1, g1))"
          by (rule receive_stop [OF ch(9)]) (use ch(7) True in auto)
        moreover have "admits_stream ?p (con_id c) fd b sh sh1 g1"
          unfolding admits_stream_def using ch(2,4-7,9)
          by (intro exI [of _ ms] exI [of _ e] exI [of _ rest] exI [of _ n]) simp
        ultimately show ?thesis using ch(1) b(2) by auto
      next
        case False
        with ch(4) have n: "n = length ms" "e = None" by simp_all
        have "\<exists>s' sh' g' new. receive_from sk fd sh1 g1 s1 = Some (s', Done (sh', g')) \<and> received s' = received s1 @ new \<and>
            admits_stream p' (con_id c) fd new sh1 sh' g'"
          using less.hyps [OF b(3), of g1 "c\<lparr>con_parser := p', con_closing := False\<rparr>" sh1] ch n by simp
        then obtain s' sh' g' new where IH: "receive_from sk fd sh1 g1 s1 = Some (s', Done (sh', g'))" "received s' = received s1 @ new"
            "admits_stream p' (con_id c) fd new sh1 sh' g'" by (elim exE conjE) (rule that)
        from admits_stream_more [OF _ _ IH(3), of ?p b ms sh] ch(2,3,5) n have "admits_stream ?p (con_id c) fd (b @ new) sh sh' g'" by simp
        with IH(1,2) ch(1) b(2) show ?thesis by auto
      qed
    qed
  qed
qed

section \<open>Draining the retained requests\<close>

text \<open>What becomes of a retained request: nothing when its connection is gone or closing.\<close>

definition live_request :: "Gateway \<Rightarrow> PendingRequest \<Rightarrow> AdmittedEngineRequest list" where
  "live_request g p =
     (case find_connection g (pen_connection_id p) of
        Some (fd, c) \<Rightarrow> if con_closing c then [] else [admitted_request (con_id c) (pen_request p)]
      | None \<Rightarrow> [])"

lemma drain_pending_loop_effect:
  "\<exists>sh' g' ps qs. drain_pending_loop sh g retained = Done (sh', g') \<and> retained = ps @ qs \<and> gw_pending g' = qs \<and>
     bq_items (sh_requests sh') = bq_items (sh_requests sh) @ concat (map (live_request g) ps) \<and>
     gw_connections g' = gw_connections g \<and> gw_reads_paused g' = (qs \<noteq> [])"
proof (induction retained arbitrary: sh)
  case Nil
  show ?case by (intro exI [of _ sh] exI [of _ "g\<lparr>gw_pending := [], gw_reads_paused := False\<rparr>"] exI [of _ "[]"]) simp
next
  case (Cons p retained)
  have step: ?case if "drain_pending_loop sh g (p # retained) = drain_pending_loop sh1 g retained"
      "bq_items (sh_requests sh1) = bq_items (sh_requests sh) @ live_request g p" for sh1
  proof -
    note taken = that
    from Cons.IH [of sh1] obtain sh' g' ps qs where
      "drain_pending_loop sh1 g retained = Done (sh', g')" "retained = ps @ qs" "gw_pending g' = qs"
      "bq_items (sh_requests sh') = bq_items (sh_requests sh1) @ concat (map (live_request g) ps)"
      "gw_connections g' = gw_connections g" "gw_reads_paused g' = (qs \<noteq> [])" by (elim exE conjE) (rule that)
    with taken show ?thesis
      by (intro exI [of _ sh'] exI [of _ g'] exI [of _ "p # ps"] exI [of _ qs]) simp
  qed
  show ?case
  proof (cases "find_connection g (pen_connection_id p)")
    case None
    then show ?thesis by (intro step [of sh]) (simp_all add: live_request_def)
  next
    case (Some found)
    obtain fd c where fc: "found = (fd, c)" by (cases found)
    show ?thesis
    proof (cases "con_closing c")
      case True
      with Some fc show ?thesis by (intro step [of sh]) (simp_all add: live_request_def)
    next
      case False
      obtain sh1 ok where a: "admit sh g (con_id c) (pen_request p) = Done (sh1, ok)"
        "bq_items (sh_requests sh1) = bq_items (sh_requests sh) @ (if ok then [admitted_request (con_id c) (pen_request p)] else [])"
        by (rule admit_effect)
      show ?thesis
      proof (cases ok)
        case True
        with Some fc False a show ?thesis by (intro step [of sh1]) (simp_all add: live_request_def)
      next
        case refused: False
        with Some fc False a show ?thesis
          by (intro exI [of _ sh1] exI [of _ "g\<lparr>gw_pending := p # retained, gw_reads_paused := True\<rparr>"] exI [of _ "[]"] exI [of _ "p # retained"]) simp
      qed
    qed
  qed
qed

section \<open>Properties\<close>

text \<open>
  C9. Reading a connection returns and turns its bytes into requests exactly once and in order, however
  the bytes are cut. The messages of the byte stream, what the parser held followed by what is read now,
  split in two: the first ones are appended to the request queue in order, each with a slot of its own,
  and all the others are retained in order, in which case no more is read; nothing is lost, although the
  list of retained requests is bounded. If the stream is malformed the connection is closed.
\<close>

theorem receive_admits_stream:
  assumes "recv_law sk fd received arriving"
    and "map_of (gw_connections g) fd = Some c" "parser_ready (con_parser c)" "\<not> con_closing c"
    and "\<not> gw_reads_paused g" "\<not> gw_shutdown_started g" "gw_pending g = []"
  shows "\<exists>s' sh' g' new ms error rest n.
    receive_from sk fd sh g s = Some (s', Done (sh', g')) \<and> received s' = received s @ new \<and>
    parse_stream (pending (con_parser c) @ new) = (ms, error, rest) \<and> n \<le> length ms \<and>
    bq_items (sh_requests sh') = bq_items (sh_requests sh) @ map (admitted_request (con_id c)) (take n ms) \<and>
    gw_pending g' = map (pending_request (con_id c)) (drop n ms) \<and>
    (n < length ms \<longrightarrow> gw_reads_paused g') \<and>
    (error \<noteq> None \<longrightarrow> (\<exists>c'. map_of (gw_connections g') fd = Some c' \<and> con_closing c'))"
  using receive_effect [OF assms, of sh s] unfolding admits_stream_def by blast

text \<open>A socket that returns three bytes at a time of what has arrived, its first component.\<close>

definition slow_recv :: "nat \<Rightarrow> byte list \<times> byte list \<Rightarrow> (byte list \<times> byte list) \<times> (errno + byte list)" where
  "slow_recv count s =
     (if fst s = [] then (s, Inl EAGAIN)
      else ((drop (min 3 count) (fst s), snd s @ take (min 3 count) (fst s)), Inr (take (min 3 count) (fst s))))"

definition sample_sockets :: "(byte list \<times> byte list) sockets" where
  "sample_sockets =
     \<lparr>sk_recv = (\<lambda>fd. slow_recv), sk_send = (\<lambda>fd bytes s. (s, Inr (length bytes))), sk_accept = (\<lambda>fd s. (s, Inl EAGAIN)),
      sk_close = (\<lambda>fd s. s), sk_getfl = (\<lambda>fd s. Inr 0), sk_setfl = (\<lambda>fd flags s. (s, None)),
      sk_getfd = (\<lambda>fd s. Inr 0), sk_setfd = (\<lambda>fd flags s. (s, None)), sk_inet_pton = (\<lambda>address. None),
      sk_socket = (\<lambda>s. (s, Inr 3)), sk_reuse_address = (\<lambda>fd s. (s, None)), sk_bind = (\<lambda>fd address port s. (s, None)),
      sk_listen = (\<lambda>fd backlog s. (s, None)), sk_getsockname = (\<lambda>fd s. Inr 0), sk_eventfd = (\<lambda>s. (s, Inr 4))\<rparr>"

definition sample_gateway :: Gateway where
  "sample_gateway =
     (new_gateway \<lparr>cfg_bind_address = ''127.0.0.1'', cfg_port = 0, cfg_maximum_connections = 1,
        cfg_maximum_input_buffer_bytes = 64, cfg_maximum_output_buffer_bytes = 64\<rparr> 3 4 0)
     \<lparr>gw_connections := [(5, new_connection (ConnectionId 1) 64)]\<rparr>"

definition sample_shared :: Shared where
  "sample_shared =
     \<lparr>sh_limiter = new_limiter 2, sh_requests = new_queue 1, sh_responses = new_queue 2,
      sh_stop_requested = False, sh_engine_failed = False\<rparr>"

theorem receive_admits_stream_witness:
  "\<exists>s' sh' g' new ms error rest n.
    receive_from sample_sockets 5 sample_shared sample_gateway ([77, 69, 2, 9], []) = Some (s', Done (sh', g')) \<and> snd s' = new \<and>
    parse_stream new = (ms, error, rest) \<and> bq_items (sh_requests sh') = map (admitted_request (ConnectionId 1)) (take n ms) \<and>
    gw_pending g' = map (pending_request (ConnectionId 1)) (drop n ms)"
proof -
  have law: "recv_law sample_sockets 5 snd (\<lambda>s. length (fst s))"
    by (auto simp: recv_law_def sample_sockets_def slow_recv_def split: if_splits)
  let ?c = "new_connection (ConnectionId 1) 64"
  have c: "map_of (gw_connections sample_gateway) 5 = Some ?c" "\<not> con_closing ?c" "con_id ?c = ConnectionId 1"
    "pending (con_parser ?c) = []" "\<not> gw_reads_paused sample_gateway" "\<not> gw_shutdown_started sample_gateway" "gw_pending sample_gateway = []"
    by (simp_all add: sample_gateway_def new_gateway_def new_connection_def new_parser_def pending_def)
  have "parser_ready (con_parser ?c)"
    by (simp add: parser_ready_def new_connection_def new_parser_def pending_def parser_ok_def)
  from receive_admits_stream [OF law c(1) this c(2,5-7), of sample_shared "([77, 69, 2, 9], [])"] c(3,4) show ?thesis
    by (simp add: sample_shared_def new_queue_def) blast
qed

text \<open>
  C39. Retained requests are admitted first come, first served. A prefix of the retained requests leaves
  the list, those of connections that are still open going to the request queue in that order, each
  once, and the rest stays in place; reading resumes exactly when nothing is left. While the gateway
  shuts down, or after the engine has failed, nothing moves.
\<close>

theorem pending_admitted_in_order:
  "\<exists>sh' g' ps qs. drain_pending_requests sh g = Done (sh', g') \<and> gw_pending g = ps @ qs \<and> gw_pending g' = qs \<and>
     bq_items (sh_requests sh') = bq_items (sh_requests sh) @ concat (map (live_request g) ps) \<and>
     gw_connections g' = gw_connections g \<and>
     gw_reads_paused g' = (if gw_shutdown_started g \<or> sh_engine_failed sh then gw_reads_paused g else qs \<noteq> [])"
proof (cases "gw_shutdown_started g \<or> sh_engine_failed sh")
  case True
  then show ?thesis
    by (intro exI [of _ sh] exI [of _ g] exI [of _ "[]"] exI [of _ "gw_pending g"]) (simp add: drain_pending_requests_def)
next
  case False
  with drain_pending_loop_effect [of sh g "gw_pending g"] show ?thesis by (simp add: drain_pending_requests_def)
qed

end
