(* ===== verification/Gateway_Resources.thy ===== *)
theory Gateway_Resources
  imports Gateway_Admission Gateway_Wakeup
begin

text \<open>
  What the gateway owns. Every descriptor it has opened is the listener, the eventfd or that of a
  connection, and is closed when it stops being one of these, on every path; connection ids are not
  reused; and the number of connections, the bytes buffered for each and the retained requests stay
  within their limits. Every turn of the event loop returns.
\<close>

section \<open>What is relied on of the sockets\<close>

text \<open>
  \<open>opened\<close> are the open descriptors, \<open>sent\<close> what has been sent on each, and \<open>busy\<close> bounds how often calls can
  still be interrupted, return data or return a connection before something new arrives.
\<close>

definition quiet :: "('s \<Rightarrow> int set) \<Rightarrow> ('s \<Rightarrow> nat) \<Rightarrow> 's \<Rightarrow> 's \<Rightarrow> bool" where
  "quiet opened busy s s' \<longleftrightarrow> opened s' = opened s \<and> busy s' \<le> busy s"

definition transfer_law :: "'s sockets \<Rightarrow> ('s \<Rightarrow> int set) \<Rightarrow> (int \<Rightarrow> 's \<Rightarrow> byte list) \<Rightarrow> ('s \<Rightarrow> nat) \<Rightarrow> bool" where
  "transfer_law sk opened sent busy \<longleftrightarrow>
     (\<forall>fd count s s' r. sk_recv sk fd count s = (s', r) \<longrightarrow> quiet opened busy s s' \<and>
        (case r of Inr bytes \<Rightarrow> length bytes \<le> count \<and> (bytes \<noteq> [] \<longrightarrow> busy s' < busy s) | Inl e \<Rightarrow> e = EINTR \<longrightarrow> busy s' < busy s)) \<and>
     (\<forall>fd bytes s s' r. sk_send sk fd bytes s = (s', r) \<longrightarrow> quiet opened busy s s') \<and>
     (\<forall>fd. send_law (sk_send sk fd) (sent fd) busy)"

definition open_close_law :: "'s sockets \<Rightarrow> ('s \<Rightarrow> int set) \<Rightarrow> ('s \<Rightarrow> nat) \<Rightarrow> bool" where
  "open_close_law sk opened busy \<longleftrightarrow>
     (\<forall>fd s s' r. sk_accept sk fd s = (s', r) \<longrightarrow>
        (case r of
           Inr d \<Rightarrow> 0 \<le> d \<and> d \<notin> opened s \<and> opened s' = insert d (opened s) \<and> busy s' < busy s
         | Inl e \<Rightarrow> quiet opened busy s s' \<and> (e = EINTR \<longrightarrow> busy s' < busy s))) \<and>
     (\<forall>create s s' r. create \<in> {sk_socket sk, sk_eventfd sk} \<longrightarrow> create s = (s', r) \<longrightarrow>
        (case r of
           Inr d \<Rightarrow> 0 \<le> d \<and> d \<notin> opened s \<and> opened s' = insert d (opened s)
         | Inl e \<Rightarrow> opened s' = opened s)) \<and>
     (\<forall>fd s. opened (sk_close sk fd s) = opened s - {fd} \<and> busy (sk_close sk fd s) \<le> busy s)"

definition option_law :: "'s sockets \<Rightarrow> ('s \<Rightarrow> int set) \<Rightarrow> ('s \<Rightarrow> nat) \<Rightarrow> bool" where
  "option_law sk opened busy \<longleftrightarrow>
     (\<forall>fd flags s. quiet opened busy s (fst (sk_setfl sk fd flags s)) \<and> quiet opened busy s (fst (sk_setfd sk fd flags s))) \<and>
     (\<forall>fd address port backlog s. opened (fst (sk_reuse_address sk fd s)) = opened s \<and>
        opened (fst (sk_bind sk fd address port s)) = opened s \<and> opened (fst (sk_listen sk fd backlog s)) = opened s)"

definition socket_laws :: "'s sockets \<Rightarrow> ('s \<Rightarrow> int set) \<Rightarrow> (int \<Rightarrow> 's \<Rightarrow> byte list) \<Rightarrow> ('s \<Rightarrow> nat) \<Rightarrow> bool" where
  "socket_laws sk opened sent busy \<longleftrightarrow> transfer_law sk opened sent busy \<and> open_close_law sk opened busy \<and> option_law sk opened busy"

lemma quiet_refl [simp]: "quiet opened busy s s"
  by (simp add: quiet_def)

lemma quiet_trans: "quiet opened busy s s' \<Longrightarrow> quiet opened busy s' s'' \<Longrightarrow> quiet opened busy s s''"
  by (simp add: quiet_def)

lemma recv_quiet:
  assumes "socket_laws sk opened sent busy" "sk_recv sk fd count s = (s', r)"
  shows "quiet opened busy s s'"
    "case r of Inr bytes \<Rightarrow> length bytes \<le> count \<and> (bytes \<noteq> [] \<longrightarrow> busy s' < busy s) | Inl e \<Rightarrow> e = EINTR \<longrightarrow> busy s' < busy s"
  using assms by (auto simp: socket_laws_def transfer_law_def)

lemma close_effect:
  assumes "socket_laws sk opened sent busy" "0 \<le> fd"
  shows "opened (close_socket sk fd s) = opened s - {fd}" "busy (close_socket sk fd s) \<le> busy s"
  using assms by (simp_all add: close_socket_def socket_laws_def open_close_law_def)

lemma flags_quiet:
  assumes "socket_laws sk opened sent busy"
  shows "quiet opened busy s (fst (set_nonblocking sk fd s))" "quiet opened busy s (fst (set_close_on_exec sk fd s))"
  using assms by (auto simp: set_nonblocking_def set_close_on_exec_def socket_laws_def option_law_def split: sum.split)

section \<open>The invariant\<close>

definition connection_ok :: "ServerConfig \<Rightarrow> Connection \<Rightarrow> bool" where
  "connection_ok config c \<longleftrightarrow>
     parser_ok (con_parser c) \<and> maximum_buffered_bytes (con_parser c) = cfg_maximum_input_buffer_bytes config \<and>
     output_ok (con_output c) \<and> length (output_pending (con_output c)) \<le> cfg_maximum_output_buffer_bytes config"

definition connection_ids :: "Gateway \<Rightarrow> u64 list" where
  "connection_ids g = map (connection_id_value \<circ> con_id \<circ> snd) (gw_connections g)"

definition descriptors :: "Gateway \<Rightarrow> int list" where
  "descriptors g = map fst (gw_connections g) @ (if gw_listener g \<ge> 0 then [gw_listener g] else []) @ [gw_wakeup g]"

definition gateway_ok :: "ServerConfig \<Rightarrow> Gateway \<Rightarrow> bool" where
  "gateway_ok config g \<longleftrightarrow>
     gw_config g = config \<and> length (gw_connections g) \<le> cfg_maximum_connections config \<and>
     length (gw_pending g) \<le> kMaximumPendingRequests \<and>
     (\<forall>c \<in> snd ` set (gw_connections g). connection_ok config c) \<and>
     distinct (connection_ids g) \<and> (\<forall>i \<in> set (connection_ids g). i \<noteq> 0 \<and> (gw_next_connection_id g = 0 \<or> i < gw_next_connection_id g)) \<and>
     distinct (descriptors g) \<and> (\<forall>d \<in> set (descriptors g). 0 \<le> d)"

lemma gateway_okD:
  assumes "gateway_ok config g"
  shows "gw_config g = config" "length (gw_connections g) \<le> cfg_maximum_connections config"
    "length (gw_pending g) \<le> kMaximumPendingRequests" "\<And>d c. (d, c) \<in> set (gw_connections g) \<Longrightarrow> connection_ok config c"
    "distinct (connection_ids g)" "\<And>i. i \<in> set (connection_ids g) \<Longrightarrow> i \<noteq> 0 \<and> (gw_next_connection_id g = 0 \<or> i < gw_next_connection_id g)"
    "distinct (descriptors g)" "\<And>d. d \<in> set (descriptors g) \<Longrightarrow> 0 \<le> d"
  using assms unfolding gateway_ok_def by (blast, blast, blast, force, blast, blast, blast, blast)

lemma gateway_okI:
  assumes "gw_config g = config" "length (gw_connections g) \<le> cfg_maximum_connections config"
    "length (gw_pending g) \<le> kMaximumPendingRequests" "\<And>d c. (d, c) \<in> set (gw_connections g) \<Longrightarrow> connection_ok config c"
    "distinct (connection_ids g)" "\<And>i. i \<in> set (connection_ids g) \<Longrightarrow> i \<noteq> 0 \<and> (gw_next_connection_id g = 0 \<or> i < gw_next_connection_id g)"
    "distinct (descriptors g)" "\<And>d. d \<in> set (descriptors g) \<Longrightarrow> 0 \<le> d"
  shows "gateway_ok config g"
  unfolding gateway_ok_def using assms by (intro conjI ballI) auto

text \<open>The gateway owns its descriptors, and nothing else was opened.\<close>

definition owns :: "('s \<Rightarrow> int set) \<Rightarrow> int set \<Rightarrow> Gateway \<Rightarrow> 's \<Rightarrow> bool" where
  "owns opened others g s \<longleftrightarrow> opened s = others \<union> set (descriptors g) \<and> others \<inter> set (descriptors g) = {}"

text \<open>Operations that open and close nothing.\<close>

definition steady :: "ServerConfig \<Rightarrow> Gateway \<Rightarrow> Gateway \<Rightarrow> bool" where
  "steady config g g' \<longleftrightarrow> gateway_ok config g' \<and> descriptors g' = descriptors g \<and> map fst (gw_connections g') = map fst (gw_connections g)"

lemma steady_refl: "gateway_ok config g \<Longrightarrow> steady config g g"
  by (simp add: steady_def)

lemma steady_trans: "steady config g g' \<Longrightarrow> steady config g' g'' \<Longrightarrow> steady config g g''"
  by (simp add: steady_def)

lemma steady_ok: "steady config g g' \<Longrightarrow> gateway_ok config g'"
  by (simp add: steady_def)

lemma owns_steady: "owns opened others g s \<Longrightarrow> steady config g g' \<Longrightarrow> opened s' = opened s \<Longrightarrow> owns opened others g' s'"
  by (simp add: owns_def steady_def)

section \<open>Operations on one connection\<close>

lemma update_connection_steady:
  assumes "gateway_ok config g" "\<And>c. connection_ok config c \<Longrightarrow> connection_ok config (f c) \<and> con_id (f c) = con_id c"
  shows "steady config g (update_connection fd f g)"
proof -
  let ?u = "\<lambda>(d, c). (d, if d = fd then f c else c)"
  have conns: "gw_connections (update_connection fd f g) = map ?u (gw_connections g)" by (simp add: update_connection_def)
  have c: "connection_ok config c" if "(d, c) \<in> set (gw_connections g)" for d c
    using assms(1) that by (force simp: gateway_ok_def)
  have fsts: "map fst (map ?u (gw_connections g)) = map fst (gw_connections g)" by auto
  have "connection_ids (update_connection fd f g) = connection_ids g"
    unfolding connection_ids_def conns using c assms(2) by auto
  moreover have "\<forall>c \<in> snd ` set (map ?u (gw_connections g)). connection_ok config c" using c assms(2) by auto
  moreover have "descriptors (update_connection fd f g) = descriptors g"
    unfolding descriptors_def conns fsts by (simp add: update_connection_def)
  ultimately show ?thesis using assms(1) fsts unfolding steady_def gateway_ok_def conns
    by (simp add: update_connection_def del: map_map)
qed

lemma close_connection_steady:
  "gateway_ok config g \<Longrightarrow> steady config g (update_connection fd (\<lambda>c. c\<lparr>con_closing := True\<rparr>) g)"
  by (rule update_connection_steady) (simp_all add: connection_ok_def)

lemma steady_same:
  assumes "gateway_ok config g" "gw_config g' = gw_config g" "gw_connections g' = gw_connections g" "gw_listener g' = gw_listener g"
    "gw_wakeup g' = gw_wakeup g" "gw_next_connection_id g' = gw_next_connection_id g" "length (gw_pending g') \<le> kMaximumPendingRequests"
  shows "steady config g g'"
proof -
  have "descriptors g' = descriptors g" "connection_ids g' = connection_ids g"
    using assms by (simp_all add: descriptors_def connection_ids_def)
  with assms show ?thesis unfolding steady_def gateway_ok_def by simp
qed

lemma pending_bounded: "gateway_ok config g \<Longrightarrow> length (gw_pending g) \<le> kMaximumPendingRequests"
  by (simp add: gateway_ok_def)

lemma retain_pending_steady:
  assumes "gateway_ok config g"
  shows "steady config g (retain_pending cid m g)"
proof (cases "length (gw_pending g) = kMaximumPendingRequests")
  case True
  then show ?thesis using steady_refl [OF assms] close_connection_steady [OF assms]
    by (simp add: retain_pending_def split: option.split)
next
  case False
  with pending_bounded [OF assms] show ?thesis by (intro steady_same [OF assms]) (simp_all add: retain_pending_def)
qed

lemma fold_retain_steady: "gateway_ok config g \<Longrightarrow> steady config g (fold (retain_pending cid) ms g)"
proof (induction ms arbitrary: g)
  case (Cons m ms)
  from retain_pending_steady [OF Cons.prems, of cid m] Cons.IH show ?case by (auto intro: steady_trans dest: steady_ok)
qed (simp add: steady_refl)

lemma admit_messages_steady:
  assumes "gateway_ok config g"
  shows "\<exists>sh' g'. admit_messages sh g cid ms = Done (sh', g') \<and> steady config g g'"
proof (induction ms arbitrary: sh)
  case Nil
  show ?case using assms by (simp add: steady_refl)
next
  case (Cons m ms)
  obtain sh1 ok where a: "admit sh g cid m = Done (sh1, ok)" by (rule admit_effect)
  have f: "steady config g (fold (retain_pending cid) (m # ms) g)" by (rule fold_retain_steady [OF assms])
  have "steady config (fold (retain_pending cid) (m # ms) g) ((fold (retain_pending cid) (m # ms) g)\<lparr>gw_reads_paused := True\<rparr>)"
    by (rule steady_same [OF steady_ok [OF f]]) (use pending_bounded [OF steady_ok [OF f]] in simp_all)
  then have "steady config g ((fold (retain_pending cid) (m # ms) g)\<lparr>gw_reads_paused := True\<rparr>)" by (rule steady_trans [OF f])
  with a Cons.IH [of sh1] show ?case by (cases ok) simp_all
qed

section \<open>Receiving and sending\<close>

lemma connection_of:
  assumes "gateway_ok config g" "map_of (gw_connections g) fd = Some c"
  shows "connection_ok config c"
  using assms map_of_SomeD [OF assms(2)] by (force simp: gateway_ok_def)

lemma receive_from_returns:
  assumes law: "socket_laws sk opened sent busy" and "gateway_ok config g" "fd \<in> set (map fst (gw_connections g))"
  shows "\<exists>s' sh' g'. receive_from sk fd sh g s = Some (s', Done (sh', g')) \<and> steady config g g' \<and> quiet opened busy s s'"
  using assms(2,3)
proof (induction "busy s" arbitrary: s sh g rule: less_induct)
  case less
  let ?close = "update_connection fd (\<lambda>c. c\<lparr>con_closing := True\<rparr>)"
  note ok = less.prems(1)
  from less.prems(2) obtain c where c: "map_of (gw_connections g) fd = Some c" by (force simp: map_of_eq_None_iff)
  note refl = steady_refl [OF ok] and closed = close_connection_steady [OF ok, of fd]
  show ?case
  proof (cases "con_closing c \<or> gw_reads_paused g \<or> gw_shutdown_started g")
    case True
    from receive_stop [OF c True, of sk sh s] refl show ?thesis by auto
  next
    case False
    obtain s1 r where r: "sk_recv sk fd 4096 s = (s1, r)" by (cases "sk_recv sk fd 4096 s")
    note q = recv_quiet [OF law r]
    show ?thesis
    proof (cases r)
      case (Inl e)
      show ?thesis
      proof (cases "e = EINTR")
        case True
        from less.hyps [of s1 g sh, OF _ less.prems] q(2) Inl True obtain s' sh' g' where
          "receive_from sk fd sh g s1 = Some (s', Done (sh', g'))" "steady config g g'" "quiet opened busy s1 s'" by auto
        with receive_open [OF c _ _ _ r, of sh] False Inl True quiet_trans [OF q(1)] show ?thesis by auto
      next
        case no: False
        with receive_open [OF c _ _ _ r, of sh] False Inl q(1) refl closed show ?thesis by (cases "e = EAGAIN") auto
      qed
    next
      case (Inr bytes)
      show ?thesis
      proof (cases "bytes = []")
        case True
        with receive_open [OF c _ _ _ r, of sh] False Inr q(1) closed show ?thesis by auto
      next
        case ne: False
        from connection_of [OF ok c] have co: "parser_ok (con_parser c)"
          "maximum_buffered_bytes (con_parser c) = cfg_maximum_input_buffer_bytes config" by (simp_all add: connection_ok_def)
        from parser_feed_bounded [OF co(1), of bytes] obtain p parsed where
          p: "parser_feed (con_parser c) bytes = Done (p, parsed)" "parser_ok p"
            "maximum_buffered_bytes p = maximum_buffered_bytes (con_parser c)" by blast
        let ?g = "update_connection fd (\<lambda>c. c\<lparr>con_parser := p\<rparr>) g"
        have st1: "steady config g ?g"
          by (rule update_connection_steady [OF ok]) (use p co(2) in \<open>simp_all add: connection_ok_def\<close>)
        from admit_messages_steady [OF steady_ok [OF st1]] obtain sh1 g1 where
          ad: "admit_messages sh ?g (con_id c) (feed_messages parsed) = Done (sh1, g1)" "steady config ?g g1" by blast
        define g2 where "g2 = (if feed_error parsed \<noteq> None then ?close g1 else g1)"
        have st: "steady config g g2" unfolding g2_def
          using steady_trans [OF st1 ad(2)] close_connection_steady [OF steady_ok [OF ad(2)], of fd] by (auto intro: steady_trans)
        have loop: "receive_from sk fd sh g s = receive_from sk fd sh1 g2 s1"
          using receive_open [OF c _ _ _ r, of sh] False Inr ne p(1) ad(1) by (simp add: g2_def)
        have "busy s1 < busy s" using q(2) Inr ne by simp
        moreover have "fd \<in> set (map fst (gw_connections g2))" using st less.prems(2) by (simp only: steady_def)
        ultimately obtain s' sh' g' where
          "receive_from sk fd sh1 g2 s1 = Some (s', Done (sh', g'))" "steady config g2 g'" "quiet opened busy s1 s'"
          using less.hyps [OF _ steady_ok [OF st]] by blast
        then show ?thesis unfolding loop using steady_trans [OF st] quiet_trans [OF q(1)] by blast
      qed
    qed
  qed
qed

lemma output_flush_keeps:
  fixes send :: "byte list \<Rightarrow> 's \<Rightarrow> 's \<times> (errno + nat)"
  assumes "\<And>bytes s s' r. send bytes s = (s', r) \<Longrightarrow> quiet opened busy s s'" and "output_flush send b s = Some (s', b', r)"
  shows "quiet opened busy s s' \<and> length (output_pending b') \<le> length (output_pending b)"
proof -
  let ?P = "\<lambda>(send :: byte list \<Rightarrow> 's \<Rightarrow> 's \<times> (errno + nat)) b s (y :: 's \<times> ConnectionOutputBuffer \<times> OutputFlushResult). (\<forall>bytes s s' r. send bytes s = (s', r) \<longrightarrow> quiet opened busy s s') \<longrightarrow>
      quiet opened busy s (fst y) \<and> length (output_pending (fst (snd y))) \<le> length (output_pending b)"
  have "?P send b s (s', b', r)"
  proof (rule output_flush.raw_induct [where P = ?P, OF _ assms(2)])
    fix output_flush :: "(byte list \<Rightarrow> 's \<Rightarrow> 's \<times> (errno + nat)) \<Rightarrow> ConnectionOutputBuffer \<Rightarrow> 's \<Rightarrow>
      ('s \<times> ConnectionOutputBuffer \<times> OutputFlushResult) option" and send b s y
    assume IH: "\<And>send b s y. output_flush send b s = Some y \<Longrightarrow> ?P send b s y"
    assume body: "(if output_empty b then Some (s, b, Drained)
      else case send (drop (cob_offset b) (cob_bytes b)) s of
          (s, Inr sent) \<Rightarrow>
            if sent = 0 then Some (s, b, Fatal)
            else if sent > pending_size b then Some (s, b, Fatal)
            else let b = b\<lparr>cob_offset := cob_offset b + sent\<rparr>
                 in if output_empty b then Some (s, b\<lparr>cob_bytes := [], cob_offset := 0\<rparr>, Drained)
                    else output_flush send b s
        | (s, Inl e) \<Rightarrow>
            if e = EINTR then output_flush send b s
            else if e = EAGAIN then Some (s, b, WouldBlock)
            else Some (s, b, Fatal)) = Some y"
    obtain s1 r1 where r1: "send (drop (cob_offset b) (cob_bytes b)) s = (s1, r1)"
      by (cases "send (drop (cob_offset b) (cob_bytes b)) s")
    show "?P send b s y"
    proof (intro impI)
      assume q: "\<forall>bytes s s' r. send bytes s = (s', r) \<longrightarrow> quiet opened busy s s'"
      then have q1: "quiet opened busy s s1" using r1 by blast
      have again: "quiet opened busy s (fst y) \<and> length (output_pending (fst (snd y))) \<le> length (output_pending b')"
        if "output_flush send b' s1 = Some y" for b'
        using IH [OF that] q q1 by (auto intro: quiet_trans)
      show "quiet opened busy s (fst y) \<and> length (output_pending (fst (snd y))) \<le> length (output_pending b)"
      proof (cases r1)
        case (Inl e)
        with body r1 q1 again [of b] show ?thesis by (auto split: if_splits)
      next
        case (Inr n)
        have "length (output_pending (b\<lparr>cob_offset := cob_offset b + n\<rparr>)) \<le> length (output_pending b)" by (simp add: output_pending_def)
        with body r1 q1 Inr again [of "b\<lparr>cob_offset := cob_offset b + n\<rparr>"] show ?thesis
          by (auto simp: Let_def output_pending_def split: if_splits)
      qed
    qed
  qed
  with assms(1) show ?thesis by auto
qed

lemma set_output_steady:
  assumes "gateway_ok config g" "output_ok b" "length (output_pending b) \<le> cfg_maximum_output_buffer_bytes config"
  shows "steady config g (update_connection fd (\<lambda>c. c\<lparr>con_output := b\<rparr>) g)"
    "steady config g (update_connection fd (\<lambda>c. c\<lparr>con_closing := True, con_output := output_clear b\<rparr>) g)"
  using assms by (auto intro!: update_connection_steady simp: connection_ok_def)

lemma flush_output_returns:
  assumes law: "socket_laws sk opened sent busy" and ok: "gateway_ok config g"
  shows "\<exists>s' g'. flush_output sk fd g s = Some (s', g') \<and> steady config g g' \<and> quiet opened busy s s'"
proof (cases "map_of (gw_connections g) fd")
  case None
  then show ?thesis using steady_refl [OF ok] by (simp add: flush_output_def)
next
  case (Some c)
  from connection_of [OF ok Some] have co: "output_ok (con_output c)"
    "length (output_pending (con_output c)) \<le> cfg_maximum_output_buffer_bytes config" by (simp_all add: connection_ok_def)
  have law': "send_law (sk_send sk fd) (sent fd) busy" "\<And>bytes s s' r. sk_send sk fd bytes s = (s', r) \<Longrightarrow> quiet opened busy s s'"
    using law unfolding socket_laws_def transfer_law_def by blast+
  from output_flush_effect [OF law'(1) co(1)] obtain s' b r where
    f: "output_flush (sk_send sk fd) (con_output c) s = Some (s', b, r)" "output_ok b" by blast
  have k: "quiet opened busy s s' \<and> length (output_pending b) \<le> length (output_pending (con_output c))"
    by (rule output_flush_keeps [of "sk_send sk fd", OF _ f(1)]) (rule law'(2))
  have "length (output_pending b) \<le> cfg_maximum_output_buffer_bytes config" using k co(2) by linarith
  from set_output_steady [OF ok f(2) this, of fd] k f(1) Some show ?thesis by (simp add: flush_output_def)
qed

lemma flush_outputs_once_returns:
  assumes law: "socket_laws sk opened sent busy"
  shows "gateway_ok config g \<Longrightarrow>
    \<exists>s' g'. flush_outputs_once sk fds g s = Some (s', g') \<and> steady config g g' \<and> quiet opened busy s s'"
proof (induction fds arbitrary: g s)
  case (Cons fd fds)
  from flush_output_returns [OF law Cons.prems, of fd s] obtain s1 g1 where
    1: "flush_output sk fd g s = Some (s1, g1)" "steady config g g1" "quiet opened busy s s1" by blast
  from Cons.IH [OF steady_ok [OF 1(2)], of s1] obtain s2 g2 where
    2: "flush_outputs_once sk fds g1 s1 = Some (s2, g2)" "steady config g1 g2" "quiet opened busy s1 s2" by blast
  have "\<exists>s' g'. flush_outputs_once sk fds g1 s1 = Some (s', g') \<and> steady config g g' \<and> quiet opened busy s s'"
    using 2 steady_trans [OF 1(2)] quiet_trans [OF 1(3)] by blast
  with 1(1) Cons.IH [OF Cons.prems, of s] show ?case by (simp split: option.split)
qed (simp add: steady_refl)

section \<open>Responses and retained requests\<close>

lemma queue_response_steady:
  assumes ok: "gateway_ok config g"
  shows "steady config g (queue_response fd response g)"
  unfolding queue_response_def
proof (rule update_connection_steady [OF ok])
  fix c assume c: "connection_ok config c"
  have cfg: "gw_config g = config" using ok by (simp add: gateway_ok_def)
  show "connection_ok config (case encode_server_frame response of
         Inr bytes \<Rightarrow>
           (case output_append (con_output c) bytes (cfg_maximum_output_buffer_bytes (gw_config g)) of
              (output, True) \<Rightarrow> c\<lparr>con_output := output\<rparr>
            | (output, False) \<Rightarrow> c\<lparr>con_output := output_clear output, con_closing := True\<rparr>)
       | Inl _ \<Rightarrow> c\<lparr>con_output := output_clear (con_output c), con_closing := True\<rparr>) \<and>
     con_id (case encode_server_frame response of
         Inr bytes \<Rightarrow>
           (case output_append (con_output c) bytes (cfg_maximum_output_buffer_bytes (gw_config g)) of
              (output, True) \<Rightarrow> c\<lparr>con_output := output\<rparr>
            | (output, False) \<Rightarrow> c\<lparr>con_output := output_clear output, con_closing := True\<rparr>)
       | Inl _ \<Rightarrow> c\<lparr>con_output := output_clear (con_output c), con_closing := True\<rparr>) = con_id c"
  proof (cases "encode_server_frame response")
    case (Inl e)
    with c show ?thesis by (simp add: connection_ok_def)
  next
    case (Inr bytes)
    obtain b accepted where a: "output_append (con_output c) bytes (cfg_maximum_output_buffer_bytes config) = (b, accepted)"
      by (cases "output_append (con_output c) bytes (cfg_maximum_output_buffer_bytes config)")
    have "output_ok (con_output c)" using c by (simp add: connection_ok_def)
    from output_append_pending [OF this a] c a Inr cfg show ?thesis by (cases accepted) (simp_all add: connection_ok_def)
  qed
qed

lemma deliver_completion_steady:
  assumes "gateway_ok config g"
  shows "steady config g (deliver_completion response g)"
  using steady_refl [OF assms] queue_response_steady [OF assms]
  by (auto simp: deliver_completion_def split: option.split intro!: update_connection_steady [OF assms])
     (simp_all add: connection_ok_def)

lemma drain_completions_steady:
  "gateway_ok config g \<Longrightarrow> drain_completions_loop sh g cs = Done (sh', g') \<Longrightarrow> steady config g g'"
proof (induction cs arbitrary: sh g)
  case (Cons c cs)
  from Cons.prems(2) obtain limiter where
    "drain_completions_loop (sh\<lparr>sh_responses := fst (try_pop (sh_responses sh)), sh_limiter := limiter\<rparr>)
       (deliver_completion (cmp_response c) g) cs = Done (sh', g')" by (auto simp: Let_def obind_eq_Done)
  from Cons.IH [OF _ this] deliver_completion_steady [OF Cons.prems(1), of "cmp_response c"] show ?case
    by (auto intro: steady_trans dest: steady_ok)
qed (simp add: steady_refl)

lemma drain_pending_steady:
  assumes ok: "gateway_ok config g" and d: "drain_pending_requests sh g = Done (sh', g')"
  shows "steady config g g'"
proof -
  have kept: "steady config g (g\<lparr>gw_pending := ps, gw_reads_paused := b\<rparr>)" if "length ps \<le> kMaximumPendingRequests" for ps b
    using that by (intro steady_same [OF ok]) simp_all
  have "steady config g g'" if "drain_pending_loop sh g ps = Done (sh', g')" "length ps \<le> kMaximumPendingRequests" for ps
    using that
  proof (induction ps arbitrary: sh)
    case Nil
    then show ?case using kept [of "[]" False] by auto
  next
    case (Cons p ps)
    have IH: "steady config g g'" if "drain_pending_loop sh1 g ps = Done (sh', g')" for sh1
      using Cons.IH [OF that] Cons.prems(2) by simp
    from Cons.prems show ?case using kept [of "p # ps" True]
      by (auto simp: obind_eq_Done split: option.splits if_splits intro: IH)
  qed
  from this [of "gw_pending g"] d pending_bounded [OF ok] steady_refl [OF ok] show ?thesis
    by (auto simp: drain_pending_requests_def split: if_splits)
qed

section \<open>Opening and closing\<close>

definition holds :: "ServerConfig \<Rightarrow> ('s \<Rightarrow> int set) \<Rightarrow> int set \<Rightarrow> Gateway \<Rightarrow> 's \<Rightarrow> bool" where
  "holds config opened others g s \<longleftrightarrow> gateway_ok config g \<and> owns opened others g s"

lemma holds_steady: "holds config opened others g s \<Longrightarrow> steady config g g' \<Longrightarrow> quiet opened busy s s' \<Longrightarrow> holds config opened others g' s'"
  by (auto simp: holds_def quiet_def intro: owns_steady steady_ok)

text \<open>A descriptor of the gateway that is closed and given up.\<close>

lemma holds_give_up:
  assumes law: "socket_laws sk opened sent busy" and h: "holds config opened others g s"
    and fd: "fd \<in> set (descriptors g)" and g': "gateway_ok config g'" "set (descriptors g') = set (descriptors g) - {fd}"
  shows "holds config opened others g' (close_socket sk fd s)"
proof -
  have "gateway_ok config g" "fd \<notin> others" using h fd by (auto simp: holds_def owns_def)
  moreover from gateway_okD(8) [OF this(1) fd] have "0 \<le> fd" .
  ultimately show ?thesis using h g' close_effect(1) [OF law, of fd s] by (auto simp: holds_def owns_def)
qed

lemma close_if_finished_holds:
  assumes law: "socket_laws sk opened sent busy" and h: "holds config opened others g s" and c: "close_if_finished sk fd g s = (s', g')"
  shows "holds config opened others g' s' \<and> busy s' \<le> busy s"
proof (cases "g' = g \<and> s' = s")
  case False
  let ?g = "g\<lparr>gw_connections := filter (\<lambda>(d, c). d \<noteq> fd) (gw_connections g)\<rparr>"
  from False c obtain x where x: "map_of (gw_connections g) fd = Some x" "g' = ?g" "s' = close_socket sk fd s"
    by (auto simp: close_if_finished_def split: option.splits if_splits)
  have ok: "gateway_ok config g" using h by (simp add: holds_def)
  have fd: "fd \<in> set (map fst (gw_connections g))" using map_of_SomeD [OF x(1)] by force
  then have fd': "fd \<in> set (descriptors g)" by (simp add: descriptors_def)
  have rest: "map fst (filter (\<lambda>(d, c). d \<noteq> fd) cs) = filter (\<lambda>d. d \<noteq> fd) (map fst cs)" for cs :: "(int \<times> Connection) list"
    by (induction cs) auto
  have ds: "descriptors ?g = filter (\<lambda>d. d \<noteq> fd) (descriptors g)"
    using fd gateway_okD(7) [OF ok] unfolding descriptors_def by (auto simp: rest)
  have ids: "set (connection_ids ?g) \<subseteq> set (connection_ids g)" "distinct (connection_ids ?g)"
    using gateway_okD(5) [OF ok] unfolding connection_ids_def by (auto simp: distinct_map_filter)
  have "length (filter (\<lambda>(d, c). d \<noteq> fd) (gw_connections g)) \<le> cfg_maximum_connections config"
    using length_filter_le gateway_okD(2) [OF ok] by (rule order_trans)
  then have "gateway_ok config ?g"
    using gateway_okD [OF ok] ids ds by (intro gateway_okI) (simp_all add: subset_iff, blast)
  from holds_give_up [OF law h fd' this] ds x close_effect(2) [OF law gateway_okD(8) [OF ok fd']] show ?thesis by auto
qed (use h in simp)

lemma begin_shutdown_holds:
  assumes law: "socket_laws sk opened sent busy" and h: "holds config opened others g s"
    and b: "begin_shutdown_if_requested sk sh g s = (s', sh', g')"
  shows "holds config opened others g' s'"
proof (cases "\<not> sh_stop_requested sh \<or> gw_shutdown_started g")
  case True
  with b h show ?thesis by (auto simp: begin_shutdown_if_requested_def)
next
  case False
  let ?g = "g\<lparr>gw_shutdown_started := True, gw_listener := - 1, gw_pending := []\<rparr>"
  from False b have x: "g' = ?g" "s' = close_socket sk (gw_listener g) s" by (auto simp: begin_shutdown_if_requested_def)
  have ok: "gateway_ok config g" using h by (simp add: holds_def)
  have ds: "distinct (descriptors g)" by (rule gateway_okD(7) [OF ok])
  have eq: "descriptors ?g = map fst (gw_connections g) @ [gw_wakeup g]" "connection_ids ?g = connection_ids g"
    by (simp_all add: descriptors_def connection_ids_def)
  have sub: "set (descriptors ?g) \<subseteq> set (descriptors g)" "distinct (descriptors ?g)"
    unfolding eq using ds by (auto simp: descriptors_def split: if_splits)
  then have ok': "gateway_ok config ?g"
    using gateway_okD [OF ok] eq(2) by (intro gateway_okI) (simp_all add: subset_iff)
  show ?thesis
  proof (cases "gw_listener g \<ge> 0")
    case True
    have "set (descriptors ?g) = set (descriptors g) - {gw_listener g}" unfolding eq using True ds by (auto simp: descriptors_def)
    with holds_give_up [OF law h _ ok', of "gw_listener g"] True x show ?thesis by (simp add: descriptors_def)
  next
    case False
    then have "descriptors ?g = descriptors g" unfolding eq by (simp add: descriptors_def)
    with h ok' False x show ?thesis by (simp add: holds_def owns_def close_socket_def)
  qed
qed

text \<open>A connection that is accepted: its descriptor is new and its id the next one.\<close>

lemma add_connection_holds:
  assumes ok: "gateway_ok config g" and fd: "0 \<le> fd" "fd \<notin> set (descriptors g)"
    and room: "length (gw_connections g) < cfg_maximum_connections config" "gw_next_connection_id g \<noteq> 0"
    and g': "g' = g\<lparr>gw_next_connection_id := gw_next_connection_id g + 1,
      gw_connections := gw_connections g @ [(fd, new_connection (ConnectionId (gw_next_connection_id g)) (cfg_maximum_input_buffer_bytes config))]\<rparr>"
  shows "gateway_ok config g'" "set (descriptors g') = insert fd (set (descriptors g))"
proof -
  let ?n = "gw_next_connection_id g"
  have later: "?n + 1 = 0 \<or> i < ?n + 1" if "i \<le> ?n" for i
    using that unatSuc [of ?n] by (cases "1 + ?n = 0") (simp_all add: word_less_nat_alt word_le_nat_alt add.commute)
  have ids: "connection_ids g' = connection_ids g @ [?n]" by (simp add: g' connection_ids_def new_connection_def)
  have ds: "set (descriptors g') = insert fd (set (descriptors g))" "distinct (descriptors g')"
    using gateway_okD(7) [OF ok] fd(2) by (auto simp: g' descriptors_def split: if_splits)
  have new: "connection_ok config (new_connection (ConnectionId ?n) (cfg_maximum_input_buffer_bytes config))"
    by (simp add: connection_ok_def new_connection_def new_parser_ok)
  have g'_simps: "gw_next_connection_id g' = ?n + 1" "gw_config g' = gw_config g" "gw_pending g' = gw_pending g"
    "gw_connections g' = gw_connections g @ [(fd, new_connection (ConnectionId ?n) (cfg_maximum_input_buffer_bytes config))]"
    by (simp_all add: g')
  have id: "i \<noteq> 0 \<and> (?n + 1 = 0 \<or> i < ?n + 1)" if "i \<in> set (connection_ids g')" for i
  proof (cases "i = ?n")
    case True
    with room(2) later [of i] show ?thesis by simp
  next
    case False
    with that gateway_okD(6) [OF ok, of i] room(2) have "i \<noteq> 0" "i < ?n" by (auto simp: ids)
    with later [of i] show ?thesis by simp
  qed
  have co: "connection_ok config c" if "(d, c) \<in> set (gw_connections g')" for d c
    using that gateway_okD(4) [OF ok, of d c] new by (auto simp: g'_simps)
  show "gateway_ok config g'"
  proof (rule gateway_okI)
    show "distinct (connection_ids g')" using gateway_okD(5) [OF ok] gateway_okD(6) [OF ok, of ?n] room(2) by (auto simp: ids)
    show "0 \<le> d" if "d \<in> set (descriptors g')" for d using that ds(1) fd(1) gateway_okD(8) [OF ok, of d] by auto
  qed (use gateway_okD(1-3) [OF ok] room(1) ds(2) co id in \<open>simp_all add: g'_simps\<close>)
  show "set (descriptors g') = insert fd (set (descriptors g))" by (rule ds(1))
qed

lemma accept_connections_returns:
  assumes law: "socket_laws sk opened sent busy" and "holds config opened others g s"
  shows "\<exists>s' g'. accept_connections sk g s = Some (s', g') \<and> holds config opened others g' s' \<and> gw_listener g' = gw_listener g"
  using assms(2)
proof (induction "busy s" arbitrary: s g rule: less_induct)
  case less
  obtain s1 r where a: "sk_accept sk (gw_listener g) s = (s1, r)" by (cases "sk_accept sk (gw_listener g) s")
  have "open_close_law sk opened busy" using law by (simp add: socket_laws_def)
  note acc = conjunct1 [OF this [unfolded open_close_law_def], rule_format, OF a]
  have ok: "gateway_ok config g" using less.prems by (simp add: holds_def)
  show ?case
  proof (cases r)
    case (Inl e)
    then have h: "holds config opened others g s1" using holds_steady [OF less.prems steady_refl [OF ok], of busy s1] acc by simp
    show ?thesis
    proof (cases "e = EINTR")
      case True
      with less.hyps [OF _ h] acc Inl show ?thesis by (subst accept_connections.simps) (simp add: a)
    next
      case False
      with h Inl show ?thesis by (subst accept_connections.simps) (simp add: a)
    qed
  next
    case (Inr d)
    with acc have d: "0 \<le> d" "d \<notin> opened s" "opened s1 = insert d (opened s)" "busy s1 < busy s" by simp_all
    have others: "d \<notin> others" "d \<notin> set (descriptors g)" using d(2) less.prems by (auto simp: holds_def owns_def)
    have refuse: "\<exists>s' g'. accept_connections sk g (close_socket sk d s2) = Some (s', g') \<and> holds config opened others g' s' \<and>
        gw_listener g' = gw_listener g" if "quiet opened busy s1 s2" for s2
    proof (rule less.hyps)
      show "busy (close_socket sk d s2) < busy s"
        using close_effect(2) [OF law d(1), of s2] that d(4) by (simp add: quiet_def)
      show "holds config opened others g (close_socket sk d s2)"
        using less.prems close_effect(1) [OF law d(1), of s2] that d(2,3) by (auto simp: holds_def owns_def quiet_def)
    qed
    obtain s2 n where n: "set_nonblocking sk d s1 = (s2, n)" by (cases "set_nonblocking sk d s1")
    obtain s3 x where x: "set_close_on_exec sk d s2 = (s3, x)" by (cases "set_close_on_exec sk d s2")
    have q2: "quiet opened busy s1 s2" using flags_quiet(1) [OF law, of s1 d] n by simp
    have q3: "quiet opened busy s1 s3" using quiet_trans [OF q2] flags_quiet(2) [OF law, of s2 d] x by simp
    show ?thesis
    proof (cases "length (gw_connections g) \<ge> cfg_maximum_connections config \<or> gw_next_connection_id g = 0 \<or> n \<noteq> None \<or> x \<noteq> None")
      case True
      with refuse [OF quiet_refl] refuse [OF q2] refuse [OF q3] show ?thesis
        by (subst accept_connections.simps) (auto simp: a Inr n x gateway_okD(1) [OF ok] split: option.split)
    next
      case False
      define g2 where "g2 = g\<lparr>gw_next_connection_id := gw_next_connection_id g + 1,
        gw_connections := gw_connections g @ [(d, new_connection (ConnectionId (gw_next_connection_id g)) (cfg_maximum_input_buffer_bytes config))]\<rparr>"
      note add = add_connection_holds [OF ok d(1) others(2) _ _ g2_def]
      have "busy s3 < busy s" using q3 d(4) by (simp add: quiet_def)
      moreover have "holds config opened others g2 s3"
        using False add less.prems others q3 d(3) by (auto simp: holds_def owns_def quiet_def)
      ultimately have "\<exists>s' g'. accept_connections sk g2 s3 = Some (s', g') \<and> holds config opened others g' s' \<and> gw_listener g' = gw_listener g2"
        by (rule less.hyps)
      moreover have "accept_connections sk g s = accept_connections sk g2 s3"
        using False by (subst accept_connections.simps) (simp add: a Inr n x gateway_okD(1) [OF ok] g2_def)
      ultimately show ?thesis by (simp add: g2_def)
    qed
  qed
qed

section \<open>A turn of the event loop\<close>

lemma serve_clients_returns:
  assumes law: "socket_laws sk opened sent busy"
  shows "holds config opened others g s \<Longrightarrow>
    \<exists>s' sh' g'. serve_clients sk clients sh g s = Some (s', Done (sh', g')) \<and> holds config opened others g' s'"
proof (induction clients arbitrary: sh g s)
  case (Cons client clients)
  obtain fd events where cl: "client = (fd, events)" by (cases client)
  have ok: "gateway_ok config g" using Cons.prems by (simp add: holds_def)
  show ?case
  proof (cases "map_of (gw_connections g) fd = None")
    case True
    with Cons.IH [OF Cons.prems] cl show ?thesis by simp
  next
    case False
    then have fd: "fd \<in> set (map fst (gw_connections g))" by (simp add: map_of_eq_None_iff)
    have "\<exists>s1 sh1 g1. (if poll_in events then receive_from sk fd sh g s else Some (s, Done (sh, g))) = Some (s1, Done (sh1, g1)) \<and>
        steady config g g1 \<and> quiet opened busy s s1"
      using receive_from_returns [OF law ok fd, of sh s] steady_refl [OF ok] by simp
    then obtain s1 sh1 g1 where
      1: "(if poll_in events then receive_from sk fd sh g s else Some (s, Done (sh, g))) = Some (s1, Done (sh1, g1))"
        "steady config g g1" "quiet opened busy s s1" by blast
    have "\<exists>s2 g2. (if poll_out events then flush_output sk fd g1 s1 else Some (s1, g1)) = Some (s2, g2) \<and>
        steady config g1 g2 \<and> quiet opened busy s1 s2"
      using flush_output_returns [OF law steady_ok [OF 1(2)], of fd s1] steady_refl [OF steady_ok [OF 1(2)]] by simp
    then obtain s2 g2 where
      2: "(if poll_out events then flush_output sk fd g1 s1 else Some (s1, g1)) = Some (s2, g2)"
        "steady config g1 g2" "quiet opened busy s1 s2" by blast
    define g3 where "g3 = (if poll_error events then update_connection fd (\<lambda>c. c\<lparr>con_closing := True\<rparr>) g2 else g2)"
    have "steady config g2 g3"
      using close_connection_steady [OF steady_ok [OF 2(2)]] steady_refl [OF steady_ok [OF 2(2)]] by (simp add: g3_def)
    then have "holds config opened others g3 s2"
      using holds_steady [OF Cons.prems _ quiet_trans [OF 1(3) 2(3)]] steady_trans 1(2) 2(2) by blast
    moreover obtain s4 g4 where 4: "close_if_finished sk fd g3 s2 = (s4, g4)" by (cases "close_if_finished sk fd g3 s2")
    ultimately have "holds config opened others g4 s4" using close_if_finished_holds [OF law] by blast
    from Cons.IH [OF this, of sh1] 1(1) 2(1) 4 False cl show ?thesis by (auto simp: g3_def Let_def)
  qed
qed simp

text \<open>The two loops at the head of a turn, and after a wake-up.\<close>

lemma drain_holds:
  assumes "holds config opened others g s" "obind (drain_engine_completions sh g) (\<lambda>(sh, g). drain_pending_requests sh g) = Done (sh', g')"
  shows "holds config opened others g' s"
proof -
  from assms(2) obtain sh1 g1 where "drain_engine_completions sh g = Done (sh1, g1)" "drain_pending_requests sh1 g1 = Done (sh', g')"
    by (auto simp: obind_eq_Done)
  moreover have "gateway_ok config g" using assms(1) by (simp add: holds_def)
  ultimately have "steady config g g'"
    using drain_completions_steady [of config g] drain_pending_steady steady_trans steady_ok by (metis drain_engine_completions_def)
  from holds_steady [OF assms(1) this quiet_refl] show ?thesis .
qed

lemma turn_before_poll_returns:
  assumes law: "socket_laws sk opened sent busy" and h: "holds config opened others g s"
  shows "\<exists>s' r. turn_before_poll sk sh g s = Some (s', r) \<and>
    (\<forall>sh' g' ends. r = Done (sh', g', ends) \<longrightarrow> holds config opened others g' s')"
proof -
  obtain s1 sh1 g1 where b: "begin_shutdown_if_requested sk sh g s = (s1, sh1, g1)" by (cases "begin_shutdown_if_requested sk sh g s")
  have h1: "holds config opened others g1 s1" by (rule begin_shutdown_holds [OF law h b])
  show ?thesis
  proof (cases "obind (drain_engine_completions sh1 g1) (\<lambda>(sh, g). drain_pending_requests sh g)")
    case (Done x)
    obtain sh2 g2 where x: "x = (sh2, g2)" by (cases x)
    have h2: "holds config opened others g2 s1" by (rule drain_holds [OF h1 Done [unfolded x]])
    then have "gateway_ok config g2" by (simp add: holds_def)
    from flush_outputs_once_returns [OF law this, of "map fst (gw_connections g2)" s1] obtain s3 g3 where
      f: "flush_outputs_once sk (map fst (gw_connections g2)) g2 s1 = Some (s3, g3)" "steady config g2 g3" "quiet opened busy s1 s3" by blast
    from holds_steady [OF h2 f(2,3)] h2 f(1) show ?thesis
      by (cases "shutdown_complete sh2 g2") (simp_all add: turn_before_poll_def b Done x)
  qed (simp_all add: turn_before_poll_def b)
qed

lemma turn_after_poll_returns:
  assumes law: "socket_laws sk opened sent busy" and h: "holds config opened others g s"
  shows "\<exists>s' r. turn_after_poll sk woken listener_events clients sh g s = Some (s', r) \<and>
    (\<forall>sh' g'. r = Done (sh', g') \<longrightarrow> holds config opened others g' s')"
proof -
  obtain s1 r1 where w: "(if woken
            then case begin_shutdown_if_requested sk sh g s of
                (s, sh, g) \<Rightarrow> (s, obind (drain_engine_completions sh g) (\<lambda>(sh, g). drain_pending_requests sh g))
            else (s, Done (sh, g))) = (s1, r1)" by (rule prod.exhaust)
  have h1: "holds config opened others g1 s1" if "r1 = Done (sh1, g1)" for sh1 g1
  proof (cases woken)
    case True
    obtain s0 sh0 g0 where b: "begin_shutdown_if_requested sk sh g s = (s0, sh0, g0)" by (cases "begin_shutdown_if_requested sk sh g s")
    from begin_shutdown_holds [OF law h b] drain_holds [of config opened others g0 s0 sh0 sh1 g1] w b True that show ?thesis by auto
  qed (use w h that in auto)
  show ?thesis
  proof (cases r1)
    case (Done x)
    obtain sh1 g1 where x: "x = (sh1, g1)" by (cases x)
    note g1 = h1 [OF Done [unfolded x]]
    have "\<exists>s2 g2. (if gw_listener g1 \<ge> 0 \<and> poll_in listener_events \<and> \<not> gw_shutdown_started g1
           then accept_connections sk g1 s1 else Some (s1, g1)) = Some (s2, g2) \<and> holds config opened others g2 s2"
      using accept_connections_returns [OF law g1] g1 by auto
    then obtain s2 g2 where
      a: "(if gw_listener g1 \<ge> 0 \<and> poll_in listener_events \<and> \<not> gw_shutdown_started g1
           then accept_connections sk g1 s1 else Some (s1, g1)) = Some (s2, g2)" "holds config opened others g2 s2" by blast
    have "\<exists>s' r. serve_clients sk clients sh2 g2 s2 = Some (s', r) \<and>
        (\<forall>sh' g'. r = Done (sh', g') \<longrightarrow> holds config opened others g' s')" for sh2
      using serve_clients_returns [OF law a(2), of clients sh2] by fastforce
    then show ?thesis unfolding turn_after_poll_def w Done x by (simp add: a(1))
  qed (simp_all add: turn_after_poll_def w)
qed

section \<open>Creation and destruction\<close>

lemma call_opened:
  assumes "socket_laws sk opened sent busy"
  shows "sk_socket sk s = (s', r) \<Longrightarrow> case r of Inr d \<Rightarrow> 0 \<le> d \<and> d \<notin> opened s \<and> opened s' = insert d (opened s) | Inl e \<Rightarrow> opened s' = opened s"
    "sk_eventfd sk s = (s', r) \<Longrightarrow> case r of Inr d \<Rightarrow> 0 \<le> d \<and> d \<notin> opened s \<and> opened s' = insert d (opened s) | Inl e \<Rightarrow> opened s' = opened s"
    "sk_reuse_address sk fd s = (s', x) \<Longrightarrow> opened s' = opened s" "sk_bind sk fd address port s = (s', x) \<Longrightarrow> opened s' = opened s"
    "sk_listen sk fd backlog s = (s', x) \<Longrightarrow> opened s' = opened s" "set_nonblocking sk fd s = (s', x) \<Longrightarrow> opened s' = opened s"
    "set_close_on_exec sk fd s = (s', x) \<Longrightarrow> opened s' = opened s"
proof -
  have law: "open_close_law sk opened busy" "option_law sk opened busy" using assms by (simp_all add: socket_laws_def)
  note create = conjunct1 [OF conjunct2 [OF law(1) [unfolded open_close_law_def]], rule_format]
  show "sk_socket sk s = (s', r) \<Longrightarrow> case r of Inr d \<Rightarrow> 0 \<le> d \<and> d \<notin> opened s \<and> opened s' = insert d (opened s) | Inl e \<Rightarrow> opened s' = opened s"
    "sk_eventfd sk s = (s', r) \<Longrightarrow> case r of Inr d \<Rightarrow> 0 \<le> d \<and> d \<notin> opened s \<and> opened s' = insert d (opened s) | Inl e \<Rightarrow> opened s' = opened s"
    using create [of "sk_socket sk" s s' r] create [of "sk_eventfd sk" s s' r] by simp_all
  show "set_nonblocking sk fd s = (s', x) \<Longrightarrow> opened s' = opened s" "set_close_on_exec sk fd s = (s', x) \<Longrightarrow> opened s' = opened s"
    using flags_quiet [OF assms, of s fd] by (simp_all add: quiet_def)
  show "sk_reuse_address sk fd s = (s', x) \<Longrightarrow> opened s' = opened s" "sk_bind sk fd address port s = (s', x) \<Longrightarrow> opened s' = opened s"
    "sk_listen sk fd backlog s = (s', x) \<Longrightarrow> opened s' = opened s"
    using law(2) by (metis option_law_def fst_conv)+
qed

lemma new_gateway_ok:
  assumes "0 \<le> listener" "0 \<le> wakeup" "listener \<noteq> wakeup"
  shows "gateway_ok config (new_gateway config listener wakeup port)"
  using assms by (intro gateway_okI) (auto simp: new_gateway_def connection_ids_def descriptors_def)

lemma gateway_create_effect:
  assumes law: "socket_laws sk opened sent busy" and "gateway_create sk config s = (s', r)"
  shows "case r of Inl e \<Rightarrow> opened s' = opened s | Inr g \<Rightarrow> holds config opened (opened s) g s'"
proof (cases "valid_gateway_config config \<and> sk_inet_pton sk (cfg_bind_address config) \<noteq> None \<and> (\<exists>s1 l. sk_socket sk s = (s1, Inr l))")
  case True
  then obtain address s1 listener where start: "valid_gateway_config config" "sk_inet_pton sk (cfg_bind_address config) = Some address"
    "sk_socket sk s = (s1, Inr listener)" by blast
  have l: "0 \<le> listener" "listener \<notin> opened s" "opened s1 = insert listener (opened s)" using call_opened(1) [OF law start(3)] by simp_all
  have restored: "opened (close_socket sk listener s2) = opened s" if "opened s2 = opened s1" for s2
    using close_effect(1) [OF law l(1), of s2] that l(2,3) by auto
  have made: "holds config opened (opened s) (new_gateway config listener wakeup port) s3"
    if "0 \<le> wakeup" "wakeup \<notin> opened s1" "opened s3 = insert wakeup (opened s1)" for s3 wakeup port
    using that l new_gateway_ok [of listener wakeup config port]
    by (auto simp: holds_def owns_def descriptors_def new_gateway_def)
  from assms(2) show ?thesis unfolding gateway_create_def
    by (auto simp: start restored split: option.splits sum.splits prod.splits if_splits
        dest!: call_opened [OF law] intro: made)
next
  case False
  with assms(2) show ?thesis
    by (auto simp: gateway_create_def split: option.splits sum.splits prod.splits if_splits dest!: call_opened(1) [OF law])
qed

text \<open>The connections are closed one by one.\<close>

lemma close_each:
  assumes law: "socket_laws sk opened sent busy"
  shows "\<forall>d \<in> set (map fst cs). 0 \<le> d \<Longrightarrow>
    opened (fold (\<lambda>(d, c). close_socket sk d) cs s) = opened s - set (map fst cs)"
proof (induction cs arbitrary: s)
  case (Cons dc cs)
  obtain d c where "dc = (d, c)" by (cases dc)
  with Cons close_effect(1) [OF law, of d s] show ?case by auto
qed simp

lemma close_all_connections_opened:
  assumes law: "socket_laws sk opened sent busy" and ok: "gateway_ok config g"
    and c: "close_all_connections sk g s = (s', g')"
  shows "g' = g\<lparr>gw_connections := []\<rparr> \<and> opened s' = opened s - set (map fst (gw_connections g))"
proof -
  have "\<forall>d \<in> set (map fst (gw_connections g)). 0 \<le> d"
  proof
    show "0 \<le> d" if "d \<in> set (map fst (gw_connections g))" for d
      by (rule gateway_okD(8) [OF ok]) (use that in \<open>simp add: descriptors_def\<close>)
  qed
  from close_each [OF law this, of s] c show ?thesis by (auto simp: close_all_connections_def)
qed

lemma close_socket_opened:
  "socket_laws sk opened sent busy \<Longrightarrow> opened (close_socket sk fd s) = opened s - (if 0 \<le> fd then {fd} else {})"
  using close_effect(1) [of sk opened sent busy fd s] by (simp add: close_socket_def)

text \<open>Giving up the listener, with or without the connections.\<close>

lemma give_up_ok:
  assumes ok: "gateway_ok config g" and g': "gw_listener g' = - 1" "gw_wakeup g' = gw_wakeup g" "gw_config g' = gw_config g"
    "gw_pending g' = gw_pending g" "gw_next_connection_id g' = gw_next_connection_id g"
    "gw_connections g' = gw_connections g \<or> gw_connections g' = []"
  shows "gateway_ok config g'"
proof (rule gateway_okI)
  have ids: "connection_ids g' = connection_ids g \<or> connection_ids g' = []" using g'(6) by (auto simp: connection_ids_def)
  have ds: "set (descriptors g') \<subseteq> set (descriptors g)" using g' by (auto simp: descriptors_def)
  show "distinct (descriptors g')" using gateway_okD(7) [OF ok] g' by (auto simp: descriptors_def)
  show "0 \<le> d" if "d \<in> set (descriptors g')" for d using that ds gateway_okD(8) [OF ok, of d] by blast
  show "distinct (connection_ids g')" using ids gateway_okD(5) [OF ok] by auto
  show "i \<noteq> 0 \<and> (gw_next_connection_id g' = 0 \<or> i < gw_next_connection_id g')" if "i \<in> set (connection_ids g')" for i
    using that ids gateway_okD(6) [OF ok, of i] g'(5) by auto
  show "connection_ok config c" if "(d, c) \<in> set (gw_connections g')" for d c
    using that g'(6) gateway_okD(4) [OF ok, of d c] by auto
qed (use gateway_okD(1-3) [OF ok] g' in auto)

lemma finish_run_holds:
  assumes law: "socket_laws sk opened sent busy" and h: "holds config opened others g s" and f: "finish_run sk g s = (s', g')"
  shows "holds config opened others g' s'"
proof -
  let ?g = "g\<lparr>gw_listener := - 1, gw_connections := []\<rparr>"
  have ok: "gateway_ok config g" and own: "owns opened others g s" using h by (simp_all add: holds_def)
  note ok1 = give_up_ok [OF ok, of "g\<lparr>gw_listener := - 1\<rparr>", simplified]
    and ok2 = give_up_ok [OF ok, of ?g, simplified]
  from close_all_connections_opened [OF law ok1 f [unfolded finish_run_def]] close_socket_opened [OF law]
  have g': "g' = ?g" and "opened s' = opened s - (if 0 \<le> gw_listener g then {gw_listener g} else {}) - set (map fst (gw_connections g))"
    by simp_all
  with own gateway_okD(7) [OF ok] have "owns opened others ?g s'"
    by (auto simp: owns_def descriptors_def split: if_splits)
  with ok2 g' show ?thesis by (simp add: holds_def)
qed

lemma gateway_destroy_opened:
  assumes law: "socket_laws sk opened sent busy" and h: "holds config opened others g s"
  shows "opened (gateway_destroy sk g s) = others"
proof -
  have ok: "gateway_ok config g" and own: "owns opened others g s" using h by (simp_all add: holds_def)
  obtain s' g' where c: "close_all_connections sk g s = (s', g')" by (cases "close_all_connections sk g s")
  from close_all_connections_opened [OF law ok c] own gateway_okD(8) [OF ok, of "gw_wakeup g"] show ?thesis
    by (auto simp: gateway_destroy_def c close_socket_opened [OF law] owns_def descriptors_def split: if_splits)
qed

section \<open>The life of a gateway\<close>

text \<open>
  A gateway as the thread of \<open>run\<close> sees it: turns of the event loop, with whatever the other threads
  have left in the queues and whatever \<open>poll\<close> reports, and, between its calls, whatever the system does
  without opening or closing a descriptor.
\<close>

inductive gateway_life :: "'s sockets \<Rightarrow> ('s \<Rightarrow> int set) \<Rightarrow> ServerConfig \<Rightarrow> 's \<Rightarrow> 's \<Rightarrow> Gateway \<Rightarrow> bool"
  for sk opened config s0 where
  created: "gateway_life sk opened config s0 s g" if "gateway_create sk config s0 = (s, Inr g)"
| elsewhere: "gateway_life sk opened config s0 s' g" if "gateway_life sk opened config s0 s g" "opened s' = opened s"
| before_poll: "gateway_life sk opened config s0 s' g'"
    if "gateway_life sk opened config s0 s g" "turn_before_poll sk sh g s = Some (s', Done (sh', g', ends))"
| after_poll: "gateway_life sk opened config s0 s' g'"
    if "gateway_life sk opened config s0 s g"
      "turn_after_poll sk woken listener_events clients sh g s = Some (s', Done (sh', g'))"
| run_finished: "gateway_life sk opened config s0 s' g'"
    if "gateway_life sk opened config s0 s g" "finish_run sk g s = (s', g')"

lemma gateway_life_holds:
  assumes law: "socket_laws sk opened sent busy" and "gateway_life sk opened config s0 s g"
  shows "holds config opened (opened s0) g s"
  using assms(2)
proof induction
  case (created s g)
  with gateway_create_effect [OF law, of config s0 s "Inr g"] show ?case by simp
next
  case (elsewhere s g s')
  then show ?case by (simp add: holds_def owns_def)
next
  case (before_poll s g sh s' sh' g' ends)
  with turn_before_poll_returns [OF law before_poll.IH, of sh] show ?case by auto
next
  case (after_poll s g woken listener_events clients sh s' sh' g')
  with turn_after_poll_returns [OF law after_poll.IH, of woken listener_events clients sh] show ?case by auto
next
  case (run_finished s g s' g')
  then show ?case using finish_run_holds [OF law] by blast
qed

text \<open>
  C12. At every moment of the life of a gateway, the descriptors open beyond those that were open before
  it was created are its listener, its eventfd and those of its connections, all distinct; there are at most as many
  connections as configured, and at most the maximal number of retained requests; each connection has
  an id of its own, never zero, and buffers no more input and output than configured; and destroying the
  gateway at that moment closes all its descriptors and no other.
\<close>
theorem gateway_owns_descriptors:
  assumes "socket_laws sk opened sent busy" "gateway_life sk opened config s0 s g"
  shows "opened s = opened s0 \<union> set (descriptors g) \<and> opened s0 \<inter> set (descriptors g) = {} \<and> distinct (descriptors g) \<and>
    length (gw_connections g) \<le> cfg_maximum_connections config \<and> length (gw_pending g) \<le> kMaximumPendingRequests \<and>
    distinct (connection_ids g) \<and> 0 \<notin> set (connection_ids g) \<and>
    list_all (\<lambda>(d, c). buffered_size (con_parser c) \<le> cfg_maximum_input_buffer_bytes config \<and>
      length (output_pending (con_output c)) \<le> cfg_maximum_output_buffer_bytes config) (gw_connections g) \<and>
    opened (gateway_destroy sk g s) = opened s0"
proof -
  have h: "holds config opened (opened s0) g s" by (rule gateway_life_holds [OF assms])
  then have ok: "gateway_ok config g" and own: "owns opened (opened s0) g s" by (simp_all add: holds_def)
  have "list_all (\<lambda>(d, c). buffered_size (con_parser c) \<le> cfg_maximum_input_buffer_bytes config \<and>
      length (output_pending (con_output c)) \<le> cfg_maximum_output_buffer_bytes config) (gw_connections g)"
    using gateway_okD(4) [OF ok] by (fastforce simp: list_all_iff connection_ok_def parser_ok_def buffered_size_def pending_def)
  with own gateway_destroy_opened [OF assms(1) h] gateway_okD(2,3,5,7) [OF ok] show ?thesis
    using gateway_okD(6) [OF ok, of 0] by (auto simp: owns_def)
qed



section \<open>Witnesses\<close>

text \<open>
  A system with its open descriptors, what was sent on each, and how many more times a connection or a
  byte arrives; the least unused descriptor above the open ones is the next. One address is known,
  and port 80 cannot be bound.
\<close>

type_synonym small_system = "int list \<times> (int \<Rightarrow> byte list) \<times> nat"

definition fresh :: "int list \<Rightarrow> int" where
  "fresh ds = fold max ds 2 + 1"

definition small_sockets :: "small_system sockets" where
  "small_sockets =
     \<lparr>sk_recv = (\<lambda>fd count (ds, out, n). if n = 0 then ((ds, out, n), Inl EAGAIN) else ((ds, out, n - 1), Inr (take count [77]))),
      sk_send = (\<lambda>fd bytes (ds, out, n). ((ds, out(fd := out fd @ take 3 bytes), n), Inr (min 3 (length bytes)))),
      sk_accept = (\<lambda>fd (ds, out, n). if n = 0 then ((ds, out, n), Inl EAGAIN) else ((fresh ds # ds, out, n - 1), Inr (fresh ds))),
      sk_close = (\<lambda>fd (ds, out, n). (removeAll fd ds, out, n)),
      sk_getfl = (\<lambda>fd s. Inr 2), sk_setfl = (\<lambda>fd flags s. (s, None)),
      sk_getfd = (\<lambda>fd s. Inr 0), sk_setfd = (\<lambda>fd flags s. (s, None)),
      sk_inet_pton = (\<lambda>address. if address = ''127.0.0.1'' then Some 0x7F000001 else None),
      sk_socket = (\<lambda>(ds, out, n). ((fresh ds # ds, out, n), Inr (fresh ds))), sk_reuse_address = (\<lambda>fd s. (s, None)),
      sk_bind = (\<lambda>fd address port s. (s, if port = 80 then Some (OtherErrno 13) else None)),
      sk_listen = (\<lambda>fd backlog s. (s, None)), sk_getsockname = (\<lambda>fd s. Inr 7000),
      sk_eventfd = (\<lambda>(ds, out, n). ((fresh ds # ds, out, n), Inr (fresh ds)))\<rparr>"

lemma fold_max_bound: "x \<le> fold max ds (x :: int) \<and> (\<forall>d \<in> set ds. d \<le> fold max ds x)"
proof (induction ds arbitrary: x)
  case (Cons d ds)
  from Cons [of "max d x"] show ?case by auto
qed simp

lemma fresh_bounds: "3 \<le> fresh ds" "fresh ds \<notin> set ds"
  using fold_max_bound [of 2 ds] by (auto simp: fresh_def)

lemma small_socket_laws: "socket_laws small_sockets (set \<circ> fst) (\<lambda>fd s. fst (snd s) fd) (snd \<circ> snd)"
  unfolding socket_laws_def
proof (intro conjI)
  show "transfer_law small_sockets (set \<circ> fst) (\<lambda>fd s. fst (snd s) fd) (snd \<circ> snd)"
    by (auto simp: transfer_law_def send_law_def small_sockets_def quiet_def min_def split: if_splits)
  show "open_close_law small_sockets (set \<circ> fst) (snd \<circ> snd)"
    using fresh_bounds by (auto simp: open_close_law_def small_sockets_def quiet_def split: if_splits intro: order_trans [of 0 3])
  show "option_law small_sockets (set \<circ> fst) (snd \<circ> snd)"
    by (auto simp: option_law_def small_sockets_def quiet_def)
qed

definition small_config :: "u16 \<Rightarrow> ServerConfig" where
  "small_config port =
     \<lparr>cfg_bind_address = ''127.0.0.1'', cfg_port = port, cfg_maximum_connections = 1,
      cfg_maximum_input_buffer_bytes = 64, cfg_maximum_output_buffer_bytes = 64\<rparr>"

text \<open>A gateway with room for one connection, to which two clients have connected.\<close>

definition small_gateway :: Gateway where
  "small_gateway =
     new_gateway (small_config 0) 3 4 7000
       \<lparr>gw_connections := [(5, new_connection (ConnectionId 1) 64)], gw_next_connection_id := 2\<rparr>"

lemma small_gateway_life:
  "gateway_life small_sockets (set \<circ> fst) (small_config 0) ([0, 1, 2], \<lambda>_. [], 2) ([5, 4, 3, 0, 1, 2], \<lambda>_. [], 0) small_gateway"
proof -
  let ?life = "gateway_life small_sockets (set \<circ> fst) (small_config 0) ([0, 1, 2], \<lambda>_. [], 2)"
  let ?g = "new_gateway (small_config 0) 3 4 7000"
  have "?life ([4, 3, 0, 1, 2], \<lambda>_. [], 2) ?g"
    by (rule created) (simp add: gateway_create_def valid_gateway_config_def small_config_def small_sockets_def fresh_def
        set_nonblocking_def set_close_on_exec_def)
  moreover have "accept_connections small_sockets small_gateway ([5, 4, 3, 0, 1, 2], \<lambda>_. [], 0) =
      Some (([5, 4, 3, 0, 1, 2], \<lambda>_. [], 0), small_gateway)"
    by (subst accept_connections.simps) (simp add: small_sockets_def)
  then have "accept_connections small_sockets small_gateway ([5, 4, 3, 0, 1, 2], \<lambda>_. [], 1) =
      Some (([5, 4, 3, 0, 1, 2], \<lambda>_. [], 0), small_gateway)"
    by (subst accept_connections.simps)
      (simp add: small_sockets_def small_gateway_def small_config_def new_gateway_def fresh_def close_socket_def)
  then have "accept_connections small_sockets ?g ([4, 3, 0, 1, 2], \<lambda>_. [], 2) = Some (([5, 4, 3, 0, 1, 2], \<lambda>_. [], 0), small_gateway)"
    by (subst accept_connections.simps)
      (simp add: small_sockets_def fresh_def new_gateway_def small_gateway_def small_config_def set_nonblocking_def set_close_on_exec_def)
  then have "turn_after_poll small_sockets False \<lparr>poll_in = True, poll_out = False, poll_error = False\<rparr> [] sample_shared ?g
      ([4, 3, 0, 1, 2], \<lambda>_. [], 2) = Some (([5, 4, 3, 0, 1, 2], \<lambda>_. [], 0), Done (sample_shared, small_gateway))"
    by (simp add: turn_after_poll_def new_gateway_def)
  ultimately show ?thesis by (rule after_poll)
qed

theorem gateway_owns_descriptors_witness:
  "gateway_life small_sockets (set \<circ> fst) (small_config 0) ([0, 1, 2], \<lambda>_. [], 2) ([5, 4, 3, 0, 1, 2], \<lambda>_. [], 0) small_gateway \<and>
   set [5, 4, 3, 0, 1, 2] = set [0, 1, 2] \<union> set (descriptors small_gateway) \<and>
   set (fst (gateway_destroy small_sockets small_gateway ([5, 4, 3, 0, 1, 2], \<lambda>_. [], 0))) = {0, 1, 2}"
  using gateway_owns_descriptors [OF small_socket_laws small_gateway_life] small_gateway_life by simp



end
