(* ===== verification/Request_Path.thy ===== *)
theory Request_Path
  imports Exchange_Server Durable_Recovery
begin

text \<open>
  A request on its way through the whole exchange: from the message of the client, through the
  journal command and the matching engine, to the bytes that answer it. The engine is represented by
  the abstract book, which \<open>Durable_Recovery\<close> shows it to follow.
\<close>

section \<open>Answers\<close>

text \<open>What the message of the server has to tell of the result that the abstract book gives.\<close>

fun describes_submit :: "SubmitResult \<Rightarrow> ServerMessage \<Rightarrow> bool" where
  "describes_submit result (ServerSubmitResult answer) \<longleftrightarrow>
     srr_status answer = (if accepted result then WireAccepted else WireRejected) \<and>
     to_domain_rejection_reason (srr_rejection_code answer) = sr_reason result \<and>
     srr_executed_quantity answer = sr_executed result \<and> srr_resting_quantity answer = sr_resting result"
| "describes_submit _ _ \<longleftrightarrow> False"

fun describes_cancel :: "CancelResult \<Rightarrow> ServerMessage \<Rightarrow> bool" where
  "describes_cancel result (ServerCancelResult answer) \<longleftrightarrow>
     to_domain_cancel_status (crr_status answer) = Some (cr_status result) \<and> crr_cancelled_quantity answer = cr_cancelled result"
| "describes_cancel _ _ \<longleftrightarrow> False"

fun answers :: "FlatBook \<Rightarrow> ClientMessage \<Rightarrow> ServerMessage \<Rightarrow> bool" where
  "answers f (ClientSubmit request) message \<longleftrightarrow> describes_submit (snd (spec_submit f (to_domain_order request))) message"
| "answers f (ClientCancel request) message \<longleftrightarrow> describes_cancel (snd (spec_cancel f (cor_order_id request))) message"

section \<open>Results are representable\<close>

text \<open>A result of the book is accepted without a reason, or rejected with one and without effect.\<close>

lemma spec_submit_result:
  obtains (accepted) "sr_status (snd (spec_submit f order)) = Accepted" "sr_reason (snd (spec_submit f order)) = None"
  | (rejected) reason where "snd (spec_submit f order) = rejected reason"
  by (cases "spec_rejection f order") (auto simp: spec_submit_def spec_execute_def Let_def)

lemma rejection_code_on_the_wire:
  obtains v where "to_wire_rejection_code reason = Some (WireRejectionCode v)" "1 \<le> v" "v \<le> 8"
    "to_domain_rejection_reason (WireRejectionCode v) = Some reason"
  by (cases reason) (simp_all add: to_domain_rejection_reason_def)

lemma submit_on_the_wire:
  "\<exists>wire. to_wire_response (SubmitResponse (summarize_submit_result cid rid (snd (spec_submit f order)))) = Some wire \<and>
     env_request_id wire = rid \<and> server_valid (env_message wire) \<and> describes_submit (snd (spec_submit f order)) (env_message wire)"
proof (cases rule: spec_submit_result [of f order])
  case accepted
  then show ?thesis by (simp add: summarize_submit_result_def accepted_def to_domain_rejection_reason_def)
next
  case (rejected reason)
  then show ?thesis
    by (cases rule: rejection_code_on_the_wire [of reason]) (simp add: summarize_submit_result_def accepted_def rejected_def)
qed

lemma cancel_on_the_wire:
  "\<exists>wire. to_wire_response (CancelResponse (summarize_cancel_result cid rid result)) = Some wire \<and>
     env_request_id wire = rid \<and> server_valid (env_message wire) \<and> describes_cancel result (env_message wire)"
  by (cases "cr_status result") (simp_all add: summarize_cancel_result_def to_domain_cancel_status_def)

lemma summarize_connection:
  "response_connection_id (SubmitResponse (summarize_submit_result cid rid result)) = cid"
  "response_connection_id (CancelResponse (summarize_cancel_result cid rid cancelled)) = cid"
  by (simp_all add: summarize_submit_result_def summarize_cancel_result_def)

text \<open>Whatever the state of the book, an executed request has an answer that the gateway can send.\<close>

lemma executed_request_answered:
  "\<exists>response wire. summarize (to_engine_request cid m) (snd (spec_command f (to_journal_command (to_engine_request cid m)))) = Done response \<and>
     response_connection_id response = cid \<and> to_wire_response response = Some wire \<and>
     env_request_id wire = env_request_id m \<and> server_valid (env_message wire) \<and> answers f (env_message m) (env_message wire)"
proof (cases "env_message m")
  case (ClientSubmit order)
  then show ?thesis
    using submit_on_the_wire [of cid "env_request_id m" f "to_domain_order order"]
    by (simp add: to_engine_request_def summarize_connection del: to_wire_response.simps response_connection_id.simps)
next
  case (ClientCancel c)
  then show ?thesis
    using cancel_on_the_wire [of cid "env_request_id m" "snd (spec_cancel f (cor_order_id c))"]
    by (simp add: to_engine_request_def summarize_connection del: to_wire_response.simps response_connection_id.simps)
qed

lemma server_frame_decodes:
  assumes "server_valid (env_message wire)"
  shows "decode_server_frame (server_frame wire) = Done (Inr \<lparr>frame_envelope = wire, frame_consumed = length (server_frame wire)\<rparr>)"
  using server.decode_encoded [OF assms, of "env_request_id wire" "[]"]
  by (simp add: server_frame_def length_server_frame [unfolded server_frame_def] decode_server_frame_def require_exact_frame_def)

section \<open>Properties\<close>

text \<open>
  C8. Every executed request is answered to its sender, with what the matching engine did. Whatever
  message \<open>m\<close> arrived on the connection \<open>cid\<close> and whatever the state \<open>f\<close> of the book, the result of the
  command that the worker executes for it is summarised without an abort; the summary is always
  representable on the wire, is encoded, and is delivered to the connection \<open>cid\<close> if that is still open
  and to no other; and the client decodes from its bytes the request id of \<open>m\<close> and the status, reason
  and quantities of the abstract book.
\<close>

theorem response_reaches_client:
  "\<exists>response wire bytes.
     summarize (to_engine_request cid m) (snd (spec_command f (to_journal_command (to_engine_request cid m)))) = Done response \<and>
     to_wire_response response = Some wire \<and> encode_server_frame wire = Inr bytes \<and>
     deliver_completion response g = (case find_connection g cid of
        None \<Rightarrow> g
      | Some (fd, c) \<Rightarrow>
          if con_closing c then g
          else update_connection fd (\<lambda>c.
            case output_append (con_output c) bytes (cfg_maximum_output_buffer_bytes (gw_config g)) of
              (output, True) \<Rightarrow> c\<lparr>con_output := output\<rparr>
            | (output, False) \<Rightarrow> c\<lparr>con_output := output_clear output, con_closing := True\<rparr>) g) \<and>
     decode_server_frame bytes = Done (Inr \<lparr>frame_envelope = wire, frame_consumed = length bytes\<rparr>) \<and>
     env_request_id wire = env_request_id m \<and> answers f (env_message m) (env_message wire)"
proof -
  obtain response wire where r:
    "summarize (to_engine_request cid m) (snd (spec_command f (to_journal_command (to_engine_request cid m)))) = Done response"
    "response_connection_id response = cid" "to_wire_response response = Some wire"
    "env_request_id wire = env_request_id m" "server_valid (env_message wire)" "answers f (env_message m) (env_message wire)"
    using executed_request_answered [of cid m f] by (elim exE conjE) (rule that)
  have e: "encode_server_frame wire = Inr (server_frame wire)" using r(5) by (simp add: encode_server_frame_eq)
  show ?thesis
    by (intro exI [of _ response] exI [of _ wire] exI [of _ "server_frame wire"] conjI r(1,3,4,6) e server_frame_decodes r(5))
       (simp add: deliver_completion_def r(2,3) queue_response_def e split: option.split)
qed

end
